(* ===== verification/OC_Prelude.thy ===== *)
theory OC_Prelude
  imports Main "HOL-Library.Word" "HOL-Library.Multiset"
begin

text \<open>
  Shared vocabulary of the development: the identifiers and numbers the client passes around,
  exceptions as values, computations that thread a state and may throw, and the generic lemmas on
  lists, maps and words that several components use.

  Strings are byte strings (\<^typ>\<open>string\<close>), \<open>off_t\<close> is an unbounded \<^typ>\<open>int\<close> (signed overflow
  is undefined in C++, so the code relies on its absence), and \<open>uint64_t\<close> is a \<^typ>\<open>64 word\<close>
  wherever the code can wrap it around.
\<close>

type_synonym uuid = string
type_synonym storage_id = string
type_synonym file_id = string
type_synonym path = string
type_synonym off_t = int
type_synonym uint64 = "64 word"
type_synonym int64 = int
type_synonym bytes = "8 word list"

section \<open>Exceptions and stateful computations\<close>

text \<open>
  \<open>std::system_error\<close> carries an \<open>std::error_code\<close>, here its errno value; the file-system layer
  also throws bare \<open>std::errc\<close> enumerators, and the containers throw \<open>std::out_of_range\<close>. A failed
  \<open>assert\<close> ends the process and a null dereference has no defined meaning; both are values too, so
  that their absence can be proved. \<open>Deadlock\<close> is a thread that can never continue,
  as it waits for a lock it holds itself.
\<close>

type_synonym errno = int

datatype exn =
    SystemError errno
  | Errc errno
  | OutOfRange
  | AssertionFailure
  | NullDereference
  | Deadlock

type_synonym 'a res = "exn + 'a"

text \<open>A computation returns a value or throws; the state survives the throw.\<close>

type_synonym ('s, 'a) act = "'s \<Rightarrow> 'a res \<times> 's"

definition returnA :: "'a \<Rightarrow> ('s, 'a) act" where
  "returnA x s = (Inr x, s)"

definition throwA :: "exn \<Rightarrow> ('s, 'a) act" where
  "throwA e s = (Inl e, s)"

definition bindA :: "('s, 'a) act \<Rightarrow> ('a \<Rightarrow> ('s, 'b) act) \<Rightarrow> ('s, 'b) act" where
  "bindA m f s = (case m s of (Inl e, s') \<Rightarrow> (Inl e, s') | (Inr x, s') \<Rightarrow> f x s')"

definition catchA :: "('s, 'a) act \<Rightarrow> (exn \<Rightarrow> ('s, 'a) act) \<Rightarrow> ('s, 'a) act" where
  "catchA m h s = (case m s of (Inl e, s') \<Rightarrow> h e s' | (Inr x, s') \<Rightarrow> (Inr x, s'))"

definition getA :: "('s \<Rightarrow> 'a) \<Rightarrow> ('s, 'a) act" where
  "getA f s = (Inr (f s), s)"

definition modifyA :: "('s \<Rightarrow> 's) \<Rightarrow> ('s, unit) act" where
  "modifyA f s = (Inr (), f s)"

named_theorems act_defs \<open>the definitions of the computation combinators\<close>

lemmas [act_defs] = returnA_def throwA_def bindA_def catchA_def getA_def modifyA_def

lemma bindA_returnA [simp]: "bindA (returnA x) f = f x"
  by (simp add: bindA_def returnA_def fun_eq_iff)

lemma bindA_throwA [simp]: "bindA (throwA e) f = throwA e"
  by (simp add: bindA_def throwA_def fun_eq_iff)

section \<open>Generic lemmas\<close>

named_theorems oc_simps \<open>rewrite rules the components share\<close>

text \<open>A map as an association list with unique keys: how the unordered containers are stored.\<close>

fun al_erase :: "'k \<Rightarrow> ('k \<times> 'v) list \<Rightarrow> ('k \<times> 'v) list" where
  "al_erase k [] = []"
| "al_erase k ((k', v) # xs) = (if k = k' then al_erase k xs else (k', v) # al_erase k xs)"

lemma map_of_al_erase: "map_of (al_erase k xs) = (map_of xs)(k := None)"
  by (induction xs) (auto simp: fun_eq_iff)

text \<open>The position of the first occurrence of an element.\<close>

definition index_of :: "'a list \<Rightarrow> 'a \<Rightarrow> nat" where
  "index_of xs x = length (takeWhile (\<lambda>y. y \<noteq> x) xs)"

lemma index_of_Nil [simp]: "index_of [] x = 0"
  by (simp add: index_of_def)

lemma index_of_Cons [simp]: "index_of (y # ys) x = (if x = y then 0 else Suc (index_of ys x))"
  by (simp add: index_of_def)

lemma index_of_less: "x \<in> set xs \<Longrightarrow> index_of xs x < length xs"
  by (induction xs) auto

lemma nth_index_of: "x \<in> set xs \<Longrightarrow> xs ! index_of xs x = x"
  by (induction xs) auto

lemma index_of_append: "x \<in> set xs \<Longrightarrow> index_of (xs @ ys) x = index_of xs x"
  by (induction xs) auto

lemma index_of_last: "xs \<noteq> [] \<Longrightarrow> distinct xs \<Longrightarrow> index_of xs (last xs) = length xs - 1"
  by (induction xs) (auto simp: Suc_diff_le split: if_splits)

lemma index_of_nth: "distinct xs \<Longrightarrow> i < length xs \<Longrightarrow> index_of xs (xs ! i) = i"
  by (induction xs arbitrary: i) (auto simp: nth_Cons split: nat.splits)

lemma index_of_tl: "x \<in> set (tl xs) \<Longrightarrow> distinct xs \<Longrightarrow> index_of (tl xs @ ys) x = index_of xs x - 1"
  by (cases xs) (auto simp: index_of_append)

lemma sum_list_append_single [simp]: "sum_list (xs @ [x]) = sum_list xs + (x :: 'a :: monoid_add)"
  by simp

lemma count_list_distinct: "distinct xs \<Longrightarrow> count_list xs x = (if x \<in> set xs then 1 else 0)"
  by (induction xs) auto

lemma take_map_nth: "k \<le> k' \<Longrightarrow> k' \<le> length xs \<Longrightarrow> take k xs @ map ((!) xs) [k..<k'] = take k' xs"
  by (induction k' rule: dec_induct) (simp_all add: take_Suc_conv_app_nth)

text \<open>Numbers below \<open>2^64\<close> as machine words.\<close>

lemma unat_of_nat64: "i < 2 ^ 64 \<Longrightarrow> unat (of_nat i :: uint64) = i"
  by (simp add: unat_of_nat)

lemma of_nat_uint64_less:
  "i < 2 ^ 64 \<Longrightarrow> k < 2 ^ 64 \<Longrightarrow> (of_nat i < (of_nat k :: uint64)) = (i < k)"
  by (simp add: word_less_nat_alt unat_of_nat64)

lemma of_nat_uint64_le:
  "i < 2 ^ 64 \<Longrightarrow> k < 2 ^ 64 \<Longrightarrow> (of_nat i \<le> (of_nat k :: uint64)) = (i \<le> k)"
  by (simp add: word_le_nat_alt unat_of_nat64)

lemma of_nat_uint64_eq:
  "i < 2 ^ 64 \<Longrightarrow> k < 2 ^ 64 \<Longrightarrow> (of_nat i = (of_nat k :: uint64)) = (i = k)"
  by (metis unat_of_nat64)

lemmas of_nat_uint64 = of_nat_uint64_less of_nat_uint64_le of_nat_uint64_eq

end
