(* ===== verification/OC_Expiration.thy ===== *)
theory OC_Expiration
  imports OC_Prelude
begin

text \<open>
  The cache-expiration helper (\<open>src/src/cache/cacheExpirationHelper.h\<close>). It tracks keys of a cache:
  a key is either pinned (counted, in no bucket) or sits in exactly one of a fixed number of
  buckets; every tick drops the front bucket and purges the keys that still belong to it.
\<close>

section \<open>State\<close>

text \<open>
  A bucket is a heap-allocated \<open>Set\<close> owned by \<open>m_buckets\<close>, and a key's details hold a raw pointer
  to it. Pointers are numbers, \<open>m_sets\<close> is the heap of sets (a set is the list of its keys in
  iteration order) and \<open>m_nextSet\<close> the next address \<open>make_unique\<close> returns.
\<close>

type_synonym bucket_ptr = nat

record ExpirationDetails =
  pinnedCount :: uint64
  bucket :: "bucket_ptr option"

record 'k CacheExpirationHelper =
  m_expDetails :: "'k \<rightharpoonup> ExpirationDetails"
  m_buckets :: "bucket_ptr list"
  m_sets :: "bucket_ptr \<Rightarrow> 'k list"
  m_nextSet :: bucket_ptr

definition CacheExpirationHelper_init :: "nat \<Rightarrow> 'k CacheExpirationHelper" where
  "CacheExpirationHelper_init BucketsCount =
     \<lparr>m_expDetails = Map.empty, m_buckets = [0..<BucketsCount], m_sets = (\<lambda>_. []),
      m_nextSet = BucketsCount\<rparr>"

definition fresh_details :: ExpirationDetails where
  "fresh_details = \<lparr>pinnedCount = 0, bucket = None\<rparr>"

section \<open>Operations\<close>

text \<open>\<open>Set::insert\<close> reports whether the key was new; \<open>Set::erase\<close> removes it.\<close>

definition set_insert :: "bucket_ptr \<Rightarrow> 'k \<Rightarrow> 'k CacheExpirationHelper \<Rightarrow> bool \<times> 'k CacheExpirationHelper" where
  "set_insert b k h =
     (if k \<in> set (m_sets h b) then (False, h)
      else (True, h\<lparr>m_sets := (m_sets h)(b := m_sets h b @ [k])\<rparr>))"

definition set_erase :: "bucket_ptr \<Rightarrow> 'k \<Rightarrow> 'k CacheExpirationHelper \<Rightarrow> 'k CacheExpirationHelper" where
  "set_erase b k h = h\<lparr>m_sets := (m_sets h)(b := removeAll k (m_sets h b))\<rparr>"

definition put_details :: "'k \<Rightarrow> ExpirationDetails \<Rightarrow> 'k CacheExpirationHelper \<Rightarrow> 'k CacheExpirationHelper" where
  "put_details k d h = h\<lparr>m_expDetails := (m_expDetails h)(k \<mapsto> d)\<rparr>"

definition drop_details :: "'k \<Rightarrow> 'k CacheExpirationHelper \<Rightarrow> 'k CacheExpirationHelper" where
  "drop_details k h = h\<lparr>m_expDetails := (m_expDetails h)(k := None)\<rparr>"

definition erase_from :: "bucket_ptr option \<Rightarrow> 'k \<Rightarrow> 'k CacheExpirationHelper \<Rightarrow> 'k CacheExpirationHelper" where
  "erase_from bo k h = (case bo of None \<Rightarrow> h | Some b \<Rightarrow> set_erase b k h)"

definition assert_inserted :: "bool \<times> 'k CacheExpirationHelper \<Rightarrow> unit res \<times> 'k CacheExpirationHelper" where
  "assert_inserted r = (if fst r then Inr () else Inl AssertionFailure, snd r)"

text \<open>\<open>m_expDetails.insert(acc, key)\<close> followed by \<open>cache()\<close> when the key was not tracked yet.\<close>

definition track :: "'k \<Rightarrow> ('s, unit) act \<Rightarrow> ('k CacheExpirationHelper \<times> 's, unit) act" where
  "track key cache = (\<lambda>(h, s).
     case m_expDetails h key of
       Some d \<Rightarrow> (Inr (), (h, s))
     | None \<Rightarrow> (case cache s of (r, s') \<Rightarrow> (r, (put_details key fresh_details h, s'))))"

definition markInteresting :: "'k \<Rightarrow> ('s, unit) act \<Rightarrow> ('k CacheExpirationHelper \<times> 's, unit) act" where
  "markInteresting key cache = bindA (track key cache) (\<lambda>_ (h, s).
     let d = the (m_expDetails h key); back = last (m_buckets h) in
     if pinnedCount d = 0 \<and> bucket d \<noteq> Some back then
       (case assert_inserted (set_insert back key
               (put_details key (d\<lparr>bucket := Some back\<rparr>) (erase_from (bucket d) key h)))
        of (r, h') \<Rightarrow> (r, (h', s)))
     else (Inr (), (h, s)))"

definition pin :: "'k \<Rightarrow> ('s, unit) act \<Rightarrow> ('k CacheExpirationHelper \<times> 's, unit) act" where
  "pin key cache = bindA (track key cache) (\<lambda>_ (h, s).
     let d = the (m_expDetails h key) in
     (Inr (), (put_details key \<lparr>pinnedCount = pinnedCount d + 1, bucket = None\<rparr>
                 (erase_from (bucket d) key h), s)))"

definition unpin :: "'k \<Rightarrow> ('k CacheExpirationHelper, unit) act" where
  "unpin key h =
     (case m_expDetails h key of
        None \<Rightarrow> (Inl AssertionFailure, h)
      | Some d \<Rightarrow>
          if bucket d \<noteq> None then (Inl AssertionFailure, h)
          else if pinnedCount d - 1 = 0 then
            (let back = last (m_buckets h) in
             assert_inserted (set_insert back key
               (put_details key \<lparr>pinnedCount = 0, bucket = Some back\<rparr> h)))
          else (Inr (), put_details key (d\<lparr>pinnedCount := pinnedCount d - 1\<rparr>) h))"

text \<open>
  The part of \<open>rename\<close> after both records are locked: \<open>od\<close> and \<open>nd\<close> are the details of the old
  and the new key, \<open>newKeyTracked\<close> tells whether the new key was tracked before the call.
\<close>

definition rename_finish :: "'k \<Rightarrow> ExpirationDetails \<Rightarrow> 'k CacheExpirationHelper \<Rightarrow> 'k CacheExpirationHelper" where
  "rename_finish oldKey od h = drop_details oldKey (erase_from (bucket od) oldKey h)"

definition rename_locked :: "'k \<Rightarrow> 'k \<Rightarrow> bool \<Rightarrow> ('s, unit) act \<Rightarrow> ('k CacheExpirationHelper \<times> 's, unit) act" where
  "rename_locked oldKey newKey newKeyTracked cache = (\<lambda>(h, s).
     let od = the (m_expDetails h oldKey); nd = the (m_expDetails h newKey) in
     if newKeyTracked then
       (let n = pinnedCount nd + pinnedCount od;
            h' = (if n > 0 \<and> bucket nd \<noteq> None
                  then put_details newKey \<lparr>pinnedCount = n, bucket = None\<rparr>
                         (erase_from (bucket nd) newKey h)
                  else put_details newKey (nd\<lparr>pinnedCount := n\<rparr>) h)
        in (Inr (), (rename_finish oldKey od h', s)))
     else
       (case cache s of
          (Inl e, s') \<Rightarrow> (Inl e, (h, s'))
        | (Inr _, s') \<Rightarrow>
            if pinnedCount od = 0 then
              (case bucket od of
                 None \<Rightarrow> (Inl NullDereference, (h, s'))
               | Some b \<Rightarrow>
                   (case assert_inserted (set_insert b newKey
                           (put_details newKey \<lparr>pinnedCount = 0, bucket = Some b\<rparr> h))
                    of (Inl e, h') \<Rightarrow> (Inl e, (h', s'))
                     | (Inr _, h') \<Rightarrow> (Inr (), (rename_finish oldKey od h', s'))))
            else
              (Inr (), (rename_finish oldKey od
                          (put_details newKey (nd\<lparr>pinnedCount := pinnedCount od\<rparr>) h), s'))))"

definition rename_key :: "'k::linorder \<Rightarrow> 'k \<Rightarrow> ('s, unit) act \<Rightarrow> ('k CacheExpirationHelper \<times> 's, unit) act" where
  "rename_key oldKey newKey cache = (\<lambda>(h, s).
     if oldKey = newKey then (Inr (), (h, s))
     else
       let newKeyTracked = m_expDetails h newKey \<noteq> None;
           h1 = (if newKeyTracked then h else put_details newKey fresh_details h) in
       if oldKey < newKey then
         (if m_expDetails h oldKey = None then (Inr (), (h, s))
          else rename_locked oldKey newKey newKeyTracked cache (h1, s))
       else
         (if m_expDetails h1 oldKey = None
          then (Inr (), (if newKeyTracked then h1 else drop_details newKey h1, s))
          else rename_locked oldKey newKey newKeyTracked cache (h1, s)))"

definition expire :: "'k \<Rightarrow> ('k CacheExpirationHelper, unit) act" where
  "expire key h =
     (case m_expDetails h key of
        None \<Rightarrow> (Inr (), h)
      | Some d \<Rightarrow>
          if pinnedCount d > 0 then (Inr (), h)
          else
            (case bucket d of
               None \<Rightarrow> (Inl AssertionFailure, h)
             | Some b \<Rightarrow>
                 let front = hd (m_buckets h) in
                 if b \<noteq> front then
                   assert_inserted (set_insert front key
                     (put_details key (d\<lparr>bucket := Some front\<rparr>) (set_erase b key h)))
                 else (Inr (), h)))"

text \<open>
  \<open>shift\<close> takes the front bucket out, moves the others forward and allocates a new last one. The
  caller owns the expired bucket, walks over it, and frees it on return.
\<close>

definition shift :: "'k CacheExpirationHelper \<Rightarrow> bucket_ptr \<times> 'k CacheExpirationHelper" where
  "shift h =
     (hd (m_buckets h),
      h\<lparr>m_buckets := tl (m_buckets h) @ [m_nextSet h],
        m_sets := (m_sets h)(m_nextSet h := []),
        m_nextSet := Suc (m_nextSet h)\<rparr>)"

definition tick_elem :: "('k \<Rightarrow> 's \<Rightarrow> 's) \<Rightarrow> bucket_ptr \<Rightarrow> 'k \<Rightarrow> 'k CacheExpirationHelper \<times> 's \<Rightarrow> 'k CacheExpirationHelper \<times> 's" where
  "tick_elem purge expired k = (\<lambda>(h, s).
     case m_expDetails h k of
       None \<Rightarrow> (h, s)
     | Some d \<Rightarrow> if bucket d = Some expired then (drop_details k h, purge k s) else (h, s))"

definition tick :: "('k \<Rightarrow> 's \<Rightarrow> 's) \<Rightarrow> 'k CacheExpirationHelper \<times> 's \<Rightarrow> 'k CacheExpirationHelper \<times> 's" where
  "tick purge = (\<lambda>(h, s).
     case shift h of
       (expired, h1) \<Rightarrow>
         (case fold (tick_elem purge expired) (m_sets h1 expired) (h1, s) of
            (h2, s') \<Rightarrow> (h2\<lparr>m_sets := (m_sets h2)(expired := [])\<rparr>, s')))"

section \<open>The representation invariant\<close>

text \<open>
  Every live bucket holds exactly the keys whose details point to it, a key in a bucket is not
  pinned, and a key in no bucket is pinned.
\<close>

definition details_ok :: "bucket_ptr list \<Rightarrow> ExpirationDetails \<Rightarrow> bool" where
  "details_ok bs d =
     (case bucket d of
        None \<Rightarrow> pinnedCount d \<noteq> 0
      | Some b \<Rightarrow> pinnedCount d = 0 \<and> b \<in> set bs)"

definition bucket_ok :: "'k CacheExpirationHelper \<Rightarrow> bucket_ptr \<Rightarrow> bool" where
  "bucket_ok h b \<longleftrightarrow>
     b < m_nextSet h \<and> distinct (m_sets h b) \<and>
     set (m_sets h b) = {k. \<exists>d. m_expDetails h k = Some d \<and> bucket d = Some b}"

definition expiration_inv :: "'k CacheExpirationHelper \<Rightarrow> bool" where
  "expiration_inv h \<longleftrightarrow>
     m_buckets h \<noteq> [] \<and> distinct (m_buckets h) \<and>
     (\<forall>b \<in> set (m_buckets h). bucket_ok h b) \<and>
     (\<forall>k d. m_expDetails h k = Some d \<longrightarrow> details_ok (m_buckets h) d)"

named_theorems expiration_defs \<open>the definitions of the expiration helper's operations\<close>

lemmas [expiration_defs] =
  set_insert_def set_erase_def put_details_def drop_details_def erase_from_def assert_inserted_def
  track_def markInteresting_def pin_def unpin_def rename_finish_def rename_locked_def
  rename_key_def expire_def fresh_details_def

lemma details_ok_simps [simp]:
  "details_ok bs \<lparr>pinnedCount = n, bucket = None\<rparr> \<longleftrightarrow> n \<noteq> 0"
  "details_ok bs \<lparr>pinnedCount = n, bucket = Some b\<rparr> \<longleftrightarrow> n = 0 \<and> b \<in> set bs"
  by (simp_all add: details_ok_def)

lemma details_upd:
  "(d :: ExpirationDetails)\<lparr>bucket := b\<rparr> = \<lparr>pinnedCount = pinnedCount d, bucket = b\<rparr>"
  "(d :: ExpirationDetails)\<lparr>pinnedCount := n\<rparr> = \<lparr>pinnedCount = n, bucket = bucket d\<rparr>"
  by (cases d; simp)+

lemma expiration_inv_init: "0 < n \<Longrightarrow> expiration_inv (CacheExpirationHelper_init n)"
  by (auto simp: expiration_inv_def CacheExpirationHelper_init_def bucket_ok_def)

lemma inv_details: "expiration_inv h \<Longrightarrow> m_expDetails h k = Some d \<Longrightarrow> details_ok (m_buckets h) d"
  by (simp add: expiration_inv_def)

lemma inv_bucket: "expiration_inv h \<Longrightarrow> b \<in> set (m_buckets h) \<Longrightarrow> bucket_ok h b"
  by (simp add: expiration_inv_def)

lemma inv_last: "expiration_inv h \<Longrightarrow> last (m_buckets h) \<in> set (m_buckets h)"
  by (simp add: expiration_inv_def)

lemma inv_hd: "expiration_inv h \<Longrightarrow> hd (m_buckets h) \<in> set (m_buckets h)"
  by (simp add: expiration_inv_def)

text \<open>
  All operations but \<open>tick\<close> and \<open>rename\<close> move one key from where it is to a bucket or to the pinned
  state. The two lemmas below are that move; every preservation proof goes through them.
\<close>

definition move_to_bucket :: "'k \<Rightarrow> bucket_ptr \<Rightarrow> 'k CacheExpirationHelper \<Rightarrow> 'k CacheExpirationHelper" where
  "move_to_bucket k b h =
     h\<lparr>m_expDetails := (m_expDetails h)(k \<mapsto> \<lparr>pinnedCount = 0, bucket = Some b\<rparr>),
       m_sets := (let s = (case m_expDetails h k of
                             None \<Rightarrow> m_sets h
                           | Some d \<Rightarrow> m_sets (erase_from (bucket d) k h))
                  in s(b := s b @ [k]))\<rparr>"

definition move_to_pinned :: "'k \<Rightarrow> uint64 \<Rightarrow> 'k CacheExpirationHelper \<Rightarrow> 'k CacheExpirationHelper" where
  "move_to_pinned k n h =
     h\<lparr>m_expDetails := (m_expDetails h)(k \<mapsto> \<lparr>pinnedCount = n, bucket = None\<rparr>),
       m_sets := (case m_expDetails h k of
                    None \<Rightarrow> m_sets h
                  | Some d \<Rightarrow> m_sets (erase_from (bucket d) k h))\<rparr>"

definition untrack :: "'k \<Rightarrow> 'k CacheExpirationHelper \<Rightarrow> 'k CacheExpirationHelper" where
  "untrack k h =
     h\<lparr>m_expDetails := (m_expDetails h)(k := None),
       m_sets := (case m_expDetails h k of
                    None \<Rightarrow> m_sets h
                  | Some d \<Rightarrow> m_sets (erase_from (bucket d) k h))\<rparr>"

definition in_bucket :: "'k CacheExpirationHelper \<Rightarrow> 'k \<Rightarrow> bucket_ptr \<Rightarrow> bool" where
  "in_bucket h k b = (case m_expDetails h k of None \<Rightarrow> False | Some d \<Rightarrow> bucket d = Some b)"

lemma move_to_bucket_inv:
  assumes "expiration_inv h" and "b \<in> set (m_buckets h)"
    and "\<not> in_bucket h k b"
  shows "expiration_inv (move_to_bucket k b h)"
  using assms
  by (auto simp: in_bucket_def expiration_inv_def move_to_bucket_def bucket_ok_def erase_from_def
        set_erase_def Let_def distinct_removeAll split: option.splits if_splits)

lemma move_to_pinned_inv:
  assumes "expiration_inv h" and "n \<noteq> 0"
  shows "expiration_inv (move_to_pinned k n h)"
  using assms
  by (auto simp: expiration_inv_def move_to_pinned_def bucket_ok_def erase_from_def
        set_erase_def distinct_removeAll split: option.splits if_splits)

lemma untrack_inv:
  assumes "expiration_inv h"
  shows "expiration_inv (untrack k h)"
  using assms
  by (auto simp: expiration_inv_def untrack_def bucket_ok_def erase_from_def
        set_erase_def distinct_removeAll split: option.splits if_splits)

section \<open>What each operation does to a consistent helper\<close>

text \<open>What \<open>cache()\<close> returns: it runs only for a key that is not tracked yet.\<close>

definition run_cache :: "'k CacheExpirationHelper \<Rightarrow> 'k \<Rightarrow> ('s, unit) act \<Rightarrow> 's \<Rightarrow> unit res \<times> 's" where
  "run_cache h k cache s = (case m_expDetails h k of None \<Rightarrow> cache s | Some _ \<Rightarrow> (Inr (), s))"

definition pins :: "'k CacheExpirationHelper \<Rightarrow> 'k \<Rightarrow> uint64" where
  "pins h k = (case m_expDetails h k of None \<Rightarrow> 0 | Some d \<Rightarrow> pinnedCount d)"

lemma in_bucket_Some [simp]:
  "m_expDetails h k = Some d \<Longrightarrow> in_bucket h k b \<longleftrightarrow> bucket d = Some b"
  by (simp add: in_bucket_def)

lemma not_in_bucket: "expiration_inv h \<Longrightarrow> b \<in> set (m_buckets h) \<Longrightarrow> \<not> in_bucket h k b \<Longrightarrow> k \<notin> set (m_sets h b)"
  by (auto simp: in_bucket_def expiration_inv_def bucket_ok_def)

lemma pins_bucket: "expiration_inv h \<Longrightarrow> m_expDetails h k = Some d \<Longrightarrow> bucket d = Some b \<Longrightarrow>
    pinnedCount d = 0 \<and> b \<in> set (m_buckets h)"
  by (drule (1) inv_details) (simp add: details_ok_def)

lemma pins_no_bucket: "expiration_inv h \<Longrightarrow> m_expDetails h k = Some d \<Longrightarrow> bucket d = None \<Longrightarrow>
    pinnedCount d \<noteq> 0"
  by (drule (1) inv_details) (simp add: details_ok_def)

lemma pins_bucket_iff: "expiration_inv h \<Longrightarrow> m_expDetails h k = Some d \<Longrightarrow>
    (pinnedCount d = 0) = (bucket d \<noteq> None)"
  by (cases "bucket d") (auto dest: pins_bucket pins_no_bucket)

lemma insert_move:
  assumes "expiration_inv h" and "b \<in> set (m_buckets h)" and "\<not> in_bucket h k b"
    and "m_expDetails h k = Some d"
  shows "assert_inserted (set_insert b k
           (put_details k \<lparr>pinnedCount = 0, bucket = Some b\<rparr> (erase_from (bucket d) k h)))
         = (Inr (), move_to_bucket k b h)"
  using assms not_in_bucket [OF assms(1-3)]
  by (auto simp: expiration_defs move_to_bucket_def Let_def split: option.splits)

lemma insert_move_fresh:
  assumes "expiration_inv h" and "b \<in> set (m_buckets h)" and "m_expDetails h k = None"
  shows "assert_inserted (set_insert b k (put_details k \<lparr>pinnedCount = 0, bucket = Some b\<rparr>
           (put_details k d h))) = (Inr (), move_to_bucket k b h)"
  using assms not_in_bucket [OF assms(1,2), of k]
  by (auto simp: expiration_defs move_to_bucket_def Let_def in_bucket_def)

lemma markInteresting_eq:
  assumes inv: "expiration_inv h" and run: "run_cache h k cache s = (Inr (), s')"
  shows "markInteresting k cache (h, s) =
    (Inr (), (if pins h k \<noteq> 0 \<or> in_bucket h k (last (m_buckets h)) then h
              else move_to_bucket k (last (m_buckets h)) h, s'))"
proof (cases "m_expDetails h k")
  case None
  then show ?thesis
    using run insert_move_fresh [OF inv inv_last [OF inv] None, of fresh_details]
    by (simp add: markInteresting_def bindA_def track_def run_cache_def pins_def in_bucket_def
        fresh_details_def erase_from_def put_details_def)
next
  case (Some d)
  then show ?thesis
    using run insert_move [OF inv inv_last [OF inv] _ Some]
    by (auto simp: markInteresting_def bindA_def track_def run_cache_def pins_def details_upd Let_def)
qed

lemma pin_eq:
  assumes inv: "expiration_inv h" and run: "run_cache h k cache s = (Inr (), s')"
  shows "pin k cache (h, s) = (Inr (), (move_to_pinned k (pins h k + 1) h, s'))"
  using run
  by (auto simp: pin_def bindA_def track_def run_cache_def pins_def move_to_pinned_def fresh_details_def
      erase_from_def put_details_def set_erase_def split: option.splits)

lemma unpin_eq:
  assumes inv: "expiration_inv h" and n: "pins h k \<noteq> 0"
  shows "unpin k h =
    (Inr (), if pins h k = 1 then move_to_bucket k (last (m_buckets h)) h
             else move_to_pinned k (pins h k - 1) h)"
proof -
  obtain d where d: "m_expDetails h k = Some d" "pinnedCount d \<noteq> 0"
    using n by (auto simp: pins_def split: option.splits)
  then have b: "bucket d = None" using pins_bucket_iff [OF inv] by blast
  then have nb: "\<not> in_bucket h k (last (m_buckets h))" using d by simp
  show ?thesis
    using d b insert_move [OF inv inv_last [OF inv] nb d(1)]
    by (auto simp: unpin_def details_upd pins_def Let_def erase_from_def put_details_def move_to_pinned_def)
qed

lemma expire_eq:
  assumes inv: "expiration_inv h"
  shows "expire k h =
    (Inr (), if m_expDetails h k = None \<or> pins h k \<noteq> 0 \<or> in_bucket h k (hd (m_buckets h)) then h
             else move_to_bucket k (hd (m_buckets h)) h)"
proof (cases "m_expDetails h k")
  case None
  then show ?thesis by (simp add: expire_def)
next
  case (Some d)
  then show ?thesis
    using insert_move [OF inv inv_hd [OF inv] _ Some] pins_bucket_iff [OF inv Some]
    by (auto simp: expire_def details_upd pins_def Let_def erase_from_def word_gt_0 split: option.splits)
qed

definition rename_target :: "'k \<Rightarrow> 'k \<Rightarrow> 'k CacheExpirationHelper \<Rightarrow> 'k CacheExpirationHelper" where
  "rename_target oldKey newKey h =
     (if pins h newKey + pins h oldKey \<noteq> 0
      then move_to_pinned newKey (pins h newKey + pins h oldKey) h
      else if m_expDetails h newKey \<noteq> None then h
      else move_to_bucket newKey (the (bucket (the (m_expDetails h oldKey)))) h)"

lemma rename_locked_tracked:
  assumes ne: "oldKey \<noteq> newKey"
    and old: "m_expDetails h oldKey = Some od" and new: "m_expDetails h newKey = Some nd"
    and ok: "pins h newKey + pins h oldKey \<noteq> 0 \<or> pins h newKey = 0"
  shows "rename_locked oldKey newKey True cache (h, s) =
    (Inr (), (untrack oldKey (rename_target oldKey newKey h), s))"
proof (cases "pinnedCount nd + pinnedCount od = 0")
  case True
  then have z: "pinnedCount nd = 0" "pinnedCount od = 0" using ok old new by (auto simp: pins_def)
  then have "nd\<lparr>pinnedCount := 0\<rparr> = nd" by simp
  then have "put_details newKey (nd\<lparr>pinnedCount := 0\<rparr>) h = h"
    using new by (simp add: put_details_def fun_upd_idem)
  then show ?thesis
    using ne old new z
    by (simp add: rename_locked_def rename_finish_def rename_target_def untrack_def pins_def
        erase_from_def drop_details_def set_erase_def split: option.splits)
next
  case False
  then show ?thesis
    using ne old new
    by (auto simp: rename_locked_def rename_finish_def rename_target_def untrack_def
        move_to_pinned_def pins_def erase_from_def drop_details_def put_details_def set_erase_def
        details_upd word_gt_0 split: option.splits)
qed

lemma rename_locked_fresh:
  assumes inv: "expiration_inv h" and ne: "oldKey \<noteq> newKey"
    and old: "m_expDetails h oldKey = Some od" and new: "m_expDetails h newKey = None"
    and run: "cache s = (Inr (), s')"
  shows "rename_locked oldKey newKey False cache (put_details newKey fresh_details h, s) =
    (Inr (), (untrack oldKey (rename_target oldKey newKey h), s'))"
proof (cases "bucket od")
  case None
  then show ?thesis
    using ne old new run pins_no_bucket [OF inv old]
    by (auto simp: rename_locked_def rename_finish_def rename_target_def untrack_def
        move_to_pinned_def pins_def erase_from_def drop_details_def put_details_def details_upd
        fresh_details_def Let_def)
next
  case (Some b)
  note b = pins_bucket [OF inv old Some]
  have "rename_locked oldKey newKey False cache (put_details newKey fresh_details h, s) =
      (Inr (), (rename_finish oldKey od (move_to_bucket newKey b h), s'))"
    using ne old new run Some b insert_move_fresh [OF inv conjunct2 [OF b] new, of fresh_details]
    by (simp add: rename_locked_def Let_def) (simp add: put_details_def)
  then show ?thesis
    using ne old new Some b
    by (simp add: rename_finish_def rename_target_def untrack_def move_to_bucket_def pins_def
        erase_from_def drop_details_def set_erase_def)
qed

lemma rename_key_eq:
  assumes inv: "expiration_inv h" and ne: "oldKey \<noteq> newKey"
    and old: "m_expDetails h oldKey \<noteq> None"
    and run: "run_cache h newKey cache s = (Inr (), s')"
    and ok: "pins h newKey + pins h oldKey \<noteq> 0 \<or> pins h newKey = 0"
  shows "rename_key oldKey newKey cache (h, s) =
    (Inr (), (untrack oldKey (rename_target oldKey newKey h), s'))"
proof (cases "m_expDetails h newKey")
  case None
  then show ?thesis
    using ne old run rename_locked_fresh [OF inv ne _ None, where cache = cache]
    by (auto simp: rename_key_def run_cache_def Let_def put_details_def)
next
  case (Some nd)
  then show ?thesis
    using ne old run rename_locked_tracked [OF ne _ Some ok, where cache = cache]
    by (auto simp: rename_key_def run_cache_def Let_def)
qed

lemma rename_key_noop:
  assumes "oldKey = newKey \<or> m_expDetails h oldKey = None"
  shows "rename_key oldKey newKey cache (h, s) = (Inr (), (h, s))"
proof -
  have "(m_expDetails h)(newKey := None) = m_expDetails h" if "m_expDetails h newKey = None"
    using that by (simp add: fun_upd_idem)
  then show ?thesis
    using assms by (auto simp: rename_key_def drop_details_def put_details_def Let_def)
qed

definition tick_core :: "'k CacheExpirationHelper \<Rightarrow> 'k CacheExpirationHelper" where
  "tick_core h =
     h\<lparr>m_expDetails := m_expDetails h |` (- set (m_sets h (hd (m_buckets h)))),
       m_buckets := tl (m_buckets h) @ [m_nextSet h],
       m_sets := (m_sets h)(m_nextSet h := [], hd (m_buckets h) := []),
       m_nextSet := Suc (m_nextSet h)\<rparr>"

lemma fold_tick_elem:
  assumes "distinct xs" and "\<And>k. k \<in> set xs \<Longrightarrow> in_bucket h k e"
  shows "fold (tick_elem purge e) xs (h, s) =
    (h\<lparr>m_expDetails := m_expDetails h |` (- set xs)\<rparr>, fold purge xs s)"
  using assms
proof (induction xs arbitrary: h s)
  case Nil
  then show ?case by simp
next
  case (Cons x xs)
  have e: "tick_elem purge e x (h, s) = (drop_details x h, purge x s)"
    using Cons.prems(2) [of x] by (auto simp: tick_elem_def in_bucket_def split: option.splits)
  have "in_bucket (drop_details x h) k e" if "k \<in> set xs" for k
    using that Cons.prems by (auto simp: in_bucket_def drop_details_def)
  from Cons.IH [OF _ this] Cons.prems(1) show ?case
    by (simp add: e) (simp add: drop_details_def restrict_map_def fun_eq_iff)
qed

lemma tick_eq:
  assumes inv: "expiration_inv h"
  shows "tick purge (h, s) = (tick_core h, fold purge (m_sets h (hd (m_buckets h))) s)"
proof -
  let ?e = "hd (m_buckets h)" and ?h1 = "snd (shift h)"
  have e: "bucket_ok h ?e" by (rule inv_bucket [OF inv inv_hd [OF inv]])
  then have ne: "?e \<noteq> m_nextSet h" by (simp add: bucket_ok_def)
  have s1: "m_sets ?h1 ?e = m_sets h ?e" using ne by (simp add: shift_def)
  have "fold (tick_elem purge ?e) (m_sets h ?e) (?h1, s) =
      (?h1\<lparr>m_expDetails := m_expDetails ?h1 |` (- set (m_sets h ?e))\<rparr>, fold purge (m_sets h ?e) s)"
    using e by (intro fold_tick_elem) (auto simp: bucket_ok_def shift_def in_bucket_def)
  then show ?thesis
    using s1 by (simp add: tick_def split_beta) (simp add: shift_def tick_core_def)
qed

section \<open>The specification: a map from keys to places\<close>

text \<open>
  What a client needs to know: a key is untracked, pinned a number of times, or has a number of
  ticks left before the tick that purges it.
\<close>

datatype place = Pinned uint64 | Remaining nat

definition view :: "'k CacheExpirationHelper \<Rightarrow> 'k \<rightharpoonup> place" where
  "view h k =
     (case m_expDetails h k of
        None \<Rightarrow> None
      | Some d \<Rightarrow> Some (case bucket d of
                          None \<Rightarrow> Pinned (pinnedCount d)
                        | Some b \<Rightarrow> Remaining (index_of (m_buckets h) b)))"

definition depth :: "'k CacheExpirationHelper \<Rightarrow> nat" where
  "depth h = length (m_buckets h)"

definition spec_mark :: "nat \<Rightarrow> 'k \<Rightarrow> ('k \<rightharpoonup> place) \<Rightarrow> ('k \<rightharpoonup> place)" where
  "spec_mark n k m = (case m k of Some (Pinned _) \<Rightarrow> m | _ \<Rightarrow> m(k \<mapsto> Remaining (n - 1)))"

definition spec_pin :: "'k \<Rightarrow> ('k \<rightharpoonup> place) \<Rightarrow> ('k \<rightharpoonup> place)" where
  "spec_pin k m = m(k \<mapsto> Pinned (case m k of Some (Pinned c) \<Rightarrow> c + 1 | _ \<Rightarrow> 1))"

definition spec_unpin :: "nat \<Rightarrow> 'k \<Rightarrow> ('k \<rightharpoonup> place) \<Rightarrow> ('k \<rightharpoonup> place)" where
  "spec_unpin n k m =
     (case m k of
        Some (Pinned c) \<Rightarrow> m(k \<mapsto> (if c = 1 then Remaining (n - 1) else Pinned (c - 1)))
      | _ \<Rightarrow> m)"

definition spec_expire :: "'k \<Rightarrow> ('k \<rightharpoonup> place) \<Rightarrow> ('k \<rightharpoonup> place)" where
  "spec_expire k m = (case m k of Some (Remaining _) \<Rightarrow> m(k \<mapsto> Remaining 0) | _ \<Rightarrow> m)"

fun merge_place :: "place \<Rightarrow> place option \<Rightarrow> place" where
  "merge_place old None = old"
| "merge_place (Pinned a) (Some (Pinned b)) = Pinned (b + a)"
| "merge_place (Pinned a) (Some (Remaining _)) = Pinned a"
| "merge_place (Remaining _) (Some p) = p"

definition spec_rename :: "'k \<Rightarrow> 'k \<Rightarrow> ('k \<rightharpoonup> place) \<Rightarrow> ('k \<rightharpoonup> place)" where
  "spec_rename oldKey newKey m =
     (if oldKey = newKey then m
      else case m oldKey of
             None \<Rightarrow> m
           | Some p \<Rightarrow> m(newKey \<mapsto> merge_place p (m newKey), oldKey := None))"

definition age :: "place option \<Rightarrow> place option" where
  "age p = (case p of Some (Remaining 0) \<Rightarrow> None
                    | Some (Remaining (Suc i)) \<Rightarrow> Some (Remaining i)
                    | _ \<Rightarrow> p)"

definition spec_tick :: "('k \<rightharpoonup> place) \<Rightarrow> ('k \<rightharpoonup> place)" where
  "spec_tick m = (\<lambda>k. age (m k))"

lemma view_None: "view h k = None \<longleftrightarrow> m_expDetails h k = None"
  by (simp add: view_def split: option.splits)

lemma view_Pinned: "expiration_inv h \<Longrightarrow> view h k = Some (Pinned n) \<longleftrightarrow> n \<noteq> 0 \<and> pins h k = n"
  using pins_bucket [of h k] pins_no_bucket [of h k]
  by (auto simp: view_def pins_def split: option.splits)

lemma view_move_to_bucket:
  "view (move_to_bucket k b h) = (view h)(k \<mapsto> Remaining (index_of (m_buckets h) b))"
  by (rule ext) (simp add: view_def move_to_bucket_def split: option.split)

lemma view_move_to_pinned: "view (move_to_pinned k n h) = (view h)(k \<mapsto> Pinned n)"
  by (rule ext) (simp add: view_def move_to_pinned_def split: option.split)

lemma view_untrack: "view (untrack k h) = (view h)(k := None)"
  by (rule ext) (simp add: view_def untrack_def split: option.split)

lemma buckets_moves [simp]:
  "m_buckets (move_to_bucket k b h) = m_buckets h"
  "m_buckets (move_to_pinned k n h) = m_buckets h"
  "m_buckets (untrack k h) = m_buckets h"
  by (simp_all add: move_to_bucket_def move_to_pinned_def untrack_def)

lemma index_back: "expiration_inv h \<Longrightarrow> index_of (m_buckets h) (last (m_buckets h)) = depth h - 1"
  by (simp add: expiration_inv_def depth_def index_of_last)

lemma index_front: "expiration_inv h \<Longrightarrow> index_of (m_buckets h) (hd (m_buckets h)) = 0"
  by (cases "m_buckets h") (auto simp: expiration_inv_def)

lemma view_in_bucket: "in_bucket h k b \<Longrightarrow> view h k = Some (Remaining (index_of (m_buckets h) b))"
  by (auto simp: in_bucket_def view_def split: option.splits)

lemma view_cases:
  assumes inv: "expiration_inv h" and d: "m_expDetails h k = Some d"
  obtains (pinned) "bucket d = None" "pins h k \<noteq> 0" "view h k = Some (Pinned (pins h k))"
  | (placed) b where "bucket d = Some b" "b \<in> set (m_buckets h)" "pins h k = 0"
      "view h k = Some (Remaining (index_of (m_buckets h) b))"
  using pins_bucket [OF inv d] pins_no_bucket [OF inv d] d
  by (cases "bucket d") (auto simp: pins_def view_def)

lemma view_pins_cases:
  assumes inv: "expiration_inv h"
  obtains (untracked) "view h k = None" "m_expDetails h k = None" "pins h k = 0"
  | (pinned) "view h k = Some (Pinned (pins h k))" "pins h k \<noteq> 0"
  | (placed) i where "view h k = Some (Remaining i)" "pins h k = 0"
proof (cases "m_expDetails h k")
  case None
  then show ?thesis by (intro untracked) (simp_all add: pins_def view_None)
next
  case (Some d)
  then show ?thesis using inv pinned placed by (elim view_cases) auto
qed

text \<open>Each operation keeps the invariant and does on the view what the specification says.\<close>

theorem markInteresting_refines:
  assumes inv: "expiration_inv h" and run: "run_cache h k cache s = (Inr (), s')"
    and op: "markInteresting k cache (h, s) = (r, (h', t))"
  shows "r = Inr () \<and> t = s' \<and> expiration_inv h' \<and> depth h' = depth h \<and>
    view h' = spec_mark (depth h) k (view h)"
proof -
  let ?b = "last (m_buckets h)"
  let ?h' = "if pins h k \<noteq> 0 \<or> in_bucket h k ?b then h else move_to_bucket k ?b h"
  have "expiration_inv ?h'"
    using inv move_to_bucket_inv [OF inv inv_last [OF inv], of k] by simp
  moreover have "view ?h' = spec_mark (depth h) k (view h)"
    using inv
  proof (cases rule: view_pins_cases [where k = k])
    case untracked
    then show ?thesis
      using index_back [OF inv] by (simp add: spec_mark_def view_move_to_bucket in_bucket_def)
  next
    case pinned
    then show ?thesis by (simp add: spec_mark_def)
  next
    case (placed i)
    then show ?thesis
      using index_back [OF inv] view_in_bucket [of h k ?b]
      by (auto simp: spec_mark_def view_move_to_bucket fun_upd_idem)
  qed
  ultimately show ?thesis
    using op markInteresting_eq [OF inv run] by (auto simp: depth_def)
qed

theorem pin_refines:
  assumes inv: "expiration_inv h" and run: "run_cache h k cache s = (Inr (), s')"
    and no_overflow: "pins h k + 1 \<noteq> 0"
    and op: "pin k cache (h, s) = (r, (h', t))"
  shows "r = Inr () \<and> t = s' \<and> expiration_inv h' \<and> depth h' = depth h \<and>
    view h' = spec_pin k (view h)"
proof -
  let ?h' = "move_to_pinned k (pins h k + 1) h"
  have "expiration_inv ?h'" by (rule move_to_pinned_inv [OF inv no_overflow])
  moreover have "view ?h' = spec_pin k (view h)"
    by (rule view_pins_cases [OF inv, of k]) (simp_all add: spec_pin_def view_move_to_pinned)
  ultimately show ?thesis
    using op pin_eq [OF inv run] by (auto simp: depth_def)
qed

theorem unpin_refines:
  assumes inv: "expiration_inv h" and n: "pins h k \<noteq> 0"
    and op: "unpin k h = (r, h')"
  shows "r = Inr () \<and> expiration_inv h' \<and> depth h' = depth h \<and>
    view h' = spec_unpin (depth h) k (view h)"
proof -
  let ?b = "last (m_buckets h)"
  let ?h' = "if pins h k = 1 then move_to_bucket k ?b h else move_to_pinned k (pins h k - 1) h"
  have v: "view h k = Some (Pinned (pins h k))" using view_Pinned [OF inv] n by blast
  then have "\<not> in_bucket h k ?b" using view_in_bucket by force
  then have "expiration_inv ?h'"
    using move_to_bucket_inv [OF inv inv_last [OF inv]] move_to_pinned_inv [OF inv, of "pins h k - 1"]
    by auto
  moreover have "view ?h' = spec_unpin (depth h) k (view h)"
    using v index_back [OF inv]
    by (simp add: spec_unpin_def view_move_to_bucket view_move_to_pinned)
  ultimately show ?thesis
    using op unpin_eq [OF inv n] by (auto simp: depth_def)
qed

theorem expire_refines:
  assumes inv: "expiration_inv h"
    and op: "expire k h = (r, h')"
  shows "r = Inr () \<and> expiration_inv h' \<and> depth h' = depth h \<and>
    view h' = spec_expire k (view h)"
proof -
  let ?b = "hd (m_buckets h)"
  let ?h' = "if m_expDetails h k = None \<or> pins h k \<noteq> 0 \<or> in_bucket h k ?b then h
             else move_to_bucket k ?b h"
  have "expiration_inv ?h'"
    using inv move_to_bucket_inv [OF inv inv_hd [OF inv]] by simp
  moreover have "view ?h' = spec_expire k (view h)"
    using inv
  proof (cases rule: view_pins_cases [where k = k])
    case (placed i)
    then have "m_expDetails h k \<noteq> None" using view_None [of h k] by auto
    then show ?thesis
      using placed index_front [OF inv] view_in_bucket [of h k ?b]
      by (auto simp: spec_expire_def view_move_to_bucket fun_upd_idem)
  qed (simp_all add: spec_expire_def)
  ultimately show ?thesis
    using op expire_eq [OF inv] by (auto simp: depth_def)
qed

lemma rename_target_refines:
  assumes inv: "expiration_inv h" and ne: "oldKey \<noteq> newKey"
    and old: "m_expDetails h oldKey = Some od"
    and ok: "pins h newKey + pins h oldKey \<noteq> 0 \<or> pins h newKey = 0"
  shows "expiration_inv (rename_target oldKey newKey h)"
    and "view (rename_target oldKey newKey h) =
      (view h)(newKey \<mapsto> merge_place (the (view h oldKey)) (view h newKey))"
proof -
  have "expiration_inv (rename_target oldKey newKey h) \<and>
      view (rename_target oldKey newKey h) =
      (view h)(newKey \<mapsto> merge_place (the (view h oldKey)) (view h newKey))"
  proof (cases "m_expDetails h newKey")
    case None
    then have p: "pins h newKey = 0" "\<not> in_bucket h newKey b" "view h newKey = None" for b
      by (auto simp: pins_def view_None in_bucket_def)
    show ?thesis
      using inv old
    proof (cases rule: view_cases)
      case pinned
      then show ?thesis
        using p by (simp add: rename_target_def view_move_to_pinned move_to_pinned_inv inv)
    next
      case (placed b)
      then show ?thesis
        using p None old move_to_bucket_inv [OF inv placed(2) p(2)]
        by (simp add: rename_target_def view_move_to_bucket)
    qed
  next
    case (Some nd)
    note new = view_cases [OF inv Some]
    show ?thesis
      using inv old
    proof (cases rule: view_cases)
      case pinned
      then show ?thesis
        using inv ok Some
        by (rule_tac new) (auto simp: rename_target_def view_move_to_pinned move_to_pinned_inv)
    next
      case (placed b)
      then show ?thesis
        using inv ok Some
        by (rule_tac new) (auto simp: rename_target_def view_move_to_pinned move_to_pinned_inv
            fun_upd_idem)
    qed
  qed
  then show "expiration_inv (rename_target oldKey newKey h)"
    and "view (rename_target oldKey newKey h) =
      (view h)(newKey \<mapsto> merge_place (the (view h oldKey)) (view h newKey))"
    by blast+
qed

theorem rename_key_refines:
  assumes inv: "expiration_inv h"
    and run: "m_expDetails h oldKey \<noteq> None \<Longrightarrow> oldKey \<noteq> newKey \<Longrightarrow>
      run_cache h newKey cache s = (Inr (), s')"
    and skip: "m_expDetails h oldKey = None \<or> oldKey = newKey \<Longrightarrow> s' = s"
    and no_overflow: "pins h newKey + pins h oldKey \<noteq> 0 \<or> pins h newKey = 0"
    and op: "rename_key oldKey newKey cache (h, s) = (r, (h', t))"
  shows "r = Inr () \<and> t = s' \<and> expiration_inv h' \<and> depth h' = depth h \<and>
    view h' = spec_rename oldKey newKey (view h)"
proof (cases "oldKey = newKey \<or> m_expDetails h oldKey = None")
  case True
  moreover have "view h = spec_rename oldKey newKey (view h)"
    using True view_None [of h oldKey] by (auto simp: spec_rename_def)
  ultimately show ?thesis
    using op inv skip rename_key_noop [OF True, of cache s] by auto
next
  case False
  then obtain od where ne: "oldKey \<noteq> newKey" and old: "m_expDetails h oldKey = Some od" by auto
  let ?t = "rename_target oldKey newKey h"
  note r = rename_target_refines [OF inv ne old no_overflow]
  have "m_buckets ?t = m_buckets h" by (simp add: rename_target_def)
  moreover have "view (untrack oldKey ?t) = spec_rename oldKey newKey (view h)"
  proof -
    obtain p where "view h oldKey = Some p" using old by (auto simp: view_def)
    then show ?thesis using ne r(2) by (simp add: view_untrack spec_rename_def)
  qed
  ultimately show ?thesis
    using op untrack_inv [OF r(1)] ne old rename_key_eq [OF inv ne _ run no_overflow]
    by (auto simp: depth_def)
qed

lemma tick_core_inv:
  assumes inv: "expiration_inv h"
  shows "expiration_inv (tick_core h)"
proof -
  obtain e bs where bs: "m_buckets h = e # bs" using inv by (cases "m_buckets h") (auto simp: expiration_inv_def)
  have e: "bucket_ok h e" using inv_bucket [OF inv] bs by simp
  have d: "details_ok (bs @ [m_nextSet h]) d"
    if "m_expDetails h k = Some d" "k \<notin> set (m_sets h e)" for k d
    using that inv_details [OF inv that(1)] e bs
    by (auto simp: details_ok_def bucket_ok_def split: option.splits)
  have n: "bucket d \<noteq> Some (m_nextSet h)" if "m_expDetails h k = Some d" for k d
    using that inv_details [OF inv that] inv_bucket [OF inv, of "m_nextSet h"]
    by (auto simp: details_ok_def bucket_ok_def)
  show ?thesis
    using inv bs d n
    by (auto simp: expiration_inv_def tick_core_def bucket_ok_def restrict_map_def)
qed

lemma view_tick_core:
  assumes inv: "expiration_inv h"
  shows "view (tick_core h) = spec_tick (view h)"
proof
  fix k
  obtain e bs where bs: "m_buckets h = e # bs" using inv by (cases "m_buckets h") (auto simp: expiration_inv_def)
  have e: "bucket_ok h e" using inv_bucket [OF inv] bs by simp
  have dist: "distinct (e # bs)" using inv bs by (simp add: expiration_inv_def)
  show "view (tick_core h) k = spec_tick (view h) k"
  proof (cases "m_expDetails h k")
    case None
    then show ?thesis by (simp add: spec_tick_def age_def view_def tick_core_def restrict_map_def)
  next
    case (Some d)
    show ?thesis
      using inv Some
    proof (cases rule: view_cases)
      case pinned
      then show ?thesis
        using Some e bs by (simp add: spec_tick_def age_def tick_core_def view_def restrict_map_def
            bucket_ok_def pins_def)
    next
      case (placed b)
      then show ?thesis
        using Some e bs dist
        by (auto simp: spec_tick_def age_def tick_core_def view_def restrict_map_def bucket_ok_def
            index_of_append)
    qed
  qed
qed

lemma front_keys:
  assumes inv: "expiration_inv h"
  shows "set (m_sets h (hd (m_buckets h))) = {k. view h k = Some (Remaining 0)}"
proof -
  obtain e bs where bs: "m_buckets h = e # bs" using inv by (cases "m_buckets h") (auto simp: expiration_inv_def)
  have e: "bucket_ok h e" using inv_bucket [OF inv] bs by simp
  have "(view h k = Some (Remaining 0)) = in_bucket h k e" for k
    by (auto simp: view_def in_bucket_def bs split: option.splits)
  then show ?thesis using e bs by (auto simp: bucket_ok_def in_bucket_def split: option.splits)
qed

theorem tick_refines:
  assumes inv: "expiration_inv h" and op: "tick purge (h, s) = (h', t)"
  shows "expiration_inv h' \<and> depth h' = depth h \<and> view h' = spec_tick (view h) \<and>
    (\<exists>ks. t = fold purge ks s \<and> distinct ks \<and> set ks = {k. view h k = Some (Remaining 0)})"
proof -
  let ?ks = "m_sets h (hd (m_buckets h))"
  have "depth (tick_core h) = depth h"
    using inv by (cases "m_buckets h") (auto simp: depth_def tick_core_def expiration_inv_def)
  moreover have "distinct ?ks"
    using inv_bucket [OF inv inv_hd [OF inv]] by (simp add: bucket_ok_def)
  moreover have "h' = tick_core h" "t = fold purge ?ks s"
    using op tick_eq [OF inv, of purge s] by auto
  ultimately show ?thesis
    using tick_core_inv [OF inv] view_tick_core [OF inv] front_keys [OF inv] by blast
qed

section \<open>Reachable helpers\<close>

text \<open>
  What a cache may do with its helper: the callbacks return, a key is unpinned at most as often as
  it was pinned, and pin counters stay below \<open>2^64\<close>. The callback's own state plays no role here.
\<close>

inductive exp_reach :: "nat \<Rightarrow> 'k::linorder CacheExpirationHelper \<Rightarrow> bool" for n :: nat where
  init: "0 < n \<Longrightarrow> exp_reach n (CacheExpirationHelper_init n)"
| mark: "exp_reach n h \<Longrightarrow> markInteresting k (returnA ()) (h, ()) = (r, (h', u)) \<Longrightarrow> exp_reach n h'"
| pin: "exp_reach n h \<Longrightarrow> pins h k + 1 \<noteq> 0 \<Longrightarrow> pin k (returnA ()) (h, ()) = (r, (h', u)) \<Longrightarrow> exp_reach n h'"
| unpin: "exp_reach n h \<Longrightarrow> pins h k \<noteq> 0 \<Longrightarrow> unpin k h = (r, h') \<Longrightarrow> exp_reach n h'"
| expire: "exp_reach n h \<Longrightarrow> expire k h = (r, h') \<Longrightarrow> exp_reach n h'"
| rename: "exp_reach n h \<Longrightarrow> pins h newKey + pins h oldKey \<noteq> 0 \<or> pins h newKey = 0 \<Longrightarrow>
    rename_key oldKey newKey (returnA ()) (h, ()) = (r, (h', u)) \<Longrightarrow> exp_reach n h'"
| tick: "exp_reach n h \<Longrightarrow> tick (\<lambda>k u. u) (h, ()) = (h', u) \<Longrightarrow> exp_reach n h'"

lemma run_cache_returnA [simp]: "run_cache h k (returnA ()) s = (Inr (), s)"
  by (simp add: run_cache_def returnA_def split: option.split)

lemma exp_reach_inv: "exp_reach n h \<Longrightarrow> expiration_inv h \<and> depth h = n"
proof (induction rule: exp_reach.induct)
  case init
  then show ?case by (simp add: expiration_inv_init) (simp add: depth_def CacheExpirationHelper_init_def)
next
  case (mark h k r h' u)
  then show ?case using markInteresting_refines [of h k "returnA ()" "()" "()"] by simp
next
  case (pin h k r h' u)
  then show ?case using pin_refines [of h k "returnA ()" "()" "()"] by simp
next
  case (unpin h k r h')
  then show ?case using unpin_refines [of h k r h'] by simp
next
  case (expire h k r h')
  then show ?case using expire_refines [of h k r h'] by simp
next
  case (rename h newKey oldKey r h' u)
  then show ?case using rename_key_refines [of h oldKey newKey "returnA ()" "()" "()"] by simp
next
  case (tick h h' u)
  then show ?case using tick_refines [of h _ "()" h' u] by simp
qed

section \<open>Clocks\<close>

text \<open>
  What a client of the helper relies on between two calls: a state with an invariant, the places
  of the keys, and a clock that ages them and reports the keys it purged. The lemmas count ticks.
\<close>

locale expiry_clock =
  fixes invar :: "'h \<Rightarrow> bool"
    and places :: "'h \<Rightarrow> 'k \<rightharpoonup> place"
    and advance :: "'h \<times> 'k list \<Rightarrow> 'h \<times> 'k list"
  assumes advance_invar: "invar h \<Longrightarrow> invar (fst (advance (h, l)))"
    and advance_places: "invar h \<Longrightarrow> places (fst (advance (h, l))) = spec_tick (places h)"
    and advance_log: "invar h \<Longrightarrow> \<exists>ks. snd (advance (h, l)) = l @ ks \<and> distinct ks \<and>
      set ks = {k. places h k = Some (Remaining 0)}"
begin

lemma after_invar: "invar h \<Longrightarrow> invar (fst ((advance ^^ n) (h, l)))"
  by (induction n) (simp_all, metis advance_invar prod.collapse)

lemma after_places_Suc:
  assumes "invar h"
  shows "places (fst ((advance ^^ Suc n) (h, l))) k = age (places (fst ((advance ^^ n) (h, l))) k)"
  using advance_places [OF after_invar [OF assms, of n l], of "snd ((advance ^^ n) (h, l))"]
  by (simp add: spec_tick_def)

lemma after_log_Suc:
  assumes "invar h"
  shows "count_list (snd ((advance ^^ Suc n) (h, l))) k = count_list (snd ((advance ^^ n) (h, l))) k +
    (if places (fst ((advance ^^ n) (h, l))) k = Some (Remaining 0) then 1 else 0)"
proof -
  obtain ks where "snd ((advance ^^ Suc n) (h, l)) = snd ((advance ^^ n) (h, l)) @ ks" "distinct ks"
      "set ks = {k. places (fst ((advance ^^ n) (h, l))) k = Some (Remaining 0)}"
    using advance_log [OF after_invar [OF assms, of n l], of "snd ((advance ^^ n) (h, l))"]
    by auto
  then show ?thesis
    by (auto simp: count_list_append count_list_distinct)
qed

text \<open>A pinned key is never purged and stays pinned.\<close>

lemma pinned_stays:
  assumes "invar h" and "places h k = Some (Pinned c)"
  shows "places (fst ((advance ^^ n) (h, l))) k = Some (Pinned c) \<and>
    count_list (snd ((advance ^^ n) (h, l))) k = count_list l k"
proof (induction n)
  case 0
  then show ?case using assms by simp
next
  case (Suc n)
  then show ?case
    using after_places_Suc [OF assms(1), of n l k] after_log_Suc [OF assms(1), of n l k]
    by (simp add: age_def)
qed

text \<open>A key with \<open>i\<close> ticks left is tracked for \<open>i\<close> ticks and purged once, by tick \<open>i + 1\<close>.\<close>

lemma remaining_after:
  assumes "invar h" and "places h k = Some (Remaining i)"
  shows "places (fst ((advance ^^ n) (h, l))) k = (if n \<le> i then Some (Remaining (i - n)) else None) \<and>
    count_list (snd ((advance ^^ n) (h, l))) k = count_list l k + (if n \<le> i then 0 else 1)"
proof (induction n)
  case 0
  then show ?case using assms by simp
next
  case (Suc n)
  then show ?case
    using after_places_Suc [OF assms(1), of n l k] after_log_Suc [OF assms(1), of n l k]
    by (cases "i - n") (auto simp: age_def)
qed

end

text \<open>The helper ticking with a callback that logs the purged keys is such a clock.\<close>

definition log_purge :: "'k \<Rightarrow> 'k list \<Rightarrow> 'k list" where
  "log_purge k l = l @ [k]"

definition tick_n :: "nat \<Rightarrow> 'k CacheExpirationHelper \<times> 'k list \<Rightarrow> 'k CacheExpirationHelper \<times> 'k list" where
  "tick_n n = tick log_purge ^^ n"

lemma fold_log_purge: "fold log_purge ks l = l @ ks"
  by (induction ks arbitrary: l) (simp_all add: log_purge_def)

interpretation helper_clock: expiry_clock expiration_inv view "tick log_purge"
proof (unfold_locales, goal_cases)
  case (1 h l)
  then show ?case using tick_refines [of h log_purge l] by (metis prod.collapse)
next
  case (2 h l)
  then show ?case using tick_refines [of h log_purge l] by (metis prod.collapse)
next
  case (3 h l)
  then show ?case
    using tick_refines [of h log_purge l "fst (tick log_purge (h, l))" "snd (tick log_purge (h, l))"]
    by (simp add: fold_log_purge)
qed

section \<open>Properties\<close>


definition example_helper :: "nat CacheExpirationHelper" where
  "example_helper = fst (snd (pin 7 (returnA ())
     (fst (snd (markInteresting 3 (returnA ()) (CacheExpirationHelper_init 2, ()))), ())))"

lemma example_reach: "exp_reach 2 example_helper"
proof -
  let ?h = "fst (snd (markInteresting (3::nat) (returnA ()) (CacheExpirationHelper_init 2, ())))"
  have "exp_reach 2 ?h"
    by (rule exp_reach.mark [OF exp_reach.init, of _ 3]) (simp_all add: prod_eq_iff)
  moreover have "pins ?h 7 + 1 \<noteq> 0"
    by (simp add: expiration_defs pins_def CacheExpirationHelper_init_def act_defs)
  ultimately show ?thesis
    unfolding example_helper_def by (rule exp_reach.pin [of _ _ 7]) (simp add: prod_eq_iff)
qed

lemma example_view: "view example_helper 3 = Some (Remaining 1)" "view example_helper 7 = Some (Pinned 1)"
  by (simp_all add: example_helper_def view_def expiration_defs CacheExpirationHelper_init_def act_defs
      numeral_2_eq_2)


text \<open>
  C16. Lifetime of a key, counted in ticks: an unpinned key with \<open>i\<close> ticks left stays tracked for
  \<open>i\<close> ticks, is purged by tick \<open>i + 1\<close> and by no other, while a pinned key survives any number of
  ticks with its count unchanged.
\<close>

theorem key_lifetime:
  assumes "exp_reach n h"
  shows "(case view h k of
      None \<Rightarrow> True
    | Some (Pinned c) \<Rightarrow> view (fst (tick_n m (h, []))) k = Some (Pinned c) \<and>
        count_list (snd (tick_n m (h, []))) k = 0
    | Some (Remaining i) \<Rightarrow>
        view (fst (tick_n m (h, []))) k = (if m \<le> i then Some (Remaining (i - m)) else None) \<and>
        count_list (snd (tick_n m (h, []))) k = (if m \<le> i then 0 else 1))"
proof -
  have inv: "expiration_inv h" using exp_reach_inv [OF assms] by simp
  show ?thesis
    using helper_clock.pinned_stays [OF inv, of k _ m "[]"]
      helper_clock.remaining_after [OF inv, of k _ m "[]"]
    by (simp add: tick_n_def split: option.split place.split)
qed

theorem key_lifetime_witness:
  "exp_reach 2 example_helper \<and> view (fst (tick_n 2 (example_helper, []))) 3 = None \<and>
   count_list (snd (tick_n 2 (example_helper, []))) 3 = 1 \<and>
   view (fst (tick_n 2 (example_helper, []))) 7 = Some (Pinned 1)"
  using key_lifetime [OF example_reach, where k = 3 and m = 2]
    key_lifetime [OF example_reach, where k = 7 and m = 2]
  by (simp add: example_reach example_view)

text \<open>
  C30. Renaming a tracked key onto another: the old key is no longer tracked, the new one takes over
  the place of the old one if it was not tracked itself, and otherwise the pin counts add up and a
  pin wins over a place in a bucket. Other keys do not move. It holds whichever order the two keys
  are locked in.
\<close>

theorem rename_merges:
  assumes "exp_reach n h" and "pins h newKey + pins h oldKey \<noteq> 0 \<or> pins h newKey = 0"
    and "rename_key oldKey newKey (returnA ()) (h, ()) = (r, (h', u))"
  shows "r = Inr () \<and> view h' = spec_rename oldKey newKey (view h)"
  using exp_reach_inv [OF assms(1)] rename_key_refines [of h oldKey newKey "returnA ()" "()" "()"] assms
  by simp

theorem rename_merges_witness:
  "view (fst (snd (rename_key 7 3 (returnA ()) (example_helper, ())))) 3 = Some (Pinned 1) \<and>
   view (fst (snd (rename_key 7 3 (returnA ()) (example_helper, ())))) 7 = None"
proof -
  have "pins example_helper 3 = 0"
    by (simp add: example_helper_def pins_def expiration_defs CacheExpirationHelper_init_def act_defs
        numeral_2_eq_2)
  then show ?thesis
    using rename_merges [OF example_reach, of 3 7 "fst (rename_key 7 3 (returnA ()) (example_helper, ()))"]
    by (simp add: prod_eq_iff spec_rename_def example_view)
qed

text \<open>
  The helper is not exception safe: when the callback that fetches a new key throws, the
  exception leaves the key tracked in no bucket and without a pin. Such a key is never purged by
  any number of ticks, and expiring it fails an assertion.
\<close>

lemma failed_cache_leaves_orphan:
  assumes "expiration_inv h" and "m_expDetails h k = None" and "cache s = (Inl e, s')"
  shows "\<exists>h'. markInteresting k cache (h, s) = (Inl e, (h', s')) \<and>
    fst (expire k h') = Inl AssertionFailure \<and>
    m_expDetails (fst (tick purge (h', t))) k = Some fresh_details"
proof -
  let ?h' = "put_details k fresh_details h"
  let ?e = "hd (m_buckets h)"
  have fold: "m_expDetails (fst (fold (tick_elem purge b) xs (g, t))) k = Some fresh_details"
    if "m_expDetails g k = Some fresh_details" for xs g t b
    using that
  proof (induction xs arbitrary: g t)
    case (Cons x xs)
    then show ?case
      using Cons.IH [of g t] Cons.IH [of "drop_details x g" "purge x t"]
      by (cases "x = k") (simp_all add: tick_elem_def fresh_details_def drop_details_def split: option.split)
  qed simp
  have "m_expDetails (fst (tick purge (?h', t))) k = Some fresh_details"
    using fold [of "snd (shift ?h')"] by (simp add: tick_def shift_def put_details_def split_beta)
  then show ?thesis
    using assms
    by (intro exI [of _ ?h'])
       (simp add: markInteresting_def track_def bindA_def expire_def put_details_def fresh_details_def)
qed

lemma failed_cache_leaves_orphan_witness:
  "\<exists>h'. markInteresting 1 (throwA (Errc 2)) (CacheExpirationHelper_init 2 :: nat CacheExpirationHelper, ())
      = (Inl (Errc 2), (h', ())) \<and> fst (expire 1 h') = Inl AssertionFailure"
proof -
  have "m_expDetails (CacheExpirationHelper_init 2) (1::nat) = None"
    by (simp add: CacheExpirationHelper_init_def)
  then show ?thesis
    using failed_cache_leaves_orphan [OF expiration_inv_init, of 2 "1::nat" "throwA (Errc 2)" "()"]
    by (metis throwA_def zero_less_numeral)
qed

end
