(* ===== verification/OC_Containers.thy ===== *)
theory OC_Containers
  imports OC_Prelude
begin

text \<open>
  The contract of \<open>tbb::concurrent_priority_queue\<close>, the third-party container behind the message
  streams. A queue is the list of its elements in no particular order. \<open>try_pop\<close> is a parameter of
  every definition that uses it; the locale states what its documentation promises, which is what
  the clients rely on: it fails exactly on the empty queue, and otherwise removes one element than
  which none has a higher priority, that is none is greater in the comparator's order.
\<close>

type_synonym 'm try_pop = "'m list \<Rightarrow> ('m \<times> 'm list) option"

locale priority_queue =
  fixes less :: "'m \<Rightarrow> 'm \<Rightarrow> bool"
    and pop :: "'m try_pop"
  assumes pop_None: "pop q = None \<longleftrightarrow> q = []"
    and pop_Some: "pop q = Some (x, q') \<Longrightarrow> mset q = add_mset x (mset q') \<and> (\<forall>y \<in> set q. \<not> less x y)"
begin

lemma pop_Nil [simp]: "pop [] = None"
  by (simp add: pop_None)

lemma pop_cases:
  obtains (empty) "q = []" "pop q = None"
  | (popped) x q' where "pop q = Some (x, q')" "length q = Suc (length q')" "set q = insert x (set q')"
      "mset q = add_mset x (mset q')" "\<And>y. y \<in> set q \<Longrightarrow> \<not> less x y"
proof (cases "pop q")
  case None
  then show ?thesis using empty pop_None by blast
next
  case (Some p)
  obtain x q' where p: "p = (x, q')" by (cases p)
  then have "mset q = add_mset x (mset q')" "\<forall>y \<in> set q. \<not> less x y"
    using pop_Some Some by auto
  moreover from this(1) have "length q = Suc (length q')" "set q = insert x (set q')"
    by (metis size_mset size_add_mset, metis set_mset_add_mset_insert set_mset_mset)
  ultimately show ?thesis using popped Some p by blast
qed

end

text \<open>
  A queue that pops the first element with the greatest key. It satisfies the contract for every
  comparator that compares keys, so the contract is not vacuous for the clients' comparators.
\<close>

fun take_best :: "('m \<Rightarrow> 'a::linorder) \<Rightarrow> 'm \<Rightarrow> 'm list \<Rightarrow> 'm \<times> 'm list" where
  "take_best f x [] = (x, [])"
| "take_best f x (y # ys) =
     (if f x < f y then (case take_best f y ys of (b, r) \<Rightarrow> (b, x # r))
      else (case take_best f x ys of (b, r) \<Rightarrow> (b, y # r)))"

definition list_pop :: "('m \<Rightarrow> 'a::linorder) \<Rightarrow> 'm try_pop" where
  "list_pop f q = (case q of [] \<Rightarrow> None | x # xs \<Rightarrow> Some (take_best f x xs))"

lemma take_best_props:
  "take_best f x ys = (b, r) \<Longrightarrow> add_mset x (mset ys) = add_mset b (mset r) \<and> f x \<le> f b \<and> (\<forall>y \<in> set ys. f y \<le> f b)"
proof (induction ys arbitrary: x b r)
  case (Cons y ys)
  show ?case
  proof (cases "f x < f y")
    case True
    then obtain r' where "take_best f y ys = (b, r')" "r = x # r'"
      using Cons.prems by (auto split: prod.splits)
    then show ?thesis using Cons.IH [of y b r'] True by (auto simp: add_mset_commute)
  next
    case False
    then obtain r' where "take_best f x ys = (b, r')" "r = y # r'"
      using Cons.prems by (auto split: prod.splits)
    then show ?thesis using Cons.IH [of x b r'] False by (force simp: add_mset_commute)
  qed
qed auto

interpretation list_queue: priority_queue "\<lambda>a b. f a < f b" "list_pop f" for f :: "'m \<Rightarrow> 'a::linorder"
proof
  fix q :: "'m list"
  show "list_pop f q = None \<longleftrightarrow> q = []"
    by (cases q) (simp_all add: list_pop_def)
next
  fix q q' :: "'m list" and x
  assume "list_pop f q = Some (x, q')"
  then show "mset q = add_mset x (mset q') \<and> (\<forall>y \<in> set q. \<not> f x < f y)"
    by (cases q) (auto simp: list_pop_def not_less dest: take_best_props)
qed

end
