(* ===== verification/OC_Messages.thy ===== *)
theory OC_Messages
  imports OC_Prelude
begin

text \<open>
  The envelope of the messages the client exchanges with the provider
  (\<open>helpers/clproto/proto/messages.proto\<close>, \<open>stream_messages.proto\<close>): an optional message id, an
  optional position in a stream, and one of the bodies. The bodies the communication layers look
  into are constructors; all others are opaque values of the type parameter.
\<close>

record MessageStream =
  stream_id :: uint64
  sequence_number :: uint64

record MessageRequest =
  mr_stream_id :: uint64
  lower_sequence_number :: uint64
  upper_sequence_number :: uint64

record MessageAcknowledgement =
  ma_stream_id :: uint64
  ma_sequence_number :: uint64

record MessageStreamReset =
  msr_stream_id :: "uint64 option"

datatype 'p message_body =
    Message_stream_reset MessageStreamReset
  | Message_request MessageRequest
  | Message_acknowledgement MessageAcknowledgement
  | End_of_stream
  | Other_body 'p

record 'p ServerMessage =
  message_id :: string
  message_stream :: "MessageStream option"
  message_body :: "'p message_body"

type_synonym 'p ClientMessage = "'p ServerMessage"

text \<open>Client and server messages have the same envelope, so one record serves both.\<close>

definition has_message_stream :: "'p ServerMessage \<Rightarrow> bool" where
  "has_message_stream m \<longleftrightarrow> message_stream m \<noteq> None"

text \<open>Reading an absent submessage gives protobuf's default instance, all zeros.\<close>

definition msg_stream :: "'p ServerMessage \<Rightarrow> MessageStream" where
  "msg_stream m = (case message_stream m of None \<Rightarrow> \<lparr>stream_id = 0, sequence_number = 0\<rparr> | Some s \<Rightarrow> s)"

definition seq_num :: "'p ServerMessage \<Rightarrow> uint64" where
  "seq_num m = sequence_number (msg_stream m)"

definition has_end_of_stream :: "'p ServerMessage \<Rightarrow> bool" where
  "has_end_of_stream m = (case message_body m of End_of_stream \<Rightarrow> True | _ \<Rightarrow> False)"

definition plain_message :: "'p message_body \<Rightarrow> 'p ClientMessage" where
  "plain_message b = \<lparr>message_id = [], message_stream = None, message_body = b\<rparr>"

definition set_stream :: "uint64 \<Rightarrow> uint64 \<Rightarrow> 'p ClientMessage \<Rightarrow> 'p ClientMessage" where
  "set_stream s n m = m\<lparr>message_stream := Some \<lparr>stream_id = s, sequence_number = n\<rparr>\<rparr>"

definition set_seq_num :: "uint64 \<Rightarrow> 'p ClientMessage \<Rightarrow> 'p ClientMessage" where
  "set_seq_num n m = m\<lparr>message_stream := Some ((msg_stream m)\<lparr>sequence_number := n\<rparr>)\<rparr>"

lemma seq_num_set [simp]: "seq_num (set_stream s n m) = n" "seq_num (set_seq_num n m) = n"
  by (simp_all add: seq_num_def set_stream_def set_seq_num_def msg_stream_def)

lemma message_body_set [simp]:
  "message_body (set_stream s n m) = message_body m" "message_body (set_seq_num n m) = message_body m"
  by (simp_all add: set_stream_def set_seq_num_def)

end
