(* ===== verification/OC_Sequencer.thy ===== *)
theory OC_Sequencer
  imports OC_Containers OC_Messages
begin

text \<open>
  The sequencing layer (\<open>helpers/src/communication/layers/sequencer.h\<close>): it buffers the streamed
  messages that arrive out of order, forwards each stream in order, requests what is missing and
  acknowledges what it forwarded.
\<close>

section \<open>Model\<close>

definition GreaterSeqNum :: "'p ServerMessage \<Rightarrow> 'p ServerMessage \<Rightarrow> bool" where
  "GreaterSeqNum a b \<longleftrightarrow> seq_num a > seq_num b"

record 'p Buffer =
  m_seqNum :: uint64
  m_seqNumAck :: uint64
  m_buffer :: "'p ServerMessage list"

text \<open>\<open>m_buffers.insert\<close> value-initialises a new buffer, which zeroes both counters.\<close>

definition Buffer_init :: "'p Buffer" where
  "Buffer_init = \<lparr>m_seqNum = 0, m_seqNumAck = 0, m_buffer = []\<rparr>"

definition Buffer_push :: "'p ServerMessage \<Rightarrow> 'p Buffer \<Rightarrow> 'p Buffer" where
  "Buffer_push serverMsg b =
     (if seq_num serverMsg \<ge> m_seqNum b then b\<lparr>m_buffer := serverMsg # m_buffer b\<rparr> else b)"

text \<open>
  The loop of \<open>clear\<close> with fuel; \<open>out\<close> collects the calls of \<open>onMessageCallback\<close>. The value is
  \<open>None\<close> only when the fuel is used up.
\<close>

fun Buffer_clear ::
  "'p ServerMessage try_pop \<Rightarrow> nat \<Rightarrow> 'p Buffer \<Rightarrow> 'p ServerMessage list
    \<Rightarrow> ((uint64 \<times> bool) \<times> 'p Buffer \<times> 'p ServerMessage list) option" where
  "Buffer_clear pop 0 b out = None"
| "Buffer_clear pop (Suc n) b out =
     (case pop (m_buffer b) of
        None \<Rightarrow> Some ((m_seqNum b - 1, False), b, out)
      | Some (it, q) \<Rightarrow>
          if seq_num it = m_seqNum b then
            (let b' = b\<lparr>m_seqNum := m_seqNum b + 1, m_buffer := q\<rparr> in
             if has_end_of_stream it then Some ((m_seqNum b' - 1, True), b', out @ [it])
             else Buffer_clear pop n b' (out @ [it]))
          else if seq_num it > m_seqNum b then
            Some ((seq_num it - 1, False), b\<lparr>m_buffer := it # q\<rparr>, out)
          else Buffer_clear pop n (b\<lparr>m_buffer := q\<rparr>) out)"

definition resetSequenceNumberAck :: "'p Buffer \<Rightarrow> 'p Buffer" where
  "resetSequenceNumberAck b = b\<lparr>m_seqNumAck := m_seqNum b\<rparr>"

text \<open>
  The layer's state with its effects: the messages passed to \<open>onMessageCallback\<close>, and the calls
  to the lower layer and to the scheduler, both in order.
\<close>

datatype 'p lower_call = Send "'p ClientMessage" | Connect | Schedule

record 'p Sequencer =
  m_buffers :: "(uint64 \<times> 'p Buffer) list"
  delivered :: "'p ServerMessage list"
  calls :: "'p lower_call list"

definition Sequencer_init :: "'p Sequencer" where
  "Sequencer_init = \<lparr>m_buffers = [], delivered = [], calls = []\<rparr>"

definition STREAM_MSG_ACK_WINDOW :: uint64 where
  "STREAM_MSG_ACK_WINDOW = 100"

definition call :: "'p lower_call \<Rightarrow> 'p Sequencer \<Rightarrow> 'p Sequencer" where
  "call c s = s\<lparr>calls := calls s @ [c]\<rparr>"

definition sendMessageStreamReset :: "'p Sequencer \<Rightarrow> 'p Sequencer" where
  "sendMessageStreamReset =
     call (Send (plain_message (Message_stream_reset \<lparr>msr_stream_id = None\<rparr>)))"

definition sendMessageRequest :: "uint64 \<Rightarrow> uint64 \<Rightarrow> uint64 \<Rightarrow> 'p Sequencer \<Rightarrow> 'p Sequencer" where
  "sendMessageRequest streamId lowerSeqNum upperSeqNum =
     call (Send (plain_message (Message_request
       \<lparr>mr_stream_id = streamId, lower_sequence_number = lowerSeqNum,
        upper_sequence_number = upperSeqNum\<rparr>)))"

definition sendMessageAcknowledgement :: "uint64 \<Rightarrow> uint64 \<Rightarrow> 'p Sequencer \<Rightarrow> 'p Sequencer" where
  "sendMessageAcknowledgement streamId seqNum =
     call (Send (plain_message (Message_acknowledgement
       \<lparr>ma_stream_id = streamId, ma_sequence_number = seqNum\<rparr>)))"

definition put_buffer :: "uint64 \<Rightarrow> 'p Buffer \<Rightarrow> 'p Sequencer \<Rightarrow> 'p Sequencer" where
  "put_buffer sid b s = s\<lparr>m_buffers := (sid, b) # al_erase sid (m_buffers s)\<rparr>"

definition erase_buffer :: "uint64 \<Rightarrow> 'p Sequencer \<Rightarrow> 'p Sequencer" where
  "erase_buffer sid s = s\<lparr>m_buffers := al_erase sid (m_buffers s)\<rparr>"

text \<open>\<open>m_buffers.insert(acc, streamId)\<close>: the stream's buffer, new if there was none.\<close>

definition stream_buffer :: "uint64 \<Rightarrow> 'p Sequencer \<Rightarrow> 'p Buffer" where
  "stream_buffer sid s = (case map_of (m_buffers s) sid of None \<Rightarrow> Buffer_init | Some b \<Rightarrow> b)"

text \<open>What the handler does with the result of \<open>clear\<close>.\<close>

definition after_clear :: "uint64 \<Rightarrow> uint64 \<times> bool \<Rightarrow> 'p Buffer \<Rightarrow> 'p Sequencer \<Rightarrow> 'p Sequencer" where
  "after_clear streamId cleared b s =
     (if snd cleared then erase_buffer streamId (sendMessageAcknowledgement streamId (fst cleared) s)
      else
        let seqNum = m_seqNum b; seqNumAck = m_seqNumAck b;
            s' = (if seqNum \<le> fst cleared then sendMessageRequest streamId seqNum (fst cleared) s else s)
        in if seqNum \<ge> seqNumAck + STREAM_MSG_ACK_WINDOW
           then put_buffer streamId (resetSequenceNumberAck b)
                  (sendMessageAcknowledgement streamId (seqNum - 1) s')
           else s')"

text \<open>
  The lambda \<open>setOnMessageCallback\<close> installs in the lower layer. The fuel of the loop is one more
  than the number of buffered messages.
\<close>

definition on_message :: "'p ServerMessage try_pop \<Rightarrow> 'p ServerMessage \<Rightarrow> 'p Sequencer \<Rightarrow> 'p Sequencer option" where
  "on_message pop serverMsg s =
     (if \<not> has_message_stream serverMsg then Some (s\<lparr>delivered := delivered s @ [serverMsg]\<rparr>)
      else
        let streamId = stream_id (msg_stream serverMsg);
            b = Buffer_push serverMsg (stream_buffer streamId s) in
        case Buffer_clear pop (Suc (length (m_buffer b))) b [] of
          None \<Rightarrow> None
        | Some (cleared, b', out) \<Rightarrow>
            Some (after_clear streamId cleared b'
                    (put_buffer streamId b' (s\<lparr>delivered := delivered s @ out\<rparr>))))"

definition getStreamSequenceNumbers :: "'p Sequencer \<Rightarrow> (uint64 \<times> uint64) list" where
  "getStreamSequenceNumbers s = map (\<lambda>(sid, b). (sid, m_seqNum b)) (m_buffers s)"

definition schedulePeriodicMessageRequest :: "'p Sequencer \<Rightarrow> 'p Sequencer" where
  "schedulePeriodicMessageRequest = call Schedule"

definition periodicMessageRequest :: "'p Sequencer \<Rightarrow> 'p Sequencer" where
  "periodicMessageRequest s =
     schedulePeriodicMessageRequest
       (fold (\<lambda>(streamId, seqNum). sendMessageRequest streamId seqNum seqNum)
         (getStreamSequenceNumbers s) s)"

definition connect :: "'p Sequencer \<Rightarrow> 'p Sequencer" where
  "connect s = call Connect (schedulePeriodicMessageRequest (sendMessageStreamReset s))"

text \<open>Messages arriving one after another.\<close>

fun arrive :: "'p ServerMessage try_pop \<Rightarrow> 'p ServerMessage list \<Rightarrow> 'p Sequencer \<Rightarrow> 'p Sequencer option" where
  "arrive pop [] s = Some s"
| "arrive pop (m # ms) s = (case on_message pop m s of None \<Rightarrow> None | Some s' \<Rightarrow> arrive pop ms s')"

lemma arrive_append:
  "arrive pop (xs @ ys) s = (case arrive pop xs s of None \<Rightarrow> None | Some s' \<Rightarrow> arrive pop ys s')"
  by (induction xs arbitrary: s) (simp_all split: option.split)

section \<open>What the loop of \<open>clear\<close> does\<close>

text \<open>
  The sender's stream: message \<open>i\<close> carries sequence number \<open>i\<close>, and only the last message may be
  the end-of-stream mark. A stream has less than \<open>2^64\<close> messages, so no number repeats.
\<close>

definition stream_of :: "uint64 \<Rightarrow> 'p ServerMessage list \<Rightarrow> bool" where
  "stream_of sid msgs \<longleftrightarrow> length msgs < 2 ^ 64 \<and>
     (\<forall>i < length msgs.
        message_stream (msgs ! i) = Some \<lparr>stream_id = sid, sequence_number = of_nat i\<rparr> \<and>
        (has_end_of_stream (msgs ! i) \<longrightarrow> Suc i = length msgs))"

definition pos :: "'p ServerMessage \<Rightarrow> nat" where
  "pos m = unat (seq_num m)"

lemma stream_of_nth:
  assumes "stream_of sid msgs" "i < length msgs"
  shows "seq_num (msgs ! i) = of_nat i" "pos (msgs ! i) = i" "stream_id (msg_stream (msgs ! i)) = sid"
    "has_message_stream (msgs ! i)"
proof -
  have "i < 2 ^ 64" and m: "message_stream (msgs ! i) = Some \<lparr>stream_id = sid, sequence_number = of_nat i\<rparr>"
    using assms by (simp_all add: stream_of_def)
  then show "seq_num (msgs ! i) = of_nat i" "stream_id (msg_stream (msgs ! i)) = sid"
    "has_message_stream (msgs ! i)" "pos (msgs ! i) = i"
    by (simp_all add: seq_num_def msg_stream_def has_message_stream_def pos_def unat_of_nat64)
qed

lemma stream_of_set:
  assumes "stream_of sid msgs" "m \<in> set msgs"
  shows "pos m < length msgs" "msgs ! pos m = m" "seq_num m = of_nat (pos m)"
  using assms stream_of_nth [OF assms(1)] by (auto simp: in_set_conv_nth)

text \<open>
  From position \<open>k\<close> on, the loop forwards the consecutive messages it has, up to position \<open>k'\<close>;
  it stops at the end of the stream, on an empty queue, or at the first message past a gap.
\<close>

definition cleared :: "'p ServerMessage list \<Rightarrow> nat \<Rightarrow> nat \<Rightarrow> 'p Buffer \<Rightarrow> (uint64 \<times> bool) \<Rightarrow> 'p Buffer \<Rightarrow> bool" where
  "cleared msgs k k' b r b' \<longleftrightarrow>
     k \<le> k' \<and> k' \<le> length msgs \<and> {k..<k'} \<subseteq> pos ` set (m_buffer b) \<and>
     m_seqNum b' = of_nat k' \<and> m_seqNumAck b' = m_seqNumAck b \<and>
     (if snd r then k < k' \<and> k' = length msgs \<and> has_end_of_stream (last msgs) \<and> fst r = of_nat k' - 1
      else k' \<notin> pos ` set (m_buffer b) \<and>
        set (m_buffer b') = {m \<in> set (m_buffer b). k' \<le> pos m} \<and>
        (\<forall>i \<in> {k..<k'}. \<not> has_end_of_stream (msgs ! i)) \<and>
        fst r = (if m_buffer b' = [] then of_nat k' else of_nat (Min (pos ` set (m_buffer b')))) - 1)"

text \<open>One more message forwarded, and one stale message dropped.\<close>

lemma cleared_step:
  assumes "cleared msgs (Suc k) k' b1 r b'"
    and "set (m_buffer b) = insert it (set (m_buffer b1))" and "m_seqNumAck b1 = m_seqNumAck b"
    and "pos it = k" and "msgs ! k = it" and "\<not> has_end_of_stream it"
  shows "cleared msgs k k' b r b'"
proof -
  have k: "k < k'" using assms(1) by (auto simp: cleared_def)
  have "{k..<k'} = insert k {Suc k..<k'}" using k by auto
  then have sub: "{k..<k'} \<subseteq> pos ` set (m_buffer b)" using assms by (auto simp: cleared_def)
  show ?thesis
  proof (cases "snd r")
    case True
    then show ?thesis using assms(1,3) sub k by (simp add: cleared_def)
  next
    case False
    then have "\<forall>i \<in> {Suc k..<k'}. \<not> has_end_of_stream (msgs ! i)"
      using assms(1) unfolding cleared_def by simp
    then have "\<forall>i \<in> {k..<k'}. \<not> has_end_of_stream (msgs ! i)"
      using assms(5,6) \<open>{k..<k'} = insert k {Suc k..<k'}\<close> by simp
    moreover have "set (m_buffer b') = {m \<in> set (m_buffer b). k' \<le> pos m}" "k' \<notin> pos ` set (m_buffer b)"
      using assms(1,2,4) False k by (auto simp: cleared_def)
    ultimately show ?thesis using assms(1,3) sub k False unfolding cleared_def by simp
  qed
qed

lemma cleared_drop:
  assumes "cleared msgs k k' b1 r b'"
    and "set (m_buffer b) = insert it (set (m_buffer b1))" and "m_seqNumAck b1 = m_seqNumAck b"
    and "pos it < k"
  shows "cleared msgs k k' b r b'"
proof -
  have k: "k \<le> k'" using assms(1) by (simp add: cleared_def)
  have sub: "{k..<k'} \<subseteq> pos ` set (m_buffer b)" using assms by (auto simp: cleared_def)
  show ?thesis
  proof (cases "snd r")
    case True
    then show ?thesis using assms(1,3) sub k by (simp add: cleared_def)
  next
    case False
    have "set (m_buffer b') = {m \<in> set (m_buffer b). k' \<le> pos m}" "k' \<notin> pos ` set (m_buffer b)"
      using assms(1,2,4) False k by (auto simp: cleared_def)
    then show ?thesis using assms(1,3) sub k False unfolding cleared_def by simp
  qed
qed

text \<open>The queue the buffers use: it pops a message with the least sequence number.\<close>

locale seq_queue = priority_queue GreaterSeqNum pop for pop :: "'p ServerMessage try_pop"
begin

lemma Buffer_clear_spec:
  assumes st: "stream_of sid msgs"
    and "length (m_buffer b) < n" and "set (m_buffer b) \<subseteq> set msgs"
    and "m_seqNum b = of_nat k" and "k \<le> length msgs"
  shows "\<exists>k' r b'. Buffer_clear pop n b out = Some (r, b', out @ map ((!) msgs) [k..<k']) \<and>
    cleared msgs k k' b r b'"
  using assms(2-)
proof (induction n arbitrary: b out k)
  case (Suc n)
  have N: "length msgs < 2 ^ 64" using st by (simp add: stream_of_def)
  show ?case
  proof (cases rule: pop_cases [of "m_buffer b"])
    case empty
    then show ?thesis
      using Suc.prems by (intro exI [of _ k]) (simp add: cleared_def)
  next
    case (popped it q)
    define i where "i = pos it"
    have it: "i < length msgs" "msgs ! i = it" "seq_num it = of_nat i"
      using stream_of_set [OF st, of it] popped(3) Suc.prems(2) by (auto simp: i_def)
    have le: "i \<le> pos m" if "m \<in> set (m_buffer b)" for m
    proof -
      have "m \<in> set msgs" using that Suc.prems(2) by blast
      from stream_of_set [OF st this] have "pos m < length msgs" "seq_num m = of_nat (pos m)" by auto
      then show ?thesis
        using popped(5) [OF that] it N by (simp add: GreaterSeqNum_def of_nat_uint64 not_less)
    qed
    have q: "set q \<subseteq> set msgs" "length q < n" using popped(2,3) Suc.prems(1,2) by auto
    have cmp: "seq_num it = m_seqNum b \<longleftrightarrow> i = k" "m_seqNum b < seq_num it \<longleftrightarrow> k < i"
      using it N Suc.prems by (simp_all add: of_nat_uint64)
    consider "i = k" | "i < k" | "k < i" by linarith
    then show ?thesis
    proof cases
      case 1
      let ?b = "b\<lparr>m_seqNum := of_nat (Suc k), m_buffer := q\<rparr>"
      show ?thesis
      proof (cases "has_end_of_stream it")
        case True
        then have k: "Suc k = length msgs" using st it 1 by (auto simp: stream_of_def)
        then have "last msgs = it" using it(2) 1 by (cases msgs rule: rev_cases) auto
        then have "cleared msgs k (Suc k) b (of_nat k, True) ?b"
          using k [symmetric] True 1 popped(3) by (simp add: cleared_def i_def)
        moreover have "Buffer_clear pop (Suc n) b out =
            Some ((of_nat k, True), ?b, out @ map ((!) msgs) [k..<Suc k])"
          using True 1 it popped cmp Suc.prems by (simp add: add.commute)
        ultimately show ?thesis by blast
      next
        case False
        obtain k' r b' where r: "Buffer_clear pop n ?b (out @ [it]) =
              Some (r, b', (out @ [it]) @ map ((!) msgs) [Suc k..<k'])" "cleared msgs (Suc k) k' ?b r b'"
          using Suc.IH [of ?b "Suc k" "out @ [it]"] q it 1 by auto
        moreover have "cleared msgs k k' b r b'"
          using popped(3) 1 False it by (intro cleared_step [OF r(2)]) (auto simp: i_def)
        moreover have "[k..<k'] = k # [Suc k..<k']" using r(2) by (simp add: cleared_def upt_conv_Cons)
        ultimately show ?thesis
          using False 1 it popped cmp Suc.prems
          by (intro exI [of _ k'] exI [of _ r] exI [of _ b']) (simp add: add.commute)
      qed
    next
      case 2
      let ?b = "b\<lparr>m_buffer := q\<rparr>"
      obtain k' r b' where r: "Buffer_clear pop n ?b out =
            Some (r, b', out @ map ((!) msgs) [k..<k'])" "cleared msgs k k' ?b r b'"
        using Suc.IH [of ?b k out] q Suc.prems by auto
      moreover have "cleared msgs k k' b r b'"
        using popped(3) 2 by (intro cleared_drop [OF r(2)]) (auto simp: i_def)
      ultimately show ?thesis
        using 2 it popped cmp
        by (intro exI [of _ k'] exI [of _ r] exI [of _ b']) simp
    next
      case 3
      let ?b = "b\<lparr>m_buffer := it # q\<rparr>"
      have "Min (pos ` insert it (set q)) = i"
        using le popped(3) by (intro Min_eqI) (auto simp: i_def)
      moreover have "k < pos m" if "m \<in> insert it (set q)" for m
        using le [of m] popped(3) 3 that by simp
      then have "k \<notin> pos ` insert it (set q)" "{m \<in> insert it (set q). k \<le> pos m} = insert it (set q)"
        by (blast, blast dest: less_imp_le)
      ultimately have "cleared msgs k k b (of_nat i - 1, False) ?b"
        using popped(3) Suc.prems by (simp add: cleared_def)
      moreover have "Buffer_clear pop (Suc n) b out = Some ((of_nat i - 1, False), ?b, out @ map ((!) msgs) [k..<k])"
        using 3 it popped cmp by simp
      ultimately show ?thesis by blast
    qed
  qed
qed simp

end

section \<open>Reassembly of one stream\<close>

text \<open>The first position that is missing from a list of received positions.\<close>

definition first_missing :: "nat list \<Rightarrow> nat" where
  "first_missing arr = length (takeWhile (\<lambda>j. j \<in> set arr) [0..<Suc (length arr)])"

lemma first_missing_prefix: "j < first_missing arr \<Longrightarrow> j \<in> set arr"
proof -
  assume j: "j < first_missing arr"
  let ?t = "takeWhile (\<lambda>j. j \<in> set arr) [0..<Suc (length arr)]"
  have "first_missing arr \<le> Suc (length arr)"
    unfolding first_missing_def by (metis length_takeWhile_le length_upt diff_zero)
  with j have "?t ! j = j"
    unfolding first_missing_def by (simp add: takeWhile_nth del: upt_Suc)
  then show ?thesis
    using j nth_mem [of j ?t] set_takeWhileD unfolding first_missing_def by fastforce
qed

lemma first_missing_notin: "first_missing arr \<notin> set arr"
proof (cases "first_missing arr < Suc (length arr)")
  case True
  then show ?thesis
    using nth_length_takeWhile [of "\<lambda>j. j \<in> set arr" "[0..<Suc (length arr)]"]
    unfolding first_missing_def by (simp del: upt_Suc)
next
  case False
  then have "{0..length arr} \<subseteq> set arr"
    using first_missing_prefix [of _ arr] by auto
  then have "card {0..length arr} \<le> card (set arr)" by (intro card_mono) simp_all
  then show ?thesis using card_length [of arr] by simp
qed

lemma first_missing_eqI: "k \<notin> set arr \<Longrightarrow> (\<And>j. j < k \<Longrightarrow> j \<in> set arr) \<Longrightarrow> first_missing arr = k"
  by (meson first_missing_notin first_missing_prefix linorder_neqE_nat)

lemma first_missing_Nil [simp]: "first_missing [] = 0"
  by (simp add: first_missing_def)

lemma first_missing_mono: "set xs \<subseteq> set ys \<Longrightarrow> first_missing xs \<le> first_missing ys"
  by (meson first_missing_notin first_missing_prefix not_le subsetD)

lemma first_missing_le: "(\<And>i. i \<in> set arr \<Longrightarrow> i < n) \<Longrightarrow> first_missing arr \<le> n"
  by (meson first_missing_prefix less_irrefl not_le)

definition in_stream :: "uint64 \<Rightarrow> 'p ServerMessage \<Rightarrow> bool" where
  "in_stream sid m \<longleftrightarrow> has_message_stream m \<and> stream_id (msg_stream m) = sid"

text \<open>The positions of a stream's messages among the arrivals, and whether its end was forwarded.\<close>

definition arrivals :: "uint64 \<Rightarrow> 'p ServerMessage list \<Rightarrow> nat list" where
  "arrivals sid ms = map pos (filter (in_stream sid) ms)"

definition ended :: "'p ServerMessage list \<Rightarrow> nat list \<Rightarrow> bool" where
  "ended msgs arr \<longleftrightarrow> (\<exists>m \<in> set msgs. has_end_of_stream m) \<and> first_missing arr = length msgs"

text \<open>
  The state of the layer for a stream whose positions \<open>arr\<close> have arrived: the missing-first prefix
  is forwarded, what lies behind the first gap is buffered, at most one window is unacknowledged.
\<close>

definition buffer_rel :: "'p ServerMessage list \<Rightarrow> nat list \<Rightarrow> 'p Buffer \<Rightarrow> bool" where
  "buffer_rel msgs arr b \<longleftrightarrow>
     m_seqNum b = of_nat (first_missing arr) \<and>
     set (m_buffer b) = (!) msgs ` {i \<in> set arr. first_missing arr < i} \<and>
     m_seqNumAck b \<le> m_seqNum b"

definition stream_rel :: "uint64 \<Rightarrow> 'p ServerMessage list \<Rightarrow> nat list \<Rightarrow> 'p Sequencer \<Rightarrow> bool" where
  "stream_rel sid msgs arr s \<longleftrightarrow>
     filter (in_stream sid) (delivered s) = take (first_missing arr) msgs \<and>
     (case map_of (m_buffers s) sid of
        None \<Rightarrow> arr = [] \<or> ended msgs arr
      | Some b \<Rightarrow> \<not> ended msgs arr \<and> buffer_rel msgs arr b)"

lemma buffer_rel_init: "buffer_rel msgs [] Buffer_init"
  by (simp add: buffer_rel_def Buffer_init_def)
lemma pos_push:
  assumes st: "stream_of sid msgs" and rel: "buffer_rel msgs arr b"
    and i: "i < length msgs" and arr: "\<And>j. j \<in> set arr \<Longrightarrow> j < length msgs"
  shows "pos ` set (m_buffer (Buffer_push (msgs ! i) b)) = {j \<in> set (arr @ [i]). first_missing arr \<le> j}"
    and "set (m_buffer (Buffer_push (msgs ! i) b)) = (!) msgs ` {j \<in> set (arr @ [i]). first_missing arr \<le> j}"
    and "m_seqNum (Buffer_push (msgs ! i) b) = of_nat (first_missing arr)"
    and "m_seqNumAck (Buffer_push (msgs ! i) b) = m_seqNumAck b"
proof -
  let ?k = "first_missing arr"
  have N: "length msgs < 2 ^ 64" using st by (simp add: stream_of_def)
  have "?k \<le> length msgs" using first_missing_le arr by blast
  then have cmp: "seq_num (msgs ! i) \<ge> m_seqNum b \<longleftrightarrow> ?k \<le> i"
    using rel i N stream_of_nth [OF st i] by (simp add: buffer_rel_def of_nat_uint64)
  have old: "{j \<in> set arr. ?k < j} = {j \<in> set arr. ?k \<le> j}"
    using first_missing_notin [of arr] by (auto simp: order_le_less)
  show s: "set (m_buffer (Buffer_push (msgs ! i) b)) = (!) msgs ` {j \<in> set (arr @ [i]). ?k \<le> j}"
  proof (cases "?k \<le> i")
    case True
    then have "{j \<in> set (arr @ [i]). ?k \<le> j} = insert i {j \<in> set arr. ?k \<le> j}" by auto
    then show ?thesis
      using True rel cmp by (simp add: Buffer_push_def buffer_rel_def old)
  next
    case False
    then have "{j \<in> set (arr @ [i]). ?k \<le> j} = {j \<in> set arr. ?k \<le> j}" by auto
    then show ?thesis
      using False rel cmp by (simp add: Buffer_push_def buffer_rel_def old)
  qed
  have "\<And>j. j \<in> set (arr @ [i]) \<Longrightarrow> pos (msgs ! j) = j" using stream_of_nth(2) [OF st] arr i by auto
  then show "pos ` set (m_buffer (Buffer_push (msgs ! i) b)) = {j \<in> set (arr @ [i]). ?k \<le> j}"
    unfolding s by (force simp: image_iff)
  show "m_seqNum (Buffer_push (msgs ! i) b) = of_nat ?k" "m_seqNumAck (Buffer_push (msgs ! i) b) = m_seqNumAck b"
    using rel by (simp_all add: Buffer_push_def buffer_rel_def)
qed

lemma cleared_first_missing:
  assumes c: "cleared msgs (first_missing arr) k' b1 r b'"
    and p: "pos ` set (m_buffer b1) = {j \<in> set (arr @ [i]). first_missing arr \<le> j}"
    and arr: "\<And>j. j \<in> set (arr @ [i]) \<Longrightarrow> j < length msgs"
  shows "first_missing (arr @ [i]) = k'"
proof (rule first_missing_eqI)
  have "first_missing arr \<le> k'" "snd r \<Longrightarrow> k' = length msgs" "\<not> snd r \<Longrightarrow> k' \<notin> pos ` set (m_buffer b1)"
    using c by (simp_all add: cleared_def)
  then show "k' \<notin> set (arr @ [i])" using p arr [of k'] by (cases "snd r") auto
  show "j \<in> set (arr @ [i])" if "j < k'" for j
  proof (cases "j < first_missing arr")
    case True
    then show ?thesis using first_missing_prefix by simp
  next
    case False
    then have "j \<in> pos ` set (m_buffer b1)" using c that by (auto simp: cleared_def)
    then show ?thesis using p by simp
  qed
qed

lemma cleared_ended:
  assumes c: "cleared msgs (first_missing arr) (first_missing (arr @ [i])) b1 r b'"
    and st: "stream_of sid msgs" and not: "\<not> ended msgs arr"
  shows "snd r \<longleftrightarrow> ended msgs (arr @ [i])"
proof
  assume "snd r"
  then have "0 < length msgs" "first_missing (arr @ [i]) = length msgs" "has_end_of_stream (last msgs)"
    using c by (auto simp: cleared_def)
  then show "ended msgs (arr @ [i])" by (auto simp: ended_def)
next
  assume e: "ended msgs (arr @ [i])"
  then obtain j where j: "j < length msgs" "has_end_of_stream (msgs ! j)" "first_missing (arr @ [i]) = length msgs"
    by (auto simp: ended_def in_set_conv_nth)
  then have "Suc j = length msgs" using st by (simp add: stream_of_def)
  moreover have "first_missing arr \<noteq> length msgs" "first_missing arr \<le> length msgs"
    using not e c by (auto simp: ended_def cleared_def)
  ultimately have "j \<in> {first_missing arr..<first_missing (arr @ [i])}" using j(3) by auto
  then show "snd r" using c j(2) by (cases "snd r") (auto simp: cleared_def)
qed

section \<open>The handler\<close>

lemma m_buffers_upd [simp]:
  "map_of (m_buffers (put_buffer sid b s)) = (map_of (m_buffers s))(sid \<mapsto> b)"
  "map_of (m_buffers (erase_buffer sid s)) = (map_of (m_buffers s))(sid := None)"
  by (simp_all add: put_buffer_def erase_buffer_def map_of_al_erase)

lemma sequencer_fields [simp]:
  "m_buffers (call c s) = m_buffers s" "delivered (call c s) = delivered s" "calls (call c s) = calls s @ [c]"
  "delivered (put_buffer sid b s) = delivered s" "calls (put_buffer sid b s) = calls s"
  "delivered (erase_buffer sid s) = delivered s" "calls (erase_buffer sid s) = calls s"
  by (simp_all add: call_def put_buffer_def erase_buffer_def)

text \<open>What the handler sends for a stream whose positions \<open>arr\<close> have arrived.\<close>

definition ack_call :: "uint64 \<Rightarrow> uint64 \<Rightarrow> 'p lower_call" where
  "ack_call sid n = Send (plain_message (Message_acknowledgement
     \<lparr>ma_stream_id = sid, ma_sequence_number = n\<rparr>))"

definition request_call :: "uint64 \<Rightarrow> uint64 \<Rightarrow> uint64 \<Rightarrow> 'p lower_call" where
  "request_call sid lo up = Send (plain_message (Message_request
     \<lparr>mr_stream_id = sid, lower_sequence_number = lo, upper_sequence_number = up\<rparr>))"

definition gap_end :: "nat list \<Rightarrow> nat" where
  "gap_end arr = Min {j \<in> set arr. first_missing arr < j}"

definition stream_calls :: "uint64 \<Rightarrow> 'p ServerMessage list \<Rightarrow> nat list \<Rightarrow> uint64 \<Rightarrow> 'p lower_call list" where
  "stream_calls sid msgs arr ack =
     (let k = first_missing arr in
      if ended msgs arr then [ack_call sid (of_nat k - 1)]
      else (if \<exists>j \<in> set arr. k < j then [request_call sid (of_nat k) (of_nat (gap_end arr) - 1)] else [])
         @ (if of_nat k \<ge> ack + STREAM_MSG_ACK_WINDOW then [ack_call sid (of_nat k - 1)] else []))"

lemma send_calls [simp]:
  "sendMessageAcknowledgement sid n = call (ack_call sid n)"
  "sendMessageRequest sid lo up = call (request_call sid lo up)"
  by (simp_all add: sendMessageAcknowledgement_def sendMessageRequest_def ack_call_def request_call_def)

lemma stream_buffer_rel:
  assumes "stream_rel sid msgs arr s" and "\<not> ended msgs arr"
  shows "buffer_rel msgs arr (stream_buffer sid s)"
  using assms buffer_rel_init
  by (auto simp: stream_rel_def stream_buffer_def split: option.splits)

lemma cleared_open:
  assumes c: "cleared msgs (first_missing arr) (first_missing (arr @ [i])) b1 r b'" and "\<not> snd r"
    and st: "stream_of sid msgs"
    and p: "set (m_buffer b1) = (!) msgs ` {j \<in> set (arr @ [i]). first_missing arr \<le> j}"
    and bound: "\<And>j. j \<in> set (arr @ [i]) \<Longrightarrow> j < length msgs"
  defines "P \<equiv> {j \<in> set (arr @ [i]). first_missing (arr @ [i]) < j}"
  shows "set (m_buffer b') = (!) msgs ` P" and "m_seqNum b' \<le> fst r \<longleftrightarrow> P \<noteq> {}"
    and "P \<noteq> {} \<Longrightarrow> fst r = of_nat (gap_end (arr @ [i])) - 1"
proof -
  let ?k' = "first_missing (arr @ [i])"
  have N: "length msgs < 2 ^ 64" using st by (simp add: stream_of_def)
  have pos: "\<And>j. j \<in> set (arr @ [i]) \<Longrightarrow> pos (msgs ! j) = j" using stream_of_nth(2) [OF st] bound by blast
  have k: "first_missing arr \<le> ?k'" "?k' \<le> length msgs" using c by (simp_all add: cleared_def)
  have P: "P = {j \<in> set (arr @ [i]). first_missing arr \<le> j \<and> ?k' \<le> j}"
    using first_missing_notin [of "arr @ [i]"] k(1) unfolding P_def nat_less_le by auto
  have "set (m_buffer b') = {m \<in> set (m_buffer b1). ?k' \<le> pos m}"
    using c assms(2) by (simp add: cleared_def)
  then show s: "set (m_buffer b') = (!) msgs ` P" unfolding p P using pos by auto
  have "pos ` (!) msgs ` P = P" using pos by (force simp: P_def image_image)
  moreover have "m_buffer b' = [] \<longleftrightarrow> P = {}" using s by (metis image_is_empty set_empty)
  ultimately have r: "fst r = of_nat (if P = {} then ?k' else gap_end (arr @ [i])) - 1"
    using c assms(2) unfolding cleared_def s gap_end_def P_def [symmetric] by simp
  then show "P \<noteq> {} \<Longrightarrow> fst r = of_nat (gap_end (arr @ [i])) - 1" by simp
  have seq: "m_seqNum b' = of_nat ?k'" using c by (simp add: cleared_def)
  show "m_seqNum b' \<le> fst r \<longleftrightarrow> P \<noteq> {}"
  proof (cases "P = {}")
    case True
    then obtain m where m: "?k' = Suc m"
      using first_missing_notin [of "arr @ [i]"] by (cases "?k'") (auto simp: P_def)
    then have "fst r = of_nat m" using True r by simp
    then show ?thesis using True m seq k N of_nat_uint64_le [of ?k' m] by simp
  next
    case False
    then have "gap_end (arr @ [i]) \<in> P" unfolding gap_end_def P_def by (intro Min_in) auto
    then have g: "?k' < gap_end (arr @ [i])" "gap_end (arr @ [i]) < length msgs" using bound by (auto simp: P_def)
    then obtain m where m: "gap_end (arr @ [i]) = Suc m" by (cases "gap_end (arr @ [i])") auto
    then have "fst r = of_nat m" using False r by simp
    then show ?thesis using False m g seq N of_nat_uint64_le [of ?k' m] by simp
  qed
qed

context seq_queue
begin

lemma push_clear:
  assumes st: "stream_of sid msgs" and rel: "buffer_rel msgs arr b" and not: "\<not> ended msgs arr"
    and bound: "\<And>j. j \<in> set (arr @ [i]) \<Longrightarrow> j < length msgs"
  defines "b1 \<equiv> Buffer_push (msgs ! i) b"
  obtains r b' where
    "Buffer_clear pop (Suc (length (m_buffer b1))) b1 [] =
       Some (r, b', map ((!) msgs) [first_missing arr..<first_missing (arr @ [i])])"
    "cleared msgs (first_missing arr) (first_missing (arr @ [i])) b1 r b'"
    "snd r \<longleftrightarrow> ended msgs (arr @ [i])"
proof -
  have i: "i < length msgs" and arr: "\<And>j. j \<in> set arr \<Longrightarrow> j < length msgs" using bound by auto
  note p = pos_push [OF st rel i arr]
  have k: "first_missing arr \<le> length msgs" using first_missing_le arr by blast
  have sub: "set (m_buffer b1) \<subseteq> set msgs" using p(2) bound by (auto simp: b1_def)
  obtain k' r b' where c: "Buffer_clear pop (Suc (length (m_buffer b1))) b1 [] =
        Some (r, b', map ((!) msgs) [first_missing arr..<k'])" "cleared msgs (first_missing arr) k' b1 r b'"
    using Buffer_clear_spec [OF st _ sub, of "Suc (length (m_buffer b1))" "first_missing arr" "[]"] k p(3)
    by (auto simp: b1_def)
  have "first_missing (arr @ [i]) = k'"
    by (rule cleared_first_missing [OF c(2)]) (use p(1) bound in \<open>simp_all add: b1_def\<close>)
  with c that cleared_ended [OF _ st not] show ?thesis by blast
qed

lemma on_message_stream:
  assumes st: "stream_of sid msgs" and rel: "stream_rel sid msgs arr s" and not: "\<not> ended msgs arr"
    and bound: "\<And>j. j \<in> set (arr @ [i]) \<Longrightarrow> j < length msgs"
  obtains s' where "on_message pop (msgs ! i) s = Some s'" "stream_rel sid msgs (arr @ [i]) s'"
    "\<And>sid'. sid' \<noteq> sid \<Longrightarrow> map_of (m_buffers s') sid' = map_of (m_buffers s) sid'"
    "delivered s' = delivered s @ map ((!) msgs) [first_missing arr..<first_missing (arr @ [i])]"
    "calls s' = calls s @ stream_calls sid msgs (arr @ [i]) (m_seqNumAck (stream_buffer sid s))"
proof -
  let ?b = "stream_buffer sid s" and ?arr = "arr @ [i]"
  let ?b1 = "Buffer_push (msgs ! i) ?b" and ?k = "first_missing arr" and ?k' = "first_missing (arr @ [i])"
  let ?out = "map ((!) msgs) [?k..<?k']"
  have i: "i < length msgs" and arr: "\<And>j. j \<in> set arr \<Longrightarrow> j < length msgs" using bound by auto
  note b = stream_buffer_rel [OF rel not]
  note p = pos_push [OF st b i arr]
  obtain r b' where c: "Buffer_clear pop (Suc (length (m_buffer ?b1))) ?b1 [] = Some (r, b', ?out)"
      "cleared msgs ?k ?k' ?b1 r b'" "snd r \<longleftrightarrow> ended msgs ?arr"
    using push_clear [OF st b not bound] by blast
  have le: "?k \<le> ?k'" "?k' \<le> length msgs" using c(2) by (simp_all add: cleared_def)
  have in_s: "in_stream sid (msgs ! j)" if "j < length msgs" for j
    using stream_of_nth [OF st that] by (simp add: in_stream_def)
  have "filter (in_stream sid) ?out = ?out" using in_s le by (intro filter_True) auto
  then have del: "filter (in_stream sid) (delivered s @ ?out) = take ?k' msgs"
    using rel le take_map_nth [of ?k ?k' msgs] by (simp add: stream_rel_def)
  have hdl: "has_message_stream (msgs ! i)" "stream_id (msg_stream (msgs ! i)) = sid"
    using stream_of_nth [OF st i] by auto
  define s1 where "s1 = put_buffer sid b' (s\<lparr>delivered := delivered s @ ?out\<rparr>)"
  have run: "on_message pop (msgs ! i) s = Some (after_clear sid r b' s1)"
    using hdl c(1) by (simp add: on_message_def Let_def s1_def)
  have s1: "delivered s1 = delivered s @ ?out" "calls s1 = calls s"
      "map_of (m_buffers s1) = (map_of (m_buffers s))(sid \<mapsto> b')"
    by (simp_all add: s1_def)
  show ?thesis
  proof (rule that [OF run])
    show "delivered (after_clear sid r b' s1) = delivered s @ ?out"
      by (simp add: after_clear_def Let_def s1)
    show "\<And>sid'. sid' \<noteq> sid \<Longrightarrow> map_of (m_buffers (after_clear sid r b' s1)) sid' = map_of (m_buffers s) sid'"
      by (simp add: after_clear_def Let_def s1)
    have b': "m_seqNum b' = of_nat ?k'" "m_seqNumAck b' = m_seqNumAck ?b"
      using c(2) p(4) by (simp_all add: cleared_def)
    have d: "filter (in_stream sid) (delivered (after_clear sid r b' s1)) = take ?k' msgs"
      using del by (simp add: after_clear_def Let_def s1)
    show "stream_rel sid msgs ?arr (after_clear sid r b' s1)"
    proof (cases "ended msgs ?arr")
      case True
      then show ?thesis using d c(3) by (simp add: stream_rel_def after_clear_def s1)
    next
      case False
      have "m_seqNumAck ?b \<le> of_nat ?k" using b by (auto simp: buffer_rel_def)
      also have "\<dots> \<le> of_nat ?k'" using le of_nat_uint64_le [of ?k ?k'] st by (simp add: stream_of_def)
      finally have "m_seqNumAck b' \<le> m_seqNum b'" using b' by simp
      then have "buffer_rel msgs ?arr b'" "buffer_rel msgs ?arr (resetSequenceNumberAck b')"
        using b'(1) cleared_open(1) [OF c(2) _ st p(2) bound] c(3) False
        by (simp_all add: buffer_rel_def resetSequenceNumberAck_def)
      then show ?thesis
        using False d c(3) by (simp add: stream_rel_def after_clear_def Let_def s1)
    qed
    show "calls (after_clear sid r b' s1) = calls s @ stream_calls sid msgs ?arr (m_seqNumAck ?b)"
    proof (cases "ended msgs ?arr")
      case True
      then have "snd r" "fst r = of_nat ?k' - 1" using c(2,3) by (simp_all add: cleared_def)
      then show ?thesis using True by (simp add: after_clear_def stream_calls_def s1)
    next
      case False
      then have nr: "\<not> snd r" using c(3) by simp
      have "(\<exists>j \<in> set ?arr. ?k' < j) \<longleftrightarrow> of_nat ?k' \<le> fst r"
          "of_nat ?k' \<le> fst r \<Longrightarrow> fst r = of_nat (gap_end ?arr) - 1"
        using cleared_open(2,3) [OF c(2) nr st p(2) bound] b'(1) by auto
      then show ?thesis
        using False nr b' unfolding after_clear_def stream_calls_def Let_def by (simp add: s1)
    qed
  qed
qed

text \<open>The handler always returns, and it forwards and keeps only messages of the stream it handles.\<close>

lemma Buffer_clear_total:
  "length (m_buffer b) < n \<Longrightarrow>
   \<exists>r b' xs. Buffer_clear pop n b out = Some (r, b', out @ xs) \<and>
     set xs \<subseteq> set (m_buffer b) \<and> set (m_buffer b') \<subseteq> set (m_buffer b)"
proof (induction n arbitrary: b out)
  case (Suc n)
  show ?case
  proof (cases rule: pop_cases [of "m_buffer b"])
    case empty
    then show ?thesis by auto
  next
    case (popped it q)
    have q: "length q < n" using popped(2) Suc.prems by simp
    obtain r b' xs where 1: "Buffer_clear pop n (b\<lparr>m_seqNum := m_seqNum b + 1, m_buffer := q\<rparr>) (out @ [it])
        = Some (r, b', (out @ [it]) @ xs)" "set xs \<subseteq> set q" "set (m_buffer b') \<subseteq> set q"
      using Suc.IH [of "b\<lparr>m_seqNum := m_seqNum b + 1, m_buffer := q\<rparr>" "out @ [it]"] q by auto
    obtain r2 b2 xs2 where 2: "Buffer_clear pop n (b\<lparr>m_buffer := q\<rparr>) out = Some (r2, b2, out @ xs2)"
        "set xs2 \<subseteq> set q" "set (m_buffer b2) \<subseteq> set q"
      using Suc.IH [of "b\<lparr>m_buffer := q\<rparr>" out] q by auto
    show ?thesis
      using 1 2 popped(1,3) by (auto simp: Let_def intro!: exI [of _ "it # xs"])
  qed
qed simp

lemma on_message_total: "\<exists>s'. on_message pop m s = Some s'"
  using Buffer_clear_total [OF lessI, of "Buffer_push m (stream_buffer (stream_id (msg_stream m)) s)" "[]"]
  by (auto simp: on_message_def Let_def simp del: Buffer_clear.simps)

end

definition buffers_ok :: "'p Sequencer \<Rightarrow> bool" where
  "buffers_ok s \<longleftrightarrow> (\<forall>sid b. map_of (m_buffers s) sid = Some b \<longrightarrow> (\<forall>m \<in> set (m_buffer b). in_stream sid m))"

lemma after_clear_fields:
  "delivered (after_clear sid r b s) = delivered s"
  "sid' \<noteq> sid \<Longrightarrow> map_of (m_buffers (after_clear sid r b s)) sid' = map_of (m_buffers s) sid'"
  by (simp_all add: after_clear_def Let_def)

lemma after_clear_buffer:
  "map_of (m_buffers s) sid = Some b \<Longrightarrow> map_of (m_buffers (after_clear sid r b s)) sid = Some b' \<Longrightarrow>
   m_buffer b' = m_buffer b"
  by (auto simp: after_clear_def Let_def resetSequenceNumberAck_def split: if_splits)

context seq_queue
begin

lemma on_message_other:
  assumes ok: "buffers_ok s" and run: "on_message pop m s = Some s'"
  shows "buffers_ok s'"
    and "\<not> in_stream sid m \<Longrightarrow> map_of (m_buffers s') sid = map_of (m_buffers s) sid \<and>
      filter (in_stream sid) (delivered s') = filter (in_stream sid) (delivered s)"
    and "filter (\<lambda>m. \<not> has_message_stream m) (delivered s') =
      filter (\<lambda>m. \<not> has_message_stream m) (delivered s @ [m])"
proof -
  have "buffers_ok s' \<and>
    (\<not> in_stream sid m \<longrightarrow> map_of (m_buffers s') sid = map_of (m_buffers s) sid \<and>
      filter (in_stream sid) (delivered s') = filter (in_stream sid) (delivered s)) \<and>
    filter (\<lambda>m. \<not> has_message_stream m) (delivered s') = filter (\<lambda>m. \<not> has_message_stream m) (delivered s @ [m])"
  proof (cases "has_message_stream m")
    case False
    then show ?thesis
      using ok run by (auto simp: on_message_def buffers_ok_def in_stream_def)
  next
    case True
    define t where "t = stream_id (msg_stream m)"
    define b where "b = Buffer_push m (stream_buffer t s)"
    have b: "\<And>x. x \<in> set (m_buffer b) \<Longrightarrow> in_stream t x"
      using ok True
      by (auto simp: b_def Buffer_push_def stream_buffer_def Buffer_init_def buffers_ok_def in_stream_def t_def
          split: if_splits option.splits)
    obtain r b' xs where c: "Buffer_clear pop (Suc (length (m_buffer b))) b [] = Some (r, b', xs)"
        "set xs \<subseteq> set (m_buffer b)" "set (m_buffer b') \<subseteq> set (m_buffer b)"
      using Buffer_clear_total [of b "Suc (length (m_buffer b))" "[]"] by auto
    define s1 where "s1 = put_buffer t b' (s\<lparr>delivered := delivered s @ xs\<rparr>)"
    have s': "s' = after_clear t r b' s1"
      using run True c(1)
      by (simp add: on_message_def Let_def t_def [symmetric] b_def [symmetric] s1_def del: Buffer_clear.simps)
    have xs: "\<And>x. x \<in> set xs \<Longrightarrow> in_stream t x" using b c(2) by blast
    have "filter (\<lambda>m. \<not> has_message_stream m) xs = []"
      using xs by (auto simp: filter_empty_conv in_stream_def)
    moreover have "filter (in_stream sid) xs = []" if "\<not> in_stream sid m"
      using xs that True by (auto simp: filter_empty_conv in_stream_def t_def)
    moreover have "map_of (m_buffers s') sid = map_of (m_buffers s) sid" if "\<not> in_stream sid m"
      using that True after_clear_fields(2) [of sid t r b' s1] by (simp add: in_stream_def t_def s' s1_def)
    moreover have "buffers_ok s'"
      unfolding buffers_ok_def
    proof (intro allI impI ballI)
      fix u b2 x
      assume u: "map_of (m_buffers s') u = Some b2" "x \<in> set (m_buffer b2)"
      show "in_stream u x"
      proof (cases "u = t")
        case True
        then have "m_buffer b2 = m_buffer b'"
          using after_clear_buffer [of s1 t b' r b2] u by (simp add: s' s1_def)
        then show ?thesis using u(2) b c(3) True by auto
      next
        case False
        then have "map_of (m_buffers s) u = Some b2"
          using u(1) after_clear_fields(2) [of u t r b' s1] by (simp add: s' s1_def)
        then show ?thesis using u(2) ok by (simp add: buffers_ok_def)
      qed
    qed
    ultimately show ?thesis
      using True by (simp add: s' after_clear_fields s1_def)
  qed
  then show "buffers_ok s'" and "\<not> in_stream sid m \<Longrightarrow> map_of (m_buffers s') sid = map_of (m_buffers s) sid \<and>
      filter (in_stream sid) (delivered s') = filter (in_stream sid) (delivered s)"
    and "filter (\<lambda>m. \<not> has_message_stream m) (delivered s') =
      filter (\<lambda>m. \<not> has_message_stream m) (delivered s @ [m])" by blast+
qed

text \<open>The arrivals of a stream that was not over before the last of them.\<close>

lemma arrive_stream:
  assumes st: "stream_of sid msgs"
    and sub: "\<And>m. m \<in> set ms \<Longrightarrow> in_stream sid m \<Longrightarrow> m \<in> set msgs"
    and open': "\<not> ended msgs (butlast (arrivals sid ms))"
  obtains s where "arrive pop ms Sequencer_init = Some s" "buffers_ok s" "stream_rel sid msgs (arrivals sid ms) s"
    "filter (\<lambda>m. \<not> has_message_stream m) (delivered s) = filter (\<lambda>m. \<not> has_message_stream m) ms"
proof -
  have bound: "\<And>j. j \<in> set (arrivals sid ms) \<Longrightarrow> j < length msgs"
    using sub stream_of_set(1) [OF st] by (auto simp: arrivals_def)
  have "\<exists>s. arrive pop ms Sequencer_init = Some s \<and> buffers_ok s \<and> stream_rel sid msgs (arrivals sid ms) s \<and>
    filter (\<lambda>m. \<not> has_message_stream m) (delivered s) = filter (\<lambda>m. \<not> has_message_stream m) ms"
    using sub open' bound
  proof (induction ms rule: rev_induct)
    case Nil
    then show ?case by (simp add: Sequencer_init_def buffers_ok_def stream_rel_def arrivals_def)
  next
    case (snoc m ms)
    let ?arr = "arrivals sid ms"
    have arr: "arrivals sid (ms @ [m]) = ?arr @ (if in_stream sid m then [pos m] else [])"
      by (simp add: arrivals_def)
    have "\<not> ended msgs (butlast ?arr)"
    proof (cases "in_stream sid m")
      case True
      then have "\<not> ended msgs ?arr" using snoc.prems(2) arr by simp
      moreover have "first_missing (butlast ?arr) \<le> first_missing ?arr"
        by (rule first_missing_mono) (auto dest: in_set_butlastD)
      moreover have "first_missing ?arr \<le> length msgs"
        using snoc.prems(3) arr by (intro first_missing_le) auto
      ultimately show ?thesis by (auto simp: ended_def)
    next
      case False
      then show ?thesis using snoc.prems(2) arr by simp
    qed
    then obtain s where s: "arrive pop ms Sequencer_init = Some s" "buffers_ok s" "stream_rel sid msgs ?arr s"
        "filter (\<lambda>m. \<not> has_message_stream m) (delivered s) = filter (\<lambda>m. \<not> has_message_stream m) ms"
      using snoc.IH snoc.prems arr by auto
    obtain s' where s': "on_message pop m s = Some s'" using on_message_total by blast
    note o = on_message_other [OF s(2) s']
    have "stream_rel sid msgs (arrivals sid (ms @ [m])) s'"
    proof (cases "in_stream sid m")
      case True
      then have m: "pos m < length msgs" "msgs ! pos m = m"
        using snoc.prems(1) stream_of_set [OF st, of m] by auto
      have "\<not> ended msgs ?arr" "\<And>j. j \<in> set (?arr @ [pos m]) \<Longrightarrow> j < length msgs"
        using snoc.prems(2,3) True arr by auto
      then obtain s2 where "on_message pop (msgs ! pos m) s = Some s2" "stream_rel sid msgs (?arr @ [pos m]) s2"
        by (rule on_message_stream [OF st s(3)])
      then show ?thesis using m(2) s' arr True by simp
    next
      case False
      then show ?thesis using s(3) o(2) [of sid] arr by (simp add: stream_rel_def)
    qed
    then show ?case using s s' o(1,3) by (simp add: arrive_append)
  qed
  then show ?thesis by (elim exE conjE) (rule that)
qed

text \<open>A late duplicate of the first message of a stream that is over starts the stream again.\<close>

lemma on_message_after_end:
  assumes st: "stream_of sid msgs" and "msgs \<noteq> []" and "map_of (m_buffers s) sid = None"
    and run: "on_message pop (msgs ! 0) s = Some s'"
  shows "delivered s' = delivered s @ [msgs ! 0]"
proof -
  have 0: "0 < length msgs" using assms(2) by simp
  have e: "\<not> ended msgs []" using 0 by (auto simp: ended_def)
  have fm: "first_missing ([] @ [0]) = 1" by (rule first_missing_eqI) simp_all
  have b: "stream_buffer sid s = Buffer_init" using assms(3) by (simp add: stream_buffer_def)
  obtain r b' where "Buffer_clear pop (Suc (length (m_buffer (Buffer_push (msgs ! 0) Buffer_init))))
      (Buffer_push (msgs ! 0) Buffer_init) [] =
      Some (r, b', map ((!) msgs) [first_missing []..<first_missing ([] @ [0])])"
  proof (rule push_clear [OF st buffer_rel_init e, of 0])
    show "\<And>j. j \<in> set ([] @ [0]) \<Longrightarrow> j < length msgs" using 0 by simp
  qed (rule that)
  then show ?thesis
    using run stream_of_nth [OF st 0] b fm
    by (auto simp: on_message_def Let_def after_clear_fields simp del: Buffer_clear.simps)
qed

end

text \<open>A queue that satisfies the contract for the comparator of the buffers.\<close>

definition least_seq_pop :: "'p ServerMessage try_pop" where
  "least_seq_pop = list_pop (\<lambda>m. - uint (seq_num m))"

lemma GreaterSeqNum_key: "GreaterSeqNum = (\<lambda>a b. - uint (seq_num a) < - uint (seq_num b))"
  by (simp add: fun_eq_iff GreaterSeqNum_def word_less_def)

interpretation least_seq: seq_queue least_seq_pop
  unfolding seq_queue_def least_seq_pop_def GreaterSeqNum_key
  by (rule list_queue.priority_queue_axioms)

section \<open>Properties\<close>


definition example_msg :: "nat \<Rightarrow> nat ServerMessage" where
  "example_msg i = set_stream 5 (of_nat i) (plain_message (if i = 3 then End_of_stream else Other_body (i * 10)))"

definition example_stream :: "nat ServerMessage list" where
  "example_stream = map example_msg [0..<4]"

lemma example_stream_of: "stream_of 5 example_stream"
  by (auto simp: stream_of_def example_stream_def example_msg_def set_stream_def plain_message_def
      has_end_of_stream_def split: if_splits)

lemma example_arrivals:
  "arrivals 5 [example_msg 1, example_msg 0, example_msg 0, example_msg 3] = [1, 0, 0, 3]"
  by (simp add: arrivals_def in_stream_def has_message_stream_def msg_stream_def pos_def seq_num_def
      example_msg_def set_stream_def)




text \<open>
  C40. The end of a stream erases its buffer, and with it the memory of what was forwarded: when a
  duplicate of the first message arrives after the whole stream was forwarded, it is forwarded a
  second time.
\<close>

theorem late_duplicate_redelivered:
  assumes "priority_queue GreaterSeqNum pop" and "stream_of sid msgs" and "msgs \<noteq> []"
    and "\<And>m. m \<in> set ms \<Longrightarrow> in_stream sid m \<Longrightarrow> m \<in> set msgs"
    and "\<not> ended msgs (butlast (arrivals sid ms))" and "ended msgs (arrivals sid ms)"
  shows "\<exists>s s'. arrive pop ms Sequencer_init = Some s \<and> filter (in_stream sid) (delivered s) = msgs \<and>
    on_message pop (msgs ! 0) s = Some s' \<and> delivered s' = delivered s @ [msgs ! 0]"
proof -
  have q: "seq_queue pop" using assms(1) by (simp add: seq_queue_def)
  obtain s where s: "arrive pop ms Sequencer_init = Some s" "stream_rel sid msgs (arrivals sid ms) s"
    using seq_queue.arrive_stream [OF q assms(2,4,5)] by blast
  then have "map_of (m_buffers s) sid = None" "filter (in_stream sid) (delivered s) = msgs"
    using assms(6) by (auto simp: stream_rel_def ended_def split: option.splits)
  moreover obtain s' where "on_message pop (msgs ! 0) s = Some s'"
    using seq_queue.on_message_total [OF q] by blast
  ultimately show ?thesis
    using s(1) seq_queue.on_message_after_end [OF q assms(2,3)] by blast
qed

theorem late_duplicate_redelivered_witness:
  "\<exists>s s'. arrive least_seq_pop (map example_msg [1, 0, 2, 3]) Sequencer_init = Some s \<and>
     on_message least_seq_pop (example_msg 0) s = Some s' \<and> delivered s' = delivered s @ [example_msg 0]"
proof -
  have arr: "arrivals 5 (map example_msg [1, 0, 2, 3]) = [1, 0, 2, 3]"
    by (simp add: arrivals_def in_stream_def has_message_stream_def msg_stream_def pos_def seq_num_def
        example_msg_def set_stream_def)
  have fm: "first_missing [1, 0, 2, 3] = 4" "first_missing [1, 0, 2] = 3" by (simp_all add: first_missing_def)
  have "has_end_of_stream (example_msg 3)"
    by (simp add: example_msg_def has_end_of_stream_def plain_message_def)
  then have "ended example_stream (arrivals 5 (map example_msg [1, 0, 2, 3]))"
    unfolding arr ended_def using fm by (auto simp: example_stream_def)
  moreover have "\<not> ended example_stream (butlast (arrivals 5 (map example_msg [1, 0, 2, 3])))"
    unfolding arr ended_def using fm by (simp add: example_stream_def)
  moreover have "\<And>x. x \<in> set (map example_msg [1, 0, 2, 3]) \<Longrightarrow> x \<in> set example_stream"
    by (auto simp: example_stream_def)
  moreover have "example_stream \<noteq> []" "example_stream ! 0 = example_msg 0" by (simp_all add: example_stream_def)
  ultimately show ?thesis
    using late_duplicate_redelivered [OF least_seq.priority_queue_axioms example_stream_of,
        of "map example_msg [1, 0, 2, 3]"] by auto
qed

end
