(* ===== verification/OC_Streams.thy ===== *)
theory OC_Streams
  imports OC_Containers OC_Messages
begin

text \<open>
  Outgoing message streams: \<open>helpers/src/communication/streaming/typedStream.h\<close>, which numbers the
  messages of one stream and keeps them until they are acknowledged, and \<open>streamManager.h\<close>, which
  creates the streams and routes the provider's control messages to them.
\<close>

section \<open>One stream\<close>

definition StreamLess :: "'p ClientMessage \<Rightarrow> 'p ClientMessage \<Rightarrow> bool" where
  "StreamLess a b \<longleftrightarrow> seq_num a < seq_num b"

text \<open>\<open>ts_sent\<close> is the log of what the communicator was given.\<close>

record 'p TypedStream =
  m_streamId :: uint64
  m_sequenceId :: uint64
  ts_buffer :: "'p ClientMessage list"
  ts_sent :: "'p ClientMessage list"

definition TypedStream_init :: "uint64 \<Rightarrow> 'p TypedStream" where
  "TypedStream_init streamId = \<lparr>m_streamId = streamId, m_sequenceId = 0, ts_buffer = [], ts_sent = []\<rparr>"

text \<open>
  \<open>m_bufferMutex\<close> is not recursive. A thread that holds it exclusively and asks for it again never
  gets it; the calls below carry how the calling thread holds it, and such a call has no result.
\<close>

datatype held = Unlocked | Shared | Exclusive

definition saveAndPass :: "held \<Rightarrow> 'p ClientMessage \<Rightarrow> 'p TypedStream \<Rightarrow> 'p TypedStream option" where
  "saveAndPass h msg s =
     (if h = Exclusive then None
      else Some (s\<lparr>ts_buffer := msg # ts_buffer s, ts_sent := ts_sent s @ [msg]\<rparr>))"

fun saveAndPass_all :: "held \<Rightarrow> 'p ClientMessage list \<Rightarrow> 'p TypedStream \<Rightarrow> 'p TypedStream option" where
  "saveAndPass_all h [] s = Some s"
| "saveAndPass_all h (m # ms) s =
     (case saveAndPass h m s of None \<Rightarrow> None | Some s' \<Rightarrow> saveAndPass_all h ms s')"

definition ts_send :: "'p message_body \<Rightarrow> 'p TypedStream \<Rightarrow> 'p TypedStream option" where
  "ts_send msg s =
     saveAndPass Unlocked (set_stream (m_streamId s) (m_sequenceId s) (plain_message msg))
       (s\<lparr>m_sequenceId := m_sequenceId s + 1\<rparr>)"

definition ts_close :: "'p TypedStream \<Rightarrow> 'p TypedStream option" where
  "ts_close = ts_send End_of_stream"

text \<open>The loop of \<open>reset\<close>: the popped messages in the order they are popped, renumbered from zero.\<close>

fun drain :: "'p ClientMessage try_pop \<Rightarrow> nat \<Rightarrow> 'p TypedStream \<Rightarrow> 'p ClientMessage list
    \<Rightarrow> ('p ClientMessage list \<times> 'p TypedStream) option" where
  "drain pop 0 s processed = None"
| "drain pop (Suc n) s processed =
     (case pop (ts_buffer s) of
        None \<Rightarrow> Some (processed, s)
      | Some (it, q) \<Rightarrow>
          drain pop n (s\<lparr>ts_buffer := q, m_sequenceId := m_sequenceId s + 1\<rparr>)
            (processed @ [set_seq_num (m_sequenceId s) it]))"

definition ts_reset :: "'p ClientMessage try_pop \<Rightarrow> 'p TypedStream \<Rightarrow> 'p TypedStream option" where
  "ts_reset pop s =
     (case drain pop (Suc (length (ts_buffer s))) (s\<lparr>m_sequenceId := 0\<rparr>) [] of
        None \<Rightarrow> None
      | Some (processed, s') \<Rightarrow> saveAndPass_all Exclusive processed s')"

text \<open>
  The first loop of \<open>handleMessageRequest\<close>. The capacity hint \<open>processed.reserve\<close> before it has no
  effect on the contents; for the requests of the protocol, whose bounds are ordered, it is the
  number of requested messages.
\<close>

fun pop_upto :: "'p ClientMessage try_pop \<Rightarrow> nat \<Rightarrow> uint64 \<Rightarrow> 'p ClientMessage list \<Rightarrow> 'p ClientMessage list
    \<Rightarrow> ('p ClientMessage list \<times> 'p ClientMessage list) option" where
  "pop_upto pop 0 upper q processed = None"
| "pop_upto pop (Suc n) upper q processed =
     (case pop q of
        None \<Rightarrow> Some (processed, q)
      | Some (it, q') \<Rightarrow>
          if seq_num it \<le> upper then pop_upto pop n upper q' (processed @ [it])
          else Some (processed, it # q'))"

text \<open>The second: what lies in the requested range is sent again, the rest is put back.\<close>

fun resend :: "uint64 \<Rightarrow> 'p ClientMessage list \<Rightarrow> 'p TypedStream \<Rightarrow> 'p TypedStream option" where
  "resend lower [] s = Some s"
| "resend lower (m # ms) s =
     (if seq_num m \<ge> lower then
        (case saveAndPass Shared m s of None \<Rightarrow> None | Some s' \<Rightarrow> resend lower ms s')
      else resend lower ms (s\<lparr>ts_buffer := m # ts_buffer s\<rparr>))"

definition ts_handleMessageRequest :: "'p ClientMessage try_pop \<Rightarrow> MessageRequest \<Rightarrow> 'p TypedStream \<Rightarrow> 'p TypedStream option" where
  "ts_handleMessageRequest pop msg s =
     (case pop_upto pop (Suc (length (ts_buffer s))) (upper_sequence_number msg) (ts_buffer s) [] of
        None \<Rightarrow> None
      | Some (processed, q) \<Rightarrow> resend (lower_sequence_number msg) processed (s\<lparr>ts_buffer := q\<rparr>))"

fun drop_acked :: "'p ClientMessage try_pop \<Rightarrow> nat \<Rightarrow> uint64 \<Rightarrow> 'p ClientMessage list \<Rightarrow> 'p ClientMessage list option" where
  "drop_acked pop 0 n q = None"
| "drop_acked pop (Suc k) n q =
     (case pop q of
        None \<Rightarrow> Some q
      | Some (it, q') \<Rightarrow> if seq_num it > n then Some (it # q') else drop_acked pop k n q')"

definition ts_handleMessageAcknowledgement :: "'p ClientMessage try_pop \<Rightarrow> MessageAcknowledgement \<Rightarrow> 'p TypedStream \<Rightarrow> 'p TypedStream option" where
  "ts_handleMessageAcknowledgement pop msg s =
     (case drop_acked pop (Suc (length (ts_buffer s))) (ma_sequence_number msg) (ts_buffer s) of
        None \<Rightarrow> None
      | Some q \<Rightarrow> Some (s\<lparr>ts_buffer := q\<rparr>))"

section \<open>What the loops do\<close>

text \<open>The stream's queue pops a message with the greatest sequence number.\<close>

locale stream_queue = priority_queue StreamLess pop for pop :: "'p ClientMessage try_pop"
begin

lemma pop_greatest:
  obtains (empty) "q = []" "pop q = None"
  | (popped) x q' where "pop q = Some (x, q')" "length q = Suc (length q')" "mset q = add_mset x (mset q')"
      "\<And>y. y \<in> set q \<Longrightarrow> seq_num y \<le> seq_num x" "x \<in> set q"
  by (rule pop_cases [of q]) (auto simp: StreamLess_def not_less)

lemma pop_upto_all:
  assumes "length q < n" and "\<And>m. m \<in> set q \<Longrightarrow> seq_num m \<le> upper"
  shows "\<exists>xs. pop_upto pop n upper q acc = Some (acc @ xs, []) \<and> mset xs = mset q \<and>
    sorted_wrt (\<lambda>a b. seq_num b \<le> seq_num a) xs"
  using assms
proof (induction n arbitrary: q acc)
  case (Suc n)
  show ?case
  proof (cases rule: pop_greatest [of q])
    case empty
    then show ?thesis by simp
  next
    case (popped x q')
    have sub: "set q' \<subseteq> set q" using popped(3) by (metis set_mset_add_mset_insert set_mset_mset subset_insertI)
    obtain xs where xs: "pop_upto pop n upper q' (acc @ [x]) = Some ((acc @ [x]) @ xs, [])" "mset xs = mset q'"
        "sorted_wrt (\<lambda>a b. seq_num b \<le> seq_num a) xs"
      using Suc.IH [of q' "acc @ [x]"] Suc.prems popped(2) sub by auto
    moreover have "seq_num y \<le> seq_num x" if "y \<in> set xs" for y
      using popped(4) sub xs(2) that by (metis mset_eq_setD subsetD)
    ultimately show ?thesis
      using popped Suc.prems by (intro exI [of _ "x # xs"]) simp
  qed
qed simp

lemma pop_upto_blocked:
  assumes "m \<in> set q" and "seq_num m > upper"
  shows "\<exists>q'. pop_upto pop (Suc n) upper q acc = Some (acc, q') \<and> mset q' = mset q"
proof (cases rule: pop_greatest [of q])
  case empty
  then show ?thesis using assms by simp
next
  case (popped x q')
  then have "\<not> seq_num x \<le> upper" using less_le_trans [OF assms(2) popped(4) [OF assms(1)]] by simp
  then show ?thesis using popped by simp
qed

lemma drop_acked_all:
  "length q < n \<Longrightarrow> (\<And>m. m \<in> set q \<Longrightarrow> seq_num m \<le> a) \<Longrightarrow> drop_acked pop n a q = Some []"
proof (induction n arbitrary: q)
  case (Suc n)
  show ?case
  proof (cases rule: pop_greatest [of q])
    case (popped x q')
    moreover have "set q' \<subseteq> set q" using popped(3) by (metis set_mset_add_mset_insert set_mset_mset subset_insertI)
    ultimately show ?thesis
      using Suc.IH [of q'] Suc.prems by (auto simp: not_less)
  qed simp
qed simp

lemma drop_acked_blocked:
  assumes "m \<in> set q" and "seq_num m > a"
  shows "\<exists>q'. drop_acked pop (Suc n) a q = Some q' \<and> mset q' = mset q"
proof (cases rule: pop_greatest [of q])
  case empty
  then show ?thesis using assms by simp
next
  case (popped x q')
  then have "seq_num x > a" using less_le_trans [OF assms(2) popped(4) [OF assms(1)]] by simp
  then show ?thesis using popped by simp
qed

lemma drain_nonempty:
  assumes "length (ts_buffer s) < n" and "processed \<noteq> [] \<or> ts_buffer s \<noteq> []"
  shows "\<exists>xs s'. drain pop n s processed = Some (xs, s') \<and> xs \<noteq> []"
  using assms
proof (induction n arbitrary: s processed)
  case (Suc n)
  show ?case
  proof (cases rule: pop_greatest [of "ts_buffer s"])
    case (popped x q)
    then show ?thesis
      using Suc.prems Suc.IH [of "s\<lparr>ts_buffer := q, m_sequenceId := m_sequenceId s + 1\<rparr>"
          "processed @ [set_seq_num (m_sequenceId s) x]"] by simp
  qed (use Suc.prems in simp)
qed simp

end

lemma resend_eq:
  "\<exists>s'. resend lower xs s = Some s' \<and> ts_sent s' = ts_sent s @ filter (\<lambda>m. lower \<le> seq_num m) xs \<and>
    mset (ts_buffer s') = mset xs + mset (ts_buffer s) \<and> m_sequenceId s' = m_sequenceId s"
proof (induction xs arbitrary: s)
  case (Cons x xs)
  show ?case
    using Cons.IH [of "s\<lparr>ts_buffer := x # ts_buffer s, ts_sent := ts_sent s @ [x]\<rparr>"]
      Cons.IH [of "s\<lparr>ts_buffer := x # ts_buffer s\<rparr>"]
    by (auto simp: saveAndPass_def)
qed simp

section \<open>The stream manager\<close>

text \<open>
  Streams are heap objects: clients own them, the manager holds weak pointers, in \<open>m_idMap\<close> by
  stream id and in the slots of \<open>m_streams\<close>. A weak pointer is the object's address and can be
  locked while the object is alive, that is in \<open>sm_heap\<close>. A stream remembers its slot for the
  \<open>unregister\<close> callback.
\<close>

type_synonym stream_ptr = nat

record 'p StreamManager =
  m_nextStreamId :: uint64
  m_idMap :: "uint64 \<rightharpoonup> stream_ptr"
  m_streams :: "stream_ptr option list"
  m_streamsSlots :: "nat list"
  sm_heap :: "stream_ptr \<rightharpoonup> 'p TypedStream \<times> nat"
  sm_nextPtr :: stream_ptr

definition StreamManager_init :: "'p StreamManager" where
  "StreamManager_init = \<lparr>m_nextStreamId = 0, m_idMap = Map.empty, m_streams = [], m_streamsSlots = [],
     sm_heap = Map.empty, sm_nextPtr = 0\<rparr>"

definition sm_create :: "'p StreamManager \<Rightarrow> stream_ptr \<times> 'p StreamManager" where
  "sm_create m =
     (let (it, slots, streams) =
            (case m_streamsSlots m of
               i # is \<Rightarrow> (i, is, m_streams m)
             | [] \<Rightarrow> (length (m_streams m), [], m_streams m @ [None]));
          streamId = m_nextStreamId m;
          p = sm_nextPtr m
      in (p, m\<lparr>m_nextStreamId := streamId + 1,
               m_idMap := (m_idMap m)(streamId \<mapsto> p),
               m_streams := streams[it := Some p],
               m_streamsSlots := slots,
               sm_heap := (sm_heap m)(p \<mapsto> (TypedStream_init streamId, it)),
               sm_nextPtr := Suc p\<rparr>))"

text \<open>
  The last owner lets go of a stream: \<open>~TypedStream\<close> closes it and calls \<open>unregister\<close>. The result
  has the messages the stream sent in its life.
\<close>

definition sm_destroy :: "stream_ptr \<Rightarrow> 'p StreamManager \<Rightarrow> ('p ClientMessage list \<times> 'p StreamManager) option" where
  "sm_destroy p m =
     (case sm_heap m p of
        None \<Rightarrow> None
      | Some (s, it) \<Rightarrow>
          (case ts_close s of
             None \<Rightarrow> None
           | Some s' \<Rightarrow> Some (ts_sent s', m\<lparr>m_idMap := (m_idMap m)(m_streamId s := None),
               m_streamsSlots := m_streamsSlots m @ [it], sm_heap := (sm_heap m)(p := None)\<rparr>)))"

definition on_stream :: "stream_ptr \<Rightarrow> ('p TypedStream \<Rightarrow> 'p TypedStream option) \<Rightarrow> 'p StreamManager \<Rightarrow> 'p StreamManager option" where
  "on_stream p f m =
     (case sm_heap m p of
        None \<Rightarrow> Some m
      | Some (s, it) \<Rightarrow>
          (case f s of None \<Rightarrow> None | Some s' \<Rightarrow> Some (m\<lparr>sm_heap := (sm_heap m)(p \<mapsto> (s', it))\<rparr>)))"

definition on_id :: "uint64 \<Rightarrow> ('p TypedStream \<Rightarrow> 'p TypedStream option) \<Rightarrow> 'p StreamManager \<Rightarrow> 'p StreamManager option" where
  "on_id sid f m = (case m_idMap m sid of None \<Rightarrow> Some m | Some p \<Rightarrow> on_stream p f m)"

definition sm_handleMessageRequest :: "'p ClientMessage try_pop \<Rightarrow> MessageRequest \<Rightarrow> 'p StreamManager \<Rightarrow> 'p StreamManager option" where
  "sm_handleMessageRequest pop msg = on_id (mr_stream_id msg) (ts_handleMessageRequest pop msg)"

definition sm_handleMessageAcknowledgement :: "'p ClientMessage try_pop \<Rightarrow> MessageAcknowledgement \<Rightarrow> 'p StreamManager \<Rightarrow> 'p StreamManager option" where
  "sm_handleMessageAcknowledgement pop msg = on_id (ma_stream_id msg) (ts_handleMessageAcknowledgement pop msg)"

fun reset_all :: "'p ClientMessage try_pop \<Rightarrow> stream_ptr option list \<Rightarrow> 'p StreamManager \<Rightarrow> 'p StreamManager option" where
  "reset_all pop [] m = Some m"
| "reset_all pop (None # ps) m = reset_all pop ps m"
| "reset_all pop (Some p # ps) m =
     (case on_stream p (ts_reset pop) m of None \<Rightarrow> None | Some m' \<Rightarrow> reset_all pop ps m')"

definition sm_handleMessageStreamReset :: "'p ClientMessage try_pop \<Rightarrow> MessageStreamReset \<Rightarrow> 'p StreamManager \<Rightarrow> 'p StreamManager option" where
  "sm_handleMessageStreamReset pop msg m =
     (case msr_stream_id msg of
        Some sid \<Rightarrow> on_id sid (ts_reset pop) m
      | None \<Rightarrow> reset_all pop (m_streams m) m)"

text \<open>The subscription the constructor makes: the communicator calls back on accepted messages.\<close>

definition sm_predicate :: "'p ServerMessage \<Rightarrow> bool" where
  "sm_predicate msg =
     (case message_body msg of Message_request _ \<Rightarrow> True | Message_acknowledgement _ \<Rightarrow> True | _ \<Rightarrow> False)"

definition sm_callback :: "'p ClientMessage try_pop \<Rightarrow> 'p ServerMessage \<Rightarrow> 'p StreamManager \<Rightarrow> 'p StreamManager option" where
  "sm_callback pop msg m =
     (case message_body msg of
        Message_request r \<Rightarrow> sm_handleMessageRequest pop r m
      | Message_acknowledgement a \<Rightarrow> sm_handleMessageAcknowledgement pop a m
      | Message_stream_reset r \<Rightarrow> sm_handleMessageStreamReset pop r m
      | _ \<Rightarrow> Some m)"

definition sm_receive :: "'p ClientMessage try_pop \<Rightarrow> 'p ServerMessage \<Rightarrow> 'p StreamManager \<Rightarrow> 'p StreamManager option" where
  "sm_receive pop msg m = (if sm_predicate msg then sm_callback pop msg m else Some m)"

definition sm_send :: "stream_ptr \<Rightarrow> 'p message_body \<Rightarrow> 'p StreamManager \<Rightarrow> 'p StreamManager option" where
  "sm_send p msg = on_stream p (ts_send msg)"

section \<open>The manager's invariant\<close>

text \<open>
  The id map knows exactly the live streams, each live stream owns a slot that points to it, no two
  streams share a slot, and the free slots are the others.
\<close>

definition sm_live :: "'p StreamManager \<Rightarrow> stream_ptr \<Rightarrow> uint64 \<Rightarrow> nat \<Rightarrow> bool" where
  "sm_live m p sid it \<longleftrightarrow> (\<exists>s. sm_heap m p = Some (s, it) \<and> m_streamId s = sid)"

definition sm_inv :: "'p StreamManager \<Rightarrow> bool" where
  "sm_inv m \<longleftrightarrow>
     (\<forall>sid p. m_idMap m sid = Some p \<longleftrightarrow> (\<exists>it. sm_live m p sid it)) \<and>
     (\<forall>p sid it. sm_live m p sid it \<longrightarrow>
        p < sm_nextPtr m \<and> sid < m_nextStreamId m \<and> it < length (m_streams m) \<and>
        m_streams m ! it = Some p \<and> it \<notin> set (m_streamsSlots m)) \<and>
     distinct (m_streamsSlots m) \<and> (\<forall>it \<in> set (m_streamsSlots m). it < length (m_streams m))"

lemma sm_invI:
  assumes "\<And>sid p. m_idMap m sid = Some p \<longleftrightarrow> (\<exists>it. sm_live m p sid it)"
    and "\<And>p sid it. sm_live m p sid it \<Longrightarrow> p < sm_nextPtr m \<and> sid < m_nextStreamId m \<and>
      it < length (m_streams m) \<and> m_streams m ! it = Some p \<and> it \<notin> set (m_streamsSlots m)"
    and "distinct (m_streamsSlots m)" and "\<And>it. it \<in> set (m_streamsSlots m) \<Longrightarrow> it < length (m_streams m)"
  shows "sm_inv m"
  using assms by (simp add: sm_inv_def)

lemma sm_inv_live:
  assumes "sm_inv m" and "sm_live m p sid it"
  shows "p < sm_nextPtr m" "sid < m_nextStreamId m" "it < length (m_streams m)" "m_streams m ! it = Some p"
    "it \<notin> set (m_streamsSlots m)"
  using assms unfolding sm_inv_def by meson+

lemma sm_inv_slots:
  assumes "sm_inv m"
  shows "m_idMap m sid = Some p \<longleftrightarrow> (\<exists>it. sm_live m p sid it)" "distinct (m_streamsSlots m)"
    "it \<in> set (m_streamsSlots m) \<Longrightarrow> it < length (m_streams m)"
  using assms unfolding sm_inv_def by simp_all

inductive sm_reach :: "'p ClientMessage try_pop \<Rightarrow> 'p StreamManager \<Rightarrow> bool" for pop where
  init: "sm_reach pop StreamManager_init"
| create: "sm_reach pop m \<Longrightarrow> m_nextStreamId m + 1 \<noteq> 0 \<Longrightarrow> sm_create m = (p, m') \<Longrightarrow> sm_reach pop m'"
| destroy: "sm_reach pop m \<Longrightarrow> sm_destroy p m = Some (sent, m') \<Longrightarrow> sm_reach pop m'"
| send: "sm_reach pop m \<Longrightarrow> sm_send p msg m = Some m' \<Longrightarrow> sm_reach pop m'"
| receive: "sm_reach pop m \<Longrightarrow> sm_receive pop msg m = Some m' \<Longrightarrow> sm_reach pop m'"

lemma streamId_kept:
  "saveAndPass h msg s = Some s' \<Longrightarrow> m_streamId s' = m_streamId s"
  "ts_send b s = Some s' \<Longrightarrow> m_streamId s' = m_streamId s"
  "resend lower xs s = Some s' \<Longrightarrow> m_streamId s' = m_streamId s"
  "ts_handleMessageRequest pop r s = Some s' \<Longrightarrow> m_streamId s' = m_streamId s"
  "ts_handleMessageAcknowledgement pop a s = Some s' \<Longrightarrow> m_streamId s' = m_streamId s"
proof -
  show *: "saveAndPass h msg s = Some s' \<Longrightarrow> m_streamId s' = m_streamId s" for h msg and s s' :: "'a TypedStream"
    by (auto simp: saveAndPass_def split: if_splits)
  show "ts_send b s = Some s' \<Longrightarrow> m_streamId s' = m_streamId s"
    unfolding ts_send_def by (drule *) simp
  show **: "resend lower xs s = Some s' \<Longrightarrow> m_streamId s' = m_streamId s" for lower xs and s s' :: "'a TypedStream"
  proof (induction xs arbitrary: s)
    case (Cons x xs)
    then show ?case by (force split: if_splits option.splits dest: *)
  qed simp
  show "ts_handleMessageRequest pop r s = Some s' \<Longrightarrow> m_streamId s' = m_streamId s"
    by (auto simp: ts_handleMessageRequest_def simp del: pop_upto.simps split: option.splits dest!: **)
  show "ts_handleMessageAcknowledgement pop a s = Some s' \<Longrightarrow> m_streamId s' = m_streamId s"
    by (auto simp: ts_handleMessageAcknowledgement_def split: option.splits)
qed

lemma on_stream_inv:
  assumes "sm_inv m" and "\<And>s s'. f s = Some s' \<Longrightarrow> m_streamId s' = m_streamId s"
    and "on_stream p f m = Some m'"
  shows "sm_inv m'"
proof -
  have "sm_live m' = sm_live m"
    using assms(2,3) by (force simp: fun_eq_iff on_stream_def sm_live_def split: option.splits if_splits)
  moreover have "m_idMap m' = m_idMap m" "m_streams m' = m_streams m" "m_streamsSlots m' = m_streamsSlots m"
      "m_nextStreamId m' = m_nextStreamId m" "sm_nextPtr m' = sm_nextPtr m"
    using assms(3) by (auto simp: on_stream_def split: option.splits)
  ultimately show ?thesis using assms(1) by (simp add: sm_inv_def)
qed

lemma on_id_inv:
  "sm_inv m \<Longrightarrow> (\<And>s s'. f s = Some s' \<Longrightarrow> m_streamId s' = m_streamId s) \<Longrightarrow> on_id sid f m = Some m' \<Longrightarrow> sm_inv m'"
  by (auto simp: on_id_def split: option.splits intro: on_stream_inv)

lemma sm_receive_inv:
  assumes inv: "sm_inv m" and r: "sm_receive pop msg m = Some m'"
  shows "sm_inv m'"
proof (cases "message_body msg")
  case (Message_request x)
  then show ?thesis
    using r on_id_inv [OF inv streamId_kept(4)]
    by (simp add: sm_receive_def sm_predicate_def sm_callback_def sm_handleMessageRequest_def)
next
  case (Message_acknowledgement x)
  then show ?thesis
    using r on_id_inv [OF inv streamId_kept(5)]
    by (simp add: sm_receive_def sm_predicate_def sm_callback_def sm_handleMessageAcknowledgement_def)
qed (use assms in \<open>simp_all add: sm_receive_def sm_predicate_def\<close>)

lemma sm_live_create:
  assumes "sm_create m = (p, m')"
  shows "sm_live m' q sid it \<longleftrightarrow>
    (if q = sm_nextPtr m
     then sid = m_nextStreamId m \<and>
       it = (case m_streamsSlots m of [] \<Rightarrow> length (m_streams m) | i # _ \<Rightarrow> i)
     else sm_live m q sid it)"
  using assms by (auto simp: sm_create_def sm_live_def TypedStream_init_def Let_def split: list.splits)

lemma sm_create_inv:
  assumes inv: "sm_inv m" and no_wrap: "m_nextStreamId m + 1 \<noteq> 0" and c: "sm_create m = (p, m')"
  shows "sm_inv m'"
proof -
  define it where "it = (case m_streamsSlots m of [] \<Rightarrow> length (m_streams m) | i # _ \<Rightarrow> i)"
  have next_sid: "\<And>sid. sid < m_nextStreamId m \<Longrightarrow> sid < m_nextStreamId m + 1" "m_nextStreamId m < m_nextStreamId m + 1"
    using no_wrap unatSuc [of "m_nextStreamId m"] by (simp_all add: word_less_nat_alt add.commute)
  have fresh: "\<not> sm_live m (sm_nextPtr m) sid it" "\<not> sm_live m q (m_nextStreamId m) it" for sid it q
    using sm_inv_live(1,2) [OF inv] by blast+
  note live = sm_live_create [OF c, folded it_def]
  have ids: "m_idMap m' = (m_idMap m)(m_nextStreamId m \<mapsto> sm_nextPtr m)"
    "sm_nextPtr m' = Suc (sm_nextPtr m)" "m_nextStreamId m' = m_nextStreamId m + 1"
    "m_streams m' = (if m_streamsSlots m = [] then m_streams m @ [None] else m_streams m)[it := Some (sm_nextPtr m)]"
    "m_streamsSlots m' = tl (m_streamsSlots m)"
    using c by (auto simp: sm_create_def it_def Let_def split: list.splits)
  have len: "length (m_streams m') = (if m_streamsSlots m = [] then Suc (length (m_streams m)) else length (m_streams m))"
    by (simp add: ids)
  have it: "it < length (m_streams m')" "it \<notin> set (tl (m_streamsSlots m))"
    using sm_inv_slots(2,3) [OF inv] by (auto simp: len it_def split: list.splits)
  have old: "i < length (m_streams m') \<and> m_streams m' ! i = Some q \<and> i \<notin> set (tl (m_streamsSlots m))"
    if "sm_live m q sid i" for q sid i
  proof -
    note f = sm_inv_live [OF inv that]
    then have "i \<noteq> it" "i \<notin> set (tl (m_streamsSlots m))"
      by (cases "m_streamsSlots m"; auto simp: it_def)+
    then show ?thesis using f(3,4) by (simp add: ids nth_append)
  qed
  show ?thesis
  proof (rule sm_invI)
    show "m_idMap m' sid = Some q \<longleftrightarrow> (\<exists>i. sm_live m' q sid i)" for sid q
      using fresh sm_inv_slots(1) [OF inv, of sid q] by (auto simp: ids live)
    show "q < sm_nextPtr m' \<and> sid < m_nextStreamId m' \<and> i < length (m_streams m') \<and>
        m_streams m' ! i = Some q \<and> i \<notin> set (m_streamsSlots m')" if "sm_live m' q sid i" for q sid i
    proof (cases "q = sm_nextPtr m")
      case True
      then show ?thesis using that it next_sid by (simp add: live ids)
    next
      case False
      then have "sm_live m q sid i" using that by (simp add: live)
      then show ?thesis
        using old [of q sid i] sm_inv_live(1,2) [OF inv, of q sid i] next_sid by (simp add: ids(2,3,5))
    qed
    show "distinct (m_streamsSlots m')" using sm_inv_slots(2) [OF inv] by (simp add: ids distinct_tl)
    show "i < length (m_streams m')" if "i \<in> set (m_streamsSlots m')" for i
      using that sm_inv_slots(3) [OF inv, of i] by (auto simp: ids len dest: list.set_sel(2) [rotated])
  qed
qed

lemma sm_destroy_inv:
  assumes inv: "sm_inv m" and d: "sm_destroy p m = Some (sent, m')"
  shows "sm_inv m'"
proof -
  obtain s it where s: "sm_heap m p = Some (s, it)"
    using d by (auto simp: sm_destroy_def split: option.splits)
  then have m': "m' = m\<lparr>m_idMap := (m_idMap m)(m_streamId s := None),
      m_streamsSlots := m_streamsSlots m @ [it], sm_heap := (sm_heap m)(p := None)\<rparr>"
    using d by (auto simp: sm_destroy_def split: option.splits)
  have live: "sm_live m' q sid i \<longleftrightarrow> q \<noteq> p \<and> sm_live m q sid i" for q sid i
    by (auto simp: m' sm_live_def)
  have fields: "m_idMap m' = (m_idMap m)(m_streamId s := None)" "m_streamsSlots m' = m_streamsSlots m @ [it]"
      "m_streams m' = m_streams m" "m_nextStreamId m' = m_nextStreamId m" "sm_nextPtr m' = sm_nextPtr m"
    by (simp_all add: m')
  have p: "sm_live m p sid i \<longleftrightarrow> sid = m_streamId s \<and> i = it" for sid i
    using s by (auto simp: sm_live_def)
  have "m_streams m ! it = Some p" "m_idMap m (m_streamId s) = Some p"
    using sm_inv_live(4) [OF inv, of p] sm_inv_slots(1) [OF inv] p by auto
  then have unique: "sm_live m q sid i \<Longrightarrow> i = it \<or> sid = m_streamId s \<Longrightarrow> q = p" for q sid i
    using sm_inv_live(4) [OF inv, of q sid i] sm_inv_slots(1) [OF inv, of sid q] by auto
  show ?thesis
  proof (rule sm_invI)
    show "m_idMap m' sid = Some q \<longleftrightarrow> (\<exists>i. sm_live m' q sid i)" for sid q
      using unique sm_inv_slots(1) [OF inv, of sid q] p by (auto simp: live fields)
    show "q < sm_nextPtr m' \<and> sid < m_nextStreamId m' \<and> i < length (m_streams m') \<and>
        m_streams m' ! i = Some q \<and> i \<notin> set (m_streamsSlots m')" if "sm_live m' q sid i" for q sid i
      using that unique [of q sid i] sm_inv_live [OF inv, of q sid i] by (auto simp: live fields)
    show "distinct (m_streamsSlots m')"
      using sm_inv_slots(2) [OF inv] sm_inv_live(5) [OF inv, of p] p by (simp add: fields)
    show "i < length (m_streams m')" if "i \<in> set (m_streamsSlots m')" for i
      using that sm_inv_slots(3) [OF inv, of i] sm_inv_live(3) [OF inv, of p] p by (auto simp: fields)
  qed
qed

lemma sm_reach_inv: "sm_reach pop m \<Longrightarrow> sm_inv m"
proof (induction rule: sm_reach.induct)
  case init
  show ?case by (simp add: sm_inv_def StreamManager_init_def sm_live_def)
next
  case (send m p msg m')
  then show ?case using on_stream_inv [OF _ streamId_kept(2)] by (simp add: sm_send_def)
qed (auto intro: sm_create_inv sm_destroy_inv sm_receive_inv)

text \<open>A queue that satisfies the contract for the comparator of the streams.\<close>

definition greatest_seq_pop :: "'p ClientMessage try_pop" where
  "greatest_seq_pop = list_pop seq_num"

lemma StreamLess_key: "StreamLess = (\<lambda>a b. seq_num a < seq_num b)"
  by (simp add: fun_eq_iff StreamLess_def)

interpretation greatest_seq: stream_queue greatest_seq_pop
  unfolding stream_queue_def greatest_seq_pop_def StreamLess_key
  by (rule list_queue.priority_queue_axioms)

section \<open>Properties\<close>

text \<open>
  C35. What a retransmission request does, with the comparator the stream uses. As long as a message
  beyond the requested range is still buffered, nothing is sent again: the queue yields that
  message first and the loop stops. Otherwise every buffered message from the lower bound on is
  sent again, highest number first. The buffer keeps its messages in both cases.
\<close>

theorem request_resends_only_at_tail:
  assumes pq: "priority_queue StreamLess pop"
    and "lower_sequence_number msg \<le> upper_sequence_number msg"
  shows "\<exists>s'. ts_handleMessageRequest pop msg s = Some s' \<and> mset (ts_buffer s') = mset (ts_buffer s) \<and>
    (if \<exists>m \<in> set (ts_buffer s). upper_sequence_number msg < seq_num m
     then ts_sent s' = ts_sent s
     else \<exists>xs. ts_sent s' = ts_sent s @ filter (\<lambda>m. lower_sequence_number msg \<le> seq_num m) xs \<and>
       mset xs = mset (ts_buffer s) \<and> sorted_wrt (\<lambda>a b. seq_num b \<le> seq_num a) xs)"
proof -
  let ?up = "upper_sequence_number msg" and ?low = "lower_sequence_number msg"
  have q: "stream_queue pop" using pq by (simp add: stream_queue_def)
  show ?thesis
  proof (cases "\<exists>m \<in> set (ts_buffer s). ?up < seq_num m")
    case True
    then obtain q' where "pop_upto pop (Suc (length (ts_buffer s))) ?up (ts_buffer s) [] = Some ([], q')"
        "mset q' = mset (ts_buffer s)"
      using stream_queue.pop_upto_blocked [OF q] by blast
    then show ?thesis using True by (simp add: ts_handleMessageRequest_def del: pop_upto.simps)
  next
    case False
    then obtain xs where xs: "pop_upto pop (Suc (length (ts_buffer s))) ?up (ts_buffer s) [] = Some (xs, [])"
        "mset xs = mset (ts_buffer s)" "sorted_wrt (\<lambda>a b. seq_num b \<le> seq_num a) xs"
      using stream_queue.pop_upto_all [OF q, of "ts_buffer s" "Suc (length (ts_buffer s))" ?up "[]"]
      by (force simp: not_less)
    then show ?thesis
      using False resend_eq [of ?low xs "s\<lparr>ts_buffer := []\<rparr>"]
      by (auto simp: ts_handleMessageRequest_def simp del: pop_upto.simps)
  qed
qed

definition example_ts :: "nat TypedStream" where
  "example_ts = \<lparr>m_streamId = 1, m_sequenceId = 3,
     ts_buffer = map (\<lambda>i. set_stream 1 (of_nat i) (plain_message (Other_body i))) [0, 1, 2], ts_sent = []\<rparr>"

definition example_request :: MessageRequest where
  "example_request = \<lparr>mr_stream_id = 1, lower_sequence_number = 1, upper_sequence_number = 1\<rparr>"

theorem request_resends_only_at_tail_witness:
  "\<exists>s'. ts_handleMessageRequest greatest_seq_pop example_request example_ts = Some s' \<and> ts_sent s' = []"
proof -
  have "\<exists>m \<in> set (ts_buffer example_ts). upper_sequence_number example_request < seq_num m"
    by (simp add: example_ts_def example_request_def word_less_nat_alt)
  then show ?thesis
    using request_resends_only_at_tail [OF greatest_seq.priority_queue_axioms, of example_request example_ts]
    by (auto simp: example_request_def example_ts_def)
qed

text \<open>
  What an acknowledgement does: it empties the buffer if it covers every buffered message, and
  otherwise removes nothing, not even the messages it covers.
\<close>

lemma acknowledgement_all_or_nothing:
  assumes pq: "priority_queue StreamLess pop"
  shows "\<exists>s'. ts_handleMessageAcknowledgement pop msg s = Some s' \<and> ts_sent s' = ts_sent s \<and>
    (if \<exists>m \<in> set (ts_buffer s). ma_sequence_number msg < seq_num m
     then mset (ts_buffer s') = mset (ts_buffer s) else ts_buffer s' = [])"
proof -
  let ?a = "ma_sequence_number msg"
  have q: "stream_queue pop" using pq by (simp add: stream_queue_def)
  show ?thesis
  proof (cases "\<exists>m \<in> set (ts_buffer s). ?a < seq_num m")
    case True
    then obtain q' where "drop_acked pop (Suc (length (ts_buffer s))) ?a (ts_buffer s) = Some q'"
        "mset q' = mset (ts_buffer s)"
      using stream_queue.drop_acked_blocked [OF q] by blast
    then show ?thesis using True by (simp add: ts_handleMessageAcknowledgement_def del: drop_acked.simps)
  next
    case False
    then have "drop_acked pop (Suc (length (ts_buffer s))) ?a (ts_buffer s) = Some []"
      using stream_queue.drop_acked_all [OF q, of "ts_buffer s" "Suc (length (ts_buffer s))" ?a]
      by (force simp: not_less)
    then show ?thesis using False by (simp add: ts_handleMessageAcknowledgement_def del: drop_acked.simps)
  qed
qed

lemma acknowledgement_all_or_nothing_witness:
  "\<exists>s'. ts_handleMessageAcknowledgement greatest_seq_pop \<lparr>ma_stream_id = 1, ma_sequence_number = 1\<rparr> example_ts
     = Some s' \<and> mset (ts_buffer s') = mset (ts_buffer example_ts)"
proof -
  have "\<exists>m \<in> set (ts_buffer example_ts). (1::uint64) < seq_num m"
    by (simp add: example_ts_def word_less_nat_alt)
  then show ?thesis
    using acknowledgement_all_or_nothing [OF greatest_seq.priority_queue_axioms,
        of "\<lparr>ma_stream_id = 1, ma_sequence_number = 1\<rparr>" example_ts]
    by auto
qed

text \<open>
  Resetting a stream that still buffers a message never completes: \<open>reset\<close> holds the buffer's
  mutex exclusively while \<open>saveAndPass\<close> asks for it. A stream with an empty buffer is reset to
  sequence number zero.
\<close>

lemma reset_blocks_itself:
  assumes pq: "priority_queue StreamLess pop"
  shows "ts_reset pop s = (if ts_buffer s = [] then Some (s\<lparr>m_sequenceId := 0\<rparr>) else None)"
proof (cases "ts_buffer s = []")
  case True
  then show ?thesis using priority_queue.pop_Nil [OF pq] by (simp add: ts_reset_def)
next
  case False
  have q: "stream_queue pop" using pq by (simp add: stream_queue_def)
  obtain xs s' where "drain pop (Suc (length (ts_buffer s))) (s\<lparr>m_sequenceId := 0\<rparr>) [] = Some (xs, s')" "xs \<noteq> []"
    using stream_queue.drain_nonempty [OF q, of "s\<lparr>m_sequenceId := 0\<rparr>" "Suc (length (ts_buffer s))" "[]"] False
    by auto
  then show ?thesis
    using False by (cases xs) (simp_all add: ts_reset_def saveAndPass_def del: drain.simps)
qed

lemma reset_blocks_itself_witness: "ts_reset greatest_seq_pop example_ts = None"
  using reset_blocks_itself [OF greatest_seq.priority_queue_axioms, of example_ts]
  by (simp add: example_ts_def)

text \<open>
  C20. Whatever streams are created, used and destroyed and whatever control messages arrive, the
  manager's tables stay consistent: the id map names exactly the live streams, each live stream
  owns the slot that points to it, slots are never shared and a slot is free exactly once.
\<close>

theorem stream_manager_consistent:
  assumes "sm_reach pop m"
  shows "(\<forall>sid p. m_idMap m sid = Some p \<longleftrightarrow> (\<exists>it. sm_live m p sid it)) \<and>
    (\<forall>p sid it. sm_live m p sid it \<longrightarrow> it < length (m_streams m) \<and> m_streams m ! it = Some p \<and>
      it \<notin> set (m_streamsSlots m)) \<and> distinct (m_streamsSlots m)"
  using sm_reach_inv [OF assms] unfolding sm_inv_def by blast

theorem stream_manager_consistent_witness:
  "m_idMap (snd (sm_create (StreamManager_init :: nat StreamManager))) 0 = Some 0 \<and>
   sm_live (snd (sm_create (StreamManager_init :: nat StreamManager))) 0 0 0"
proof -
  let ?m = "snd (sm_create (StreamManager_init :: nat StreamManager))"
  have r: "sm_reach greatest_seq_pop ?m"
    by (rule sm_reach.create [OF sm_reach.init, of "fst (sm_create StreamManager_init)"])
       (simp_all add: StreamManager_init_def prod_eq_iff)
  have "sm_live ?m 0 0 0"
    by (simp add: sm_create_def StreamManager_init_def sm_live_def TypedStream_init_def)
  then show ?thesis using stream_manager_consistent [OF r] by blast
qed

definition control_target :: "'p ServerMessage \<Rightarrow> uint64 option" where
  "control_target msg =
     (case message_body msg of
        Message_request r \<Rightarrow> Some (mr_stream_id r)
      | Message_acknowledgement a \<Rightarrow> Some (ma_stream_id a)
      | _ \<Rightarrow> None)"

lemma on_id_other:
  assumes "sm_inv m" and "sm_live m p sid it" and "sid' \<noteq> sid" and "on_id sid' f m = Some m'"
  shows "sm_heap m' p = sm_heap m p"
proof (cases "m_idMap m sid'")
  case (Some q)
  have "m_idMap m sid = Some p" using sm_inv_slots(1) [OF assms(1)] assms(2) by blast
  moreover obtain i where "sm_live m q sid' i" using sm_inv_slots(1) [OF assms(1)] Some by blast
  ultimately have "q \<noteq> p" using assms(2,3) by (auto simp: sm_live_def)
  then show ?thesis using assms(4) Some by (auto simp: on_id_def on_stream_def split: option.splits)
qed (use assms(4) in \<open>simp add: on_id_def\<close>)

text \<open>
  C31. Routing: a control message touches no live stream but the one whose id it carries. A reset
  request, with or without an id, touches none at all: the predicate of the manager's subscription
  rejects the very message that its callback would handle.
\<close>

theorem control_messages_routed:
  assumes "sm_reach pop m" and "sm_receive pop msg m = Some m'"
    and "sm_live m p sid it" and "control_target msg \<noteq> Some sid"
  shows "sm_heap m' p = sm_heap m p"
proof (cases "message_body msg")
  case (Message_request x)
  then show ?thesis
    using assms on_id_other [OF sm_reach_inv [OF assms(1)] assms(3)]
    by (simp add: sm_receive_def sm_predicate_def sm_callback_def sm_handleMessageRequest_def control_target_def)
next
  case (Message_acknowledgement x)
  then show ?thesis
    using assms on_id_other [OF sm_reach_inv [OF assms(1)] assms(3)]
    by (simp add: sm_receive_def sm_predicate_def sm_callback_def sm_handleMessageAcknowledgement_def
        control_target_def)
qed (use assms in \<open>simp_all add: sm_receive_def sm_predicate_def\<close>)

theorem control_messages_routed_witness:
  "\<exists>m' :: nat StreamManager. sm_receive greatest_seq_pop (plain_message (Message_stream_reset \<lparr>msr_stream_id = Some 0\<rparr>))
     (snd (sm_create StreamManager_init)) = Some m' \<and>
   sm_heap m' 0 = sm_heap (snd (sm_create StreamManager_init)) 0"
proof -
  let ?m = "snd (sm_create (StreamManager_init :: nat StreamManager))"
  let ?msg = "plain_message (Message_stream_reset \<lparr>msr_stream_id = Some 0\<rparr>) :: nat ServerMessage"
  have "sm_reach greatest_seq_pop ?m"
    by (rule sm_reach.create [OF sm_reach.init, of "fst (sm_create StreamManager_init)"])
       (simp_all add: StreamManager_init_def prod_eq_iff)
  moreover have "sm_live ?m 0 0 0"
    by (simp add: sm_create_def StreamManager_init_def sm_live_def TypedStream_init_def)
  moreover have "sm_receive greatest_seq_pop ?msg ?m = Some ?m" "control_target ?msg \<noteq> Some 0"
    by (simp_all add: sm_receive_def sm_predicate_def plain_message_def control_target_def)
  ultimately show ?thesis using control_messages_routed [of greatest_seq_pop ?m ?msg ?m 0 0 0] by blast
qed

end
