(* ===== verification/OC_Blocks.thy ===== *)
theory OC_Blocks
  imports OC_Prelude
begin

text \<open>
  File blocks: where on which storage a byte range of a file lies (\<open>src/messages/fuse/fileBlock.h\<close>),
  and the maps from byte ranges to blocks. The maps are \<open>boost::icl::interval_map\<close>, a third-party
  container; its operations are a record passed to the definitions that use it, and the locale
  states what its documentation promises.
\<close>

record FileBlock =
  fb_storageId :: storage_id
  fb_fileId :: file_id

definition FileBlock_plus :: "FileBlock \<Rightarrow> FileBlock \<Rightarrow> FileBlock" where
  "FileBlock_plus a other =
     (if fb_fileId a = [] \<or> fb_storageId a = []
      then a\<lparr>fb_fileId := fb_fileId other, fb_storageId := fb_storageId other\<rparr> else a)"

text \<open>
  A right-open interval of offsets is the pair of its bounds. Their intersection and size are those
  of the sets of offsets.
\<close>

type_synonym interval = "off_t \<times> off_t"

definition interval_meet :: "interval \<Rightarrow> interval \<Rightarrow> interval" where
  "interval_meet i j = (max (fst i) (fst j), min (snd i) (snd j))"

definition interval_size :: "interval \<Rightarrow> int" where
  "interval_size i = max 0 (snd i - fst i)"

definition interval_mem :: "off_t \<Rightarrow> interval \<Rightarrow> bool" where
  "interval_mem x i \<longleftrightarrow> fst i \<le> x \<and> x < snd i"

text \<open>
  An interval map iterates over its segments in ascending order. \<open>find\<close> and \<open>lower_bound\<close> of a
  point are the segment that contains it and the first that does not end before it, \<open>last\<close> the
  greatest offset in the map.
\<close>

type_synonym segment = "interval \<times> FileBlock"

record 'm icl =
  icl_empty :: 'm
  icl_add :: "'m \<Rightarrow> segment \<Rightarrow> 'm"
  icl_plus :: "'m \<Rightarrow> 'm \<Rightarrow> 'm"
  icl_meet :: "'m \<Rightarrow> interval \<Rightarrow> 'm"
  icl_segments :: "'m \<Rightarrow> segment list"

definition icl_find :: "'m icl \<Rightarrow> 'm \<Rightarrow> off_t \<Rightarrow> segment option" where
  "icl_find I m x = find (\<lambda>(i, _). interval_mem x i) (icl_segments I m)"

definition icl_lower_bound :: "'m icl \<Rightarrow> 'm \<Rightarrow> off_t \<Rightarrow> segment option" where
  "icl_lower_bound I m x = find (\<lambda>(i, _). x < snd i) (icl_segments I m)"

definition icl_last :: "'m icl \<Rightarrow> 'm \<Rightarrow> off_t option" where
  "icl_last I m = (case icl_segments I m of [] \<Rightarrow> None | _ \<Rightarrow> Some (snd (fst (last (icl_segments I m))) - 1))"

text \<open>The block a map has at an offset.\<close>

definition icl_at :: "'m icl \<Rightarrow> 'm \<Rightarrow> off_t \<Rightarrow> FileBlock option" where
  "icl_at I m x = map_option snd (icl_find I m x)"

definition segments_ok :: "segment list \<Rightarrow> bool" where
  "segments_ok ss \<longleftrightarrow> (\<forall>s \<in> set ss. fst (fst s) < snd (fst s)) \<and>
     sorted_wrt (\<lambda>s t. snd (fst s) \<le> fst (fst t)) ss"

text \<open>
  The contract: segments are non-empty, disjoint and ascending; adding combines the blocks of the
  common offsets with \<open>+=\<close>, and an empty interval adds nothing; intersecting restricts the map.
\<close>

definition combine_at :: "FileBlock option \<Rightarrow> FileBlock option \<Rightarrow> FileBlock option" where
  "combine_at a b = (case a of None \<Rightarrow> b | Some v \<Rightarrow> (case b of None \<Rightarrow> Some v | Some w \<Rightarrow> Some (FileBlock_plus v w)))"

locale interval_map =
  fixes I :: "'m icl"
  assumes segments_ok: "segments_ok (icl_segments I m)"
    and at_empty: "icl_at I (icl_empty I) x = None"
    and at_add: "icl_at I (icl_add I m (i, v)) x =
      (if interval_mem x i then combine_at (icl_at I m x) (Some v) else icl_at I m x)"
    and at_plus: "icl_at I (icl_plus I m n) x = combine_at (icl_at I m x) (icl_at I n x)"
    and at_meet: "icl_at I (icl_meet I m i) x = (if interval_mem x i then icl_at I m x else None)"
begin

lemma segment_unique:
  assumes "(i, v) \<in> set (icl_segments I m)" and "interval_mem x i"
  shows "icl_find I m x = Some (i, v)"
proof -
  have "find (\<lambda>(i, _). interval_mem x i) ss = Some (i, v)"
    if "segments_ok ss" "(i, v) \<in> set ss" for ss
    using that
  proof (induction ss)
    case (Cons s ss)
    have ok: "segments_ok ss" using Cons.prems(1) by (simp add: segments_ok_def)
    show ?case
    proof (cases "s = (i, v)")
      case True
      then show ?thesis using assms(2) by simp
    next
      case False
      then have "(i, v) \<in> set ss" using Cons.prems(2) by auto
      moreover from this have "\<not> interval_mem x (fst s)"
        using Cons.prems(1) assms(2) by (auto simp: segments_ok_def interval_mem_def)
      ultimately show ?thesis using Cons.IH [OF ok] by (simp add: split_beta)
    qed
  qed simp
  then show ?thesis using segments_ok assms(1) by (simp add: icl_find_def)
qed

lemma at_segment:
  "icl_at I m x = Some v \<longleftrightarrow> (\<exists>i. (i, v) \<in> set (icl_segments I m) \<and> interval_mem x i)"
proof
  assume "icl_at I m x = Some v"
  then obtain i where "icl_find I m x = Some (i, v)" by (auto simp: icl_at_def)
  then have "(i, v) \<in> set (icl_segments I m) \<and> interval_mem x i"
    by (auto simp: icl_find_def find_Some_iff in_set_conv_nth)
  then show "\<exists>i. (i, v) \<in> set (icl_segments I m) \<and> interval_mem x i" by blast
next
  assume "\<exists>i. (i, v) \<in> set (icl_segments I m) \<and> interval_mem x i"
  then show "icl_at I m x = Some v" using segment_unique by (auto simp: icl_at_def)
qed

lemma last_at:
  assumes "icl_last I m = Some y"
  shows "icl_at I m y \<noteq> None" "\<And>x. y < x \<Longrightarrow> icl_at I m x = None"
proof -
  let ?ss = "icl_segments I m"
  have ne: "?ss \<noteq> []" and y: "y = snd (fst (last ?ss)) - 1"
    using assms by (auto simp: icl_last_def split: list.splits)
  obtain i v where l: "last ?ss = (i, v)" "(i, v) \<in> set ?ss"
    using ne by (metis last_in_set surj_pair)
  then have "fst i < snd i" using segments_ok [of m] by (auto simp: segments_ok_def)
  then have "interval_mem y i" using y l by (simp add: interval_mem_def)
  then show "icl_at I m y \<noteq> None" using at_segment l(2) by blast
  show "icl_at I m x = None" if "y < x" for x
  proof (rule ccontr)
    assume "icl_at I m x \<noteq> None"
    then obtain j w where j: "(j, w) \<in> set ?ss" "interval_mem x j" using at_segment by fastforce
    have "(j, w) = last ?ss \<or> snd j \<le> fst i"
    proof -
      have s: "?ss = butlast ?ss @ [(i, v)]" using ne l(1) by (metis append_butlast_last_id)
      have "sorted_wrt (\<lambda>s t. snd (fst s) \<le> fst (fst t)) (butlast ?ss @ [(i, v)])"
        using segments_ok [of m] s unfolding segments_ok_def by simp
      moreover have "(j, w) \<in> set (butlast ?ss) \<or> (j, w) = (i, v)"
        using j(1) s by (metis Un_iff empty_iff list.set(1) list.set(2) insertE set_append)
      ultimately show ?thesis using l(1) by (fastforce simp: sorted_wrt_append)
    qed
    then show False using that j(2) y l(1) \<open>fst i < snd i\<close> by (auto simp: interval_mem_def)
  qed
qed

lemma last_None: "icl_last I m = None \<longleftrightarrow> (\<forall>x. icl_at I m x = None)"
proof
  assume "icl_last I m = None"
  then have "icl_segments I m = []" by (simp add: icl_last_def split: list.splits)
  then show "\<forall>x. icl_at I m x = None" by (simp add: icl_at_def icl_find_def)
qed (metis last_at(1) option.exhaust)

end

text \<open>
  A model of the contract, so that it is not vacuous: a finite list of offsets with their blocks,
  iterated as segments of length one.
\<close>

type_synonym point_map = "(off_t \<times> FileBlock) list"

definition pm_plus :: "point_map \<Rightarrow> point_map \<Rightarrow> point_map" where
  "pm_plus m n = map (\<lambda>x. (x, the (combine_at (map_of m x) (map_of n x)))) (map fst m @ map fst n)"

definition pm_icl :: "point_map icl" where
  "pm_icl = \<lparr>icl_empty = [],
     icl_add = (\<lambda>m (i, v). pm_plus m (map (\<lambda>x. (x, v)) [fst i..snd i - 1])),
     icl_plus = pm_plus,
     icl_meet = (\<lambda>m i. filter (\<lambda>p. interval_mem (fst p) i) m),
     icl_segments = (\<lambda>m. map (\<lambda>x. ((x, x + 1), the (map_of m x))) (sorted_list_of_set (fst ` set m)))\<rparr>"

lemma find_unit_segment:
  "find (\<lambda>(i, _). interval_mem x i) (map (\<lambda>y. ((y, y + 1), f y)) ys) =
     (if x \<in> set ys then Some ((x, x + 1), f x) else None)"
  by (induction ys) (auto simp: interval_mem_def)

lemma pm_at: "icl_at pm_icl m x = map_of m x"
proof (cases "map_of m x")
  case None
  then have "x \<notin> fst ` set m" by (simp add: map_of_eq_None_iff)
  then show ?thesis
    using None by (simp add: icl_at_def icl_find_def pm_icl_def find_unit_segment)
next
  case (Some v)
  then have "x \<in> fst ` set m" by (metis domI dom_map_of_conv_image_fst)
  then show ?thesis
    using Some by (simp add: icl_at_def icl_find_def pm_icl_def find_unit_segment)
qed

lemma map_of_pm_plus: "map_of (pm_plus m n) x = combine_at (map_of m x) (map_of n x)"
proof -
  have "map_of (pm_plus m n) x =
      (if x \<in> set (map fst m @ map fst n) then Some (the (combine_at (map_of m x) (map_of n x))) else None)"
    unfolding pm_plus_def map_of_map_restrict by (simp add: restrict_map_def)
  moreover have "x \<in> set (map fst m) \<longleftrightarrow> map_of m x \<noteq> None" "x \<in> set (map fst n) \<longleftrightarrow> map_of n x \<noteq> None"
    by (simp_all add: map_of_eq_None_iff)
  ultimately show ?thesis by (auto simp: combine_at_def split: option.splits)
qed

lemma map_of_interval: "map_of (map (\<lambda>x. (x, v)) [a..b - 1]) x = (if a \<le> x \<and> x < b then Some v else None)"
  unfolding map_of_map_restrict by (simp add: restrict_map_def)

lemma map_of_filter_fst: "map_of (filter (\<lambda>p. P (fst p)) m) x = (if P x then map_of m x else None)"
  by (induction m) auto

interpretation pm: interval_map pm_icl
proof
  fix m :: point_map
  show "segments_ok (icl_segments pm_icl m)"
    by (auto simp: segments_ok_def pm_icl_def sorted_wrt_map
        intro: sorted_wrt_mono_rel [OF _ strict_sorted_list_of_set])
next
  fix m n :: point_map and i v x
  show "icl_at pm_icl (icl_empty pm_icl) x = None"
    by (simp only: pm_at) (simp add: pm_icl_def)
  show "icl_at pm_icl (icl_add pm_icl m (i, v)) x =
      (if interval_mem x i then combine_at (icl_at pm_icl m x) (Some v) else icl_at pm_icl m x)"
    by (simp only: pm_at)
       (auto simp: pm_icl_def map_of_pm_plus map_of_interval interval_mem_def combine_at_def split: option.split)
  show "icl_at pm_icl (icl_plus pm_icl m n) x = combine_at (icl_at pm_icl m x) (icl_at pm_icl n x)"
    by (simp only: pm_at) (simp add: pm_icl_def map_of_pm_plus)
  show "icl_at pm_icl (icl_meet pm_icl m i) x = (if interval_mem x i then icl_at pm_icl m x else None)"
    by (simp only: pm_at) (simp add: pm_icl_def map_of_filter_fst [where P = "\<lambda>y. interval_mem y i"])
qed

end
