(* ===== verification/OC_FuseMessages.thy ===== *)
theory OC_FuseMessages
  imports OC_Blocks
begin

text \<open>
  The metadata messages of the FUSE protocol the client keeps state in: a file's attributes
  (\<open>src/messages/fuse/fileAttr\<close>), its location on the storages (\<open>fileLocation\<close>) and the entries of
  a rename (\<open>fileRenamedEntry\<close>), with their deserialisation and aggregation.
\<close>

section \<open>Protocol messages\<close>

text \<open>
  The protobuf messages as records, optional fields as options. \<open>from_time_t\<close> turns seconds into
  the nanosecond ticks of \<open>std::chrono::system_clock\<close>.
\<close>

type_synonym time_point = int

definition from_time_t :: "int \<Rightarrow> time_point" where
  "from_time_t t = t * 1000000000"

definition EPROTO :: errno where "EPROTO = 71"

datatype proto_FileType = REG | DIR | LNK | OtherFileType

record proto_FileAttr =
  pa_uuid :: uuid
  pa_name :: string
  pa_mode :: "32 word"
  pa_uid :: "32 word"
  pa_gid :: "32 word"
  pa_atime :: int
  pa_mtime :: int
  pa_ctime :: int
  pa_type :: proto_FileType
  pa_size :: "off_t option"

record proto_FileBlock =
  pb_offset :: off_t
  pb_size :: int
  pb_file_id :: "file_id option"
  pb_storage_id :: "storage_id option"

record proto_FileLocation =
  pl_uuid :: uuid
  pl_space_id :: string
  pl_storage_id :: storage_id
  pl_file_id :: file_id
  pl_blocks :: "proto_FileBlock list"
  pl_handle_id :: "string option"

section \<open>File attributes\<close>

datatype FileType = regular | directory | link

record FileAttr =
  fa_uuid :: uuid
  fa_name :: string
  fa_mode :: "32 word"
  fa_uid :: "32 word"
  fa_gid :: "32 word"
  fa_atime :: time_point
  fa_mtime :: time_point
  fa_ctime :: time_point
  fa_type :: FileType
  fa_size :: "off_t option"

definition FileAttr_deserialize :: "proto_FileAttr \<Rightarrow> FileAttr res" where
  "FileAttr_deserialize message =
     (let attr = (\<lambda>t. \<lparr>fa_uuid = pa_uuid message, fa_name = pa_name message, fa_mode = pa_mode message,
            fa_uid = pa_uid message, fa_gid = pa_gid message,
            fa_atime = from_time_t (pa_atime message), fa_mtime = from_time_t (pa_mtime message),
            fa_ctime = from_time_t (pa_ctime message), fa_type = t, fa_size = pa_size message\<rparr>)
      in case pa_type message of
           DIR \<Rightarrow> Inr (attr directory)
         | REG \<Rightarrow> Inr (attr regular)
         | LNK \<Rightarrow> Inr (attr link)
         | OtherFileType \<Rightarrow> Inl (SystemError EPROTO))"

text \<open>The constructor from a server message: the response body must be a \<open>file_attr\<close>.\<close>

definition FileAttr_of_response :: "proto_FileAttr option \<Rightarrow> FileAttr res" where
  "FileAttr_of_response r = (case r of None \<Rightarrow> Inl (SystemError EPROTO) | Some m \<Rightarrow> FileAttr_deserialize m)"

definition FileAttr_aggregate :: "FileAttr \<Rightarrow> FileAttr \<Rightarrow> FileAttr" where
  "FileAttr_aggregate a fileAttr =
     a\<lparr>fa_mode := fa_mode fileAttr, fa_uid := fa_uid fileAttr, fa_gid := fa_gid fileAttr,
       fa_atime := fa_atime fileAttr, fa_mtime := fa_mtime fileAttr, fa_ctime := fa_ctime fileAttr,
       fa_size := fa_size fileAttr, fa_type := fa_type fileAttr\<rparr>"

section \<open>File location\<close>

record 'm FileLocation =
  fl_uuid :: uuid
  fl_spaceId :: string
  fl_storageId :: storage_id
  fl_fileId :: file_id
  fl_blocks :: 'm
  fl_handleId :: "string option"

definition FileLocation_default :: "'m icl \<Rightarrow> 'm FileLocation" where
  "FileLocation_default I = \<lparr>fl_uuid = [], fl_spaceId = [], fl_storageId = [], fl_fileId = [],
     fl_blocks = icl_empty I, fl_handleId = None\<rparr>"

definition block_segment :: "file_id \<Rightarrow> storage_id \<Rightarrow> proto_FileBlock \<Rightarrow> segment" where
  "block_segment fileId storageId block =
     ((pb_offset block, pb_offset block + pb_size block),
      \<lparr>fb_storageId = (case pb_storage_id block of Some s \<Rightarrow> s | None \<Rightarrow> storageId),
       fb_fileId = (case pb_file_id block of Some f \<Rightarrow> f | None \<Rightarrow> fileId)\<rparr>)"

definition FileLocation_deserialize :: "'m icl \<Rightarrow> proto_FileLocation \<Rightarrow> 'm FileLocation" where
  "FileLocation_deserialize I message =
     \<lparr>fl_uuid = pl_uuid message, fl_spaceId = pl_space_id message,
      fl_storageId = pl_storage_id message, fl_fileId = pl_file_id message,
      fl_blocks = fold (\<lambda>block m. icl_add I m
          (block_segment (pl_file_id message) (pl_storage_id message) block))
        (pl_blocks message) (icl_empty I),
      fl_handleId = pl_handle_id message\<rparr>"

definition FileLocation_of_response :: "'m icl \<Rightarrow> proto_FileLocation option \<Rightarrow> 'm FileLocation res" where
  "FileLocation_of_response I r =
     (case r of None \<Rightarrow> Inl (SystemError EPROTO) | Some m \<Rightarrow> Inr (FileLocation_deserialize I m))"

definition FileLocation_aggregate :: "'m FileLocation \<Rightarrow> 'm FileLocation \<Rightarrow> 'm FileLocation" where
  "FileLocation_aggregate l fileLocation =
     l\<lparr>fl_storageId := fl_storageId fileLocation, fl_fileId := fl_fileId fileLocation,
       fl_blocks := fl_blocks fileLocation\<rparr>"

section \<open>Rename entries\<close>

record FileRenamedEntry =
  fre_oldUuid :: uuid
  fre_newUuid :: uuid
  fre_newPath :: path

record proto_FileRenamedEntry =
  pr_old_uuid :: uuid
  pr_new_uuid :: uuid
  pr_new_path :: path

definition FileRenamedEntry_of :: "proto_FileRenamedEntry \<Rightarrow> FileRenamedEntry" where
  "FileRenamedEntry_of message =
     \<lparr>fre_oldUuid = pr_old_uuid message, fre_newUuid = pr_new_uuid message, fre_newPath = pr_new_path message\<rparr>"

definition fillProtocolMessage :: "FileRenamedEntry \<Rightarrow> proto_FileRenamedEntry" where
  "fillProtocolMessage e =
     \<lparr>pr_old_uuid = fre_oldUuid e, pr_new_uuid = fre_newUuid e, pr_new_path = fre_newPath e\<rparr>"

section \<open>Lemmas\<close>

lemma FileRenamedEntry_inverse [simp]:
  "FileRenamedEntry_of (fillProtocolMessage e) = e" "fillProtocolMessage (FileRenamedEntry_of m) = m"
  by (simp_all add: FileRenamedEntry_of_def fillProtocolMessage_def)

text \<open>The first block of a message that covers an offset and knows its file and storage wins.\<close>

fun first_block :: "segment list \<Rightarrow> off_t \<Rightarrow> FileBlock option" where
  "first_block [] x = None"
| "first_block (s # ss) x =
     (if interval_mem x (fst s) then combine_at (Some (snd s)) (first_block ss x) else first_block ss x)"

lemma FileBlock_plus_assoc: "FileBlock_plus (FileBlock_plus a b) c = FileBlock_plus a (FileBlock_plus b c)"
  by (simp add: FileBlock_plus_def)

lemma combine_at_assoc: "combine_at (combine_at a b) c = combine_at a (combine_at b c)"
  by (cases a; cases b; cases c) (simp_all add: combine_at_def FileBlock_plus_assoc)

lemma combine_at_None [simp]: "combine_at None b = b" "combine_at a None = a"
  by (simp_all add: combine_at_def split: option.split)

context interval_map
begin

lemma at_fold_add:
  "icl_at I (fold (\<lambda>b m. icl_add I m (f b)) bs m) x = combine_at (icl_at I m x) (first_block (map f bs) x)"
proof (induction bs arbitrary: m)
  case (Cons b bs)
  obtain i v where f: "f b = (i, v)" by (cases "f b")
  show ?case
    by (simp add: Cons.IH f at_add combine_at_assoc)
qed simp

end

end
