(* ===== verification/OC_EventTypes.thy ===== *)
theory OC_EventTypes
  imports OC_FuseMessages
begin

text \<open>
  The events the client emits or receives (\<open>src/events/types\<close>) and the subscriptions for them
  (\<open>src/events/subscriptions\<close>): construction, aggregation and serialisation.
\<close>

section \<open>Protocol messages\<close>

text \<open>
  The counter of an event message has 32 bits (\<open>uint32 counter\<close> in \<open>event_messages.proto\<close>), the
  counters the client keeps have 64.
\<close>

datatype proto_event_object =
    Read_event uuid uint64 "proto_FileBlock list"
  | Write_event uuid "off_t option" uint64 "proto_FileBlock list"
  | Permission_changed_event uuid
  | File_removal_event uuid
  | Quota_exeeded_event
  | File_renamed_event proto_FileRenamedEntry "proto_FileRenamedEntry list"
  | File_accessed_event uuid uint64 uint64

record proto_Event =
  pe_counter :: "32 word"
  pe_object :: proto_event_object

section \<open>Events\<close>

record 'm ReadEvent =
  re_counter :: uint64
  re_fileUuid :: uuid
  re_size :: uint64
  re_blocks :: 'm

definition ReadEvent_new :: "'m icl \<Rightarrow> off_t \<Rightarrow> uint64 \<Rightarrow> uuid \<Rightarrow> storage_id \<Rightarrow> file_id \<Rightarrow> 'm ReadEvent" where
  "ReadEvent_new I offset sz fileUuid storageId fileId =
     \<lparr>re_counter = 1, re_fileUuid = fileUuid, re_size = sz,
      re_blocks = icl_add I (icl_empty I) ((offset, offset + uint sz),
        \<lparr>fb_storageId = storageId, fb_fileId = fileId\<rparr>)\<rparr>"

definition ReadEvent_aggregate :: "'m icl \<Rightarrow> 'm ReadEvent \<Rightarrow> 'm ReadEvent \<Rightarrow> 'm ReadEvent" where
  "ReadEvent_aggregate I e event =
     e\<lparr>re_counter := re_counter e + re_counter event, re_size := re_size e + re_size event,
       re_blocks := icl_plus I (re_blocks e) (re_blocks event)\<rparr>"

definition segment_block :: "segment \<Rightarrow> proto_FileBlock" where
  "segment_block s = \<lparr>pb_offset = fst (fst s), pb_size = snd (fst s) - fst (fst s),
     pb_file_id = Some (fb_fileId (snd s)), pb_storage_id = Some (fb_storageId (snd s))\<rparr>"

definition ReadEvent_serialize :: "'m icl \<Rightarrow> 'm ReadEvent \<Rightarrow> proto_Event" where
  "ReadEvent_serialize I e =
     \<lparr>pe_counter = ucast (re_counter e),
      pe_object = Read_event (re_fileUuid e) (re_size e) (map segment_block (icl_segments I (re_blocks e)))\<rparr>"

record 'm WriteEvent =
  we_counter :: uint64
  we_fileUuid :: uuid
  we_size :: uint64
  we_fileSize :: "off_t option"
  we_blocks :: 'm

definition WriteEvent_new :: "'m icl \<Rightarrow> off_t \<Rightarrow> uint64 \<Rightarrow> off_t option \<Rightarrow> uuid \<Rightarrow> storage_id \<Rightarrow> file_id \<Rightarrow> 'm WriteEvent" where
  "WriteEvent_new I offset sz fileSize fileUuid storageId fileId =
     \<lparr>we_counter = 1, we_fileUuid = fileUuid, we_size = sz, we_fileSize = fileSize,
      we_blocks = icl_add I (icl_empty I) ((offset, offset + uint sz),
        \<lparr>fb_storageId = storageId, fb_fileId = fileId\<rparr>)\<rparr>"

text \<open>
  \<open>boost::icl::last\<close> of an empty map has no meaning; the aggregation that asks for it is a null
  dereference.
\<close>

definition WriteEvent_fileSize :: "'m icl \<Rightarrow> 'm WriteEvent \<Rightarrow> 'm WriteEvent \<Rightarrow> off_t option res" where
  "WriteEvent_fileSize I e event =
     (case we_fileSize event of
        Some n \<Rightarrow> Inr (Some n)
      | None \<Rightarrow>
          (case we_fileSize e of
             None \<Rightarrow> Inr None
           | Some n \<Rightarrow>
               (case icl_last I (we_blocks event) of
                  None \<Rightarrow> Inl NullDereference
                | Some l \<Rightarrow> Inr (Some (if n < l + 1 then l + 1 else n)))))"

definition WriteEvent_aggregate :: "'m icl \<Rightarrow> 'm WriteEvent \<Rightarrow> 'm WriteEvent \<Rightarrow> 'm WriteEvent res" where
  "WriteEvent_aggregate I e event =
     (case WriteEvent_fileSize I e event of
        Inl x \<Rightarrow> Inl x
      | Inr fs \<Rightarrow> Inr (e\<lparr>we_counter := we_counter e + we_counter event, we_size := we_size e + we_size event,
                       we_fileSize := fs, we_blocks := icl_plus I (we_blocks e) (we_blocks event)\<rparr>))"

definition WriteEvent_serialize :: "'m icl \<Rightarrow> 'm WriteEvent \<Rightarrow> proto_Event" where
  "WriteEvent_serialize I e =
     (let blocks = (case we_fileSize e of None \<Rightarrow> we_blocks e | Some n \<Rightarrow> icl_meet I (we_blocks e) (0, n))
      in \<lparr>pe_counter = ucast (we_counter e),
          pe_object = Write_event (we_fileUuid e) (we_fileSize e) (we_size e)
            (map segment_block (icl_segments I blocks))\<rparr>)"

record FileAccessedEvent =
  ae_counter :: uint64
  ae_fileUuid :: uuid
  ae_openCount :: uint64
  ae_releaseCount :: uint64

definition FileAccessedEvent_new :: "uuid \<Rightarrow> uint64 \<Rightarrow> uint64 \<Rightarrow> FileAccessedEvent" where
  "FileAccessedEvent_new fileUuid openCount releaseCount =
     \<lparr>ae_counter = 1, ae_fileUuid = fileUuid, ae_openCount = openCount, ae_releaseCount = releaseCount\<rparr>"

definition FileAccessedEvent_aggregate :: "FileAccessedEvent \<Rightarrow> FileAccessedEvent \<Rightarrow> FileAccessedEvent" where
  "FileAccessedEvent_aggregate e event =
     e\<lparr>ae_counter := ae_counter e + ae_counter event, ae_openCount := ae_openCount e + ae_openCount event,
       ae_releaseCount := ae_releaseCount e + ae_releaseCount event\<rparr>"

definition FileAccessedEvent_serialize :: "FileAccessedEvent \<Rightarrow> proto_Event" where
  "FileAccessedEvent_serialize e =
     \<lparr>pe_counter = ucast (ae_counter e),
      pe_object = File_accessed_event (ae_fileUuid e) (ae_openCount e) (ae_releaseCount e)\<rparr>"

text \<open>\<open>FileRemovalEvent\<close> and \<open>PermissionChangedEvent\<close> carry a file only.\<close>

record FileRemovalEvent =
  fe_counter :: uint64
  fe_fileUuid :: uuid

definition FileRemovalEvent_new :: "uuid \<Rightarrow> FileRemovalEvent" where
  "FileRemovalEvent_new fileUuid = \<lparr>fe_counter = 1, fe_fileUuid = fileUuid\<rparr>"

definition FileRemovalEvent_aggregate :: "FileRemovalEvent \<Rightarrow> FileRemovalEvent \<Rightarrow> FileRemovalEvent" where
  "FileRemovalEvent_aggregate e event = e\<lparr>fe_counter := fe_counter e + fe_counter event\<rparr>"

definition FileRemovalEvent_serialize :: "FileRemovalEvent \<Rightarrow> proto_Event" where
  "FileRemovalEvent_serialize e =
     \<lparr>pe_counter = ucast (fe_counter e), pe_object = File_removal_event (fe_fileUuid e)\<rparr>"

record PermissionChangedEvent =
  pce_counter :: uint64
  pce_fileUuid :: uuid

definition PermissionChangedEvent_new :: "uuid \<Rightarrow> PermissionChangedEvent" where
  "PermissionChangedEvent_new fileUuid = \<lparr>pce_counter = 1, pce_fileUuid = fileUuid\<rparr>"

definition PermissionChangedEvent_aggregate :: "PermissionChangedEvent \<Rightarrow> PermissionChangedEvent \<Rightarrow> PermissionChangedEvent" where
  "PermissionChangedEvent_aggregate e event = e\<lparr>pce_counter := pce_counter e + pce_counter event\<rparr>"

definition PermissionChangedEvent_serialize :: "PermissionChangedEvent \<Rightarrow> proto_Event" where
  "PermissionChangedEvent_serialize e =
     \<lparr>pe_counter = ucast (pce_counter e), pe_object = Permission_changed_event (pce_fileUuid e)\<rparr>"

record FileRenamedEvent =
  fne_counter :: uint64
  fne_topEntry :: FileRenamedEntry
  fne_childEntries :: "FileRenamedEntry list"

definition FileRenamedEvent_new :: "proto_FileRenamedEntry \<Rightarrow> proto_FileRenamedEntry list \<Rightarrow> FileRenamedEvent" where
  "FileRenamedEvent_new topMsg children =
     \<lparr>fne_counter = 1, fne_topEntry = FileRenamedEntry_of topMsg, fne_childEntries = map FileRenamedEntry_of children\<rparr>"

definition FileRenamedEvent_aggregate :: "FileRenamedEvent \<Rightarrow> FileRenamedEvent \<Rightarrow> FileRenamedEvent" where
  "FileRenamedEvent_aggregate e event = e\<lparr>fne_counter := fne_counter e + fne_counter event\<rparr>"

definition FileRenamedEvent_serialize :: "FileRenamedEvent \<Rightarrow> proto_Event" where
  "FileRenamedEvent_serialize e =
     \<lparr>pe_counter = ucast (fne_counter e),
      pe_object = File_renamed_event (fillProtocolMessage (fne_topEntry e))
        (map fillProtocolMessage (fne_childEntries e))\<rparr>"

record QuotaExeededEvent =
  qe_counter :: uint64
  qe_spaces :: "string list"

definition QuotaExeededEvent_new :: "string list \<Rightarrow> QuotaExeededEvent" where
  "QuotaExeededEvent_new spaces = \<lparr>qe_counter = 1, qe_spaces = spaces\<rparr>"

definition QuotaExeededEvent_aggregate :: "QuotaExeededEvent \<Rightarrow> QuotaExeededEvent \<Rightarrow> QuotaExeededEvent" where
  "QuotaExeededEvent_aggregate e event = e\<lparr>qe_spaces := qe_spaces event\<rparr>"

definition QuotaExeededEvent_serialize :: "QuotaExeededEvent \<Rightarrow> proto_Event" where
  "QuotaExeededEvent_serialize e = \<lparr>pe_counter = ucast (qe_counter e), pe_object = Quota_exeeded_event\<rparr>"

text \<open>\<open>UpdateEvent\<close> wraps attributes or a location; the aggregation is that of what it wraps.\<close>

record 'w UpdateEvent =
  ue_counter :: uint64
  ue_wrapped :: 'w

definition UpdateEvent_new :: "'w \<Rightarrow> 'w UpdateEvent" where
  "UpdateEvent_new w = \<lparr>ue_counter = 1, ue_wrapped = w\<rparr>"

definition UpdateEvent_aggregate :: "('w \<Rightarrow> 'w \<Rightarrow> 'w) \<Rightarrow> 'w UpdateEvent \<Rightarrow> 'w UpdateEvent \<Rightarrow> 'w UpdateEvent" where
  "UpdateEvent_aggregate agg e event =
     e\<lparr>ue_counter := ue_counter e + ue_counter event, ue_wrapped := agg (ue_wrapped e) (ue_wrapped event)\<rparr>"

section \<open>Subscriptions\<close>

record Subscription =
  sub_id :: int64
  sub_counterThreshold :: "uint64 option"
  sub_timeThreshold :: "int option"
  sub_sizeThreshold :: "uint64 option"

definition Subscription_empty :: "Subscription \<Rightarrow> bool" where
  "Subscription_empty s \<longleftrightarrow>
     sub_counterThreshold s = None \<and> sub_timeThreshold s = None \<and> sub_sizeThreshold s = None"

text \<open>The thresholds of the protocol's subscription messages have 32 bits.\<close>

record proto_thresholds =
  pt_counter :: "32 word option"
  pt_time :: "32 word option"
  pt_size :: "32 word option"

definition ReadSubscription_of :: "int64 \<Rightarrow> proto_thresholds \<Rightarrow> Subscription" where
  "ReadSubscription_of i message =
     \<lparr>sub_id = i, sub_counterThreshold = map_option ucast (pt_counter message),
      sub_timeThreshold = map_option uint (pt_time message),
      sub_sizeThreshold = map_option ucast (pt_size message)\<rparr>"

definition WriteSubscription_of :: "int64 \<Rightarrow> proto_thresholds \<Rightarrow> Subscription" where
  "WriteSubscription_of i message =
     \<lparr>sub_id = i, sub_counterThreshold = map_option ucast (pt_counter message),
      sub_timeThreshold = map_option uint (pt_time message),
      sub_sizeThreshold = map_option ucast (pt_size message)\<rparr>"

definition FileAccessedSubscription_of :: "int64 \<Rightarrow> proto_thresholds \<Rightarrow> Subscription" where
  "FileAccessedSubscription_of i message =
     \<lparr>sub_id = i, sub_counterThreshold = map_option ucast (pt_counter message),
      sub_timeThreshold = map_option uint (pt_time message), sub_sizeThreshold = None\<rparr>"

definition FileAccessedSubscription_new :: "int64 \<Rightarrow> uint64 option \<Rightarrow> int option \<Rightarrow> Subscription" where
  "FileAccessedSubscription_new i counterThreshold timeThreshold =
     \<lparr>sub_id = i, sub_counterThreshold = counterThreshold, sub_timeThreshold = timeThreshold,
      sub_sizeThreshold = None\<rparr>"

text \<open>
  The subscriptions the client itself makes have a file; their id is set later. The wire form keeps
  the file, and the thresholds for attributes and locations only.
\<close>

record ClientSubscription =
  cs_fileUuid :: uuid
  cs_subscription :: Subscription

definition FileAttrSubscription_new :: "uuid \<Rightarrow> uint64 option \<Rightarrow> int option \<Rightarrow> ClientSubscription" where
  "FileAttrSubscription_new fileUuid counterThreshold timeThreshold =
     \<lparr>cs_fileUuid = fileUuid, cs_subscription = \<lparr>sub_id = 0, sub_counterThreshold = counterThreshold,
        sub_timeThreshold = timeThreshold, sub_sizeThreshold = None\<rparr>\<rparr>"

definition FileLocationSubscription_new :: "uuid \<Rightarrow> uint64 option \<Rightarrow> int option \<Rightarrow> ClientSubscription" where
  "FileLocationSubscription_new fileUuid counterThreshold timeThreshold =
     \<lparr>cs_fileUuid = fileUuid, cs_subscription = \<lparr>sub_id = 0, sub_counterThreshold = counterThreshold,
        sub_timeThreshold = timeThreshold, sub_sizeThreshold = None\<rparr>\<rparr>"

definition counted_subscription :: "uuid \<Rightarrow> uint64 \<Rightarrow> ClientSubscription" where
  "counted_subscription fileUuid counterThreshold =
     \<lparr>cs_fileUuid = fileUuid, cs_subscription = \<lparr>sub_id = 0, sub_counterThreshold = Some counterThreshold,
        sub_timeThreshold = None, sub_sizeThreshold = None\<rparr>\<rparr>"

definition FileRemovalSubscription_new :: "uuid \<Rightarrow> ClientSubscription" where
  "FileRemovalSubscription_new fileUuid = counted_subscription fileUuid 1"

definition FileRenamedSubscription_new :: "uuid \<Rightarrow> ClientSubscription" where
  "FileRenamedSubscription_new fileUuid = counted_subscription fileUuid 1"

definition PermissionChangedSubscription_new :: "uuid \<Rightarrow> ClientSubscription" where
  "PermissionChangedSubscription_new fileUuid = counted_subscription fileUuid 1"

definition QuotaSubscription_new :: ClientSubscription where
  "QuotaSubscription_new = counted_subscription [] 1"

datatype proto_subscription_object =
    File_attr_subscription uuid "32 word option" "32 word option"
  | File_location_subscription uuid "32 word option" "32 word option"
  | File_removal_subscription uuid
  | File_renamed_subscription uuid
  | Permission_changed_subscription uuid
  | Quota_subscription

definition FileAttrSubscription_serialize :: "ClientSubscription \<Rightarrow> int64 \<times> proto_subscription_object" where
  "FileAttrSubscription_serialize s =
     (sub_id (cs_subscription s),
      File_attr_subscription (cs_fileUuid s) (map_option ucast (sub_counterThreshold (cs_subscription s)))
        (map_option word_of_int (sub_timeThreshold (cs_subscription s))))"

definition FileLocationSubscription_serialize :: "ClientSubscription \<Rightarrow> int64 \<times> proto_subscription_object" where
  "FileLocationSubscription_serialize s =
     (sub_id (cs_subscription s),
      File_location_subscription (cs_fileUuid s) (map_option ucast (sub_counterThreshold (cs_subscription s)))
        (map_option word_of_int (sub_timeThreshold (cs_subscription s))))"

definition FileRemovalSubscription_serialize :: "ClientSubscription \<Rightarrow> int64 \<times> proto_subscription_object" where
  "FileRemovalSubscription_serialize s =
     (sub_id (cs_subscription s), File_removal_subscription (cs_fileUuid s))"

definition FileRenamedSubscription_serialize :: "ClientSubscription \<Rightarrow> int64 \<times> proto_subscription_object" where
  "FileRenamedSubscription_serialize s =
     (sub_id (cs_subscription s), File_renamed_subscription (cs_fileUuid s))"

definition PermissionChangedSubscription_serialize :: "ClientSubscription \<Rightarrow> int64 \<times> proto_subscription_object" where
  "PermissionChangedSubscription_serialize s =
     (sub_id (cs_subscription s), Permission_changed_subscription (cs_fileUuid s))"

definition QuotaSubscription_serialize :: "ClientSubscription \<Rightarrow> int64 \<times> proto_subscription_object" where
  "QuotaSubscription_serialize s = (sub_id (cs_subscription s), Quota_subscription)"

section \<open>Lemmas\<close>

text \<open>A sequence of events of one file that is aggregated into the first.\<close>

fun aggregate_writes :: "'m icl \<Rightarrow> 'm WriteEvent \<Rightarrow> 'm WriteEvent list \<Rightarrow> 'm WriteEvent res" where
  "aggregate_writes I e [] = Inr e"
| "aggregate_writes I e (x # xs) =
     (case WriteEvent_aggregate I e x of Inl err \<Rightarrow> Inl err | Inr e' \<Rightarrow> aggregate_writes I e' xs)"

text \<open>
  What the file size of the aggregate should be: none if no event set one; otherwise the last size
  set, extended by the writes after it.
\<close>

fun size_after :: "'m icl \<Rightarrow> off_t option \<Rightarrow> 'm WriteEvent list \<Rightarrow> off_t option" where
  "size_after I fs [] = fs"
| "size_after I fs (x # xs) =
     size_after I (case we_fileSize x of
         Some n \<Rightarrow> Some n
       | None \<Rightarrow> map_option (\<lambda>n. max n (the (icl_last I (we_blocks x)) + 1)) fs) xs"

lemma aggregate_writes_eq:
  assumes "\<And>x. x \<in> set xs \<Longrightarrow> we_fileSize x = None \<Longrightarrow> icl_last I (we_blocks x) \<noteq> None"
  shows "aggregate_writes I e xs = Inr
    (e\<lparr>we_counter := we_counter e + sum_list (map we_counter xs),
       we_size := we_size e + sum_list (map we_size xs),
       we_fileSize := size_after I (we_fileSize e) xs,
       we_blocks := foldl (icl_plus I) (we_blocks e) (map we_blocks xs)\<rparr>)"
  using assms
proof (induction xs arbitrary: e)
  case (Cons x xs)
  have x: "we_fileSize x = None \<Longrightarrow> \<exists>l. icl_last I (we_blocks x) = Some l" using Cons.prems [of x] by auto
  have fs: "WriteEvent_fileSize I e x = Inr (case we_fileSize x of Some n \<Rightarrow> Some n
      | None \<Rightarrow> map_option (\<lambda>n. max n (the (icl_last I (we_blocks x)) + 1)) (we_fileSize e))"
    using x by (cases "we_fileSize x") (auto simp: WriteEvent_fileSize_def split: option.splits)
  show ?case
    using Cons.IH Cons.prems by (simp add: WriteEvent_aggregate_def fs add.assoc)
qed simp

context interval_map
begin

lemma at_foldl_plus:
  "icl_at I (foldl (icl_plus I) m ms) x = None \<longleftrightarrow> icl_at I m x = None \<and> (\<forall>n \<in> set ms. icl_at I n x = None)"
  by (induction ms arbitrary: m) (auto simp: at_plus combine_at_def split: option.splits)

lemma first_block_segments:
  "segments_ok ss \<Longrightarrow> first_block ss x = map_option snd (find (\<lambda>(i, _). interval_mem x i) ss)"
proof (induction ss)
  case (Cons s ss)
  obtain i v where s: "s = (i, v)" by (cases s)
  have ok: "segments_ok ss" using Cons.prems by (simp add: segments_ok_def)
  have "find (\<lambda>(i, _). interval_mem x i) ss = None" if "interval_mem x i"
    using Cons.prems that by (auto simp: find_None_iff segments_ok_def interval_mem_def s)
  then show ?case using Cons.IH [OF ok] s by simp
qed simp

end

section \<open>Properties\<close>

text \<open>
  C27. What the provider is told about a sequence of writes and truncations of a file that were
  aggregated: the blocks in the message are disjoint and ascending, they cover a byte exactly if
  some of the writes covered it and it lies within the final file size, and that size is the last
  one set by a truncation, extended by the writes after it.
\<close>

theorem aggregated_writes_reported:
  assumes map: "interval_map I"
    and nonempty: "\<And>w. w \<in> set ws \<Longrightarrow> we_fileSize w = None \<Longrightarrow> icl_last I (we_blocks w) \<noteq> None"
  shows "\<exists>e blocks. aggregate_writes I w ws = Inr e \<and>
    pe_object (WriteEvent_serialize I e) =
      Write_event (we_fileUuid w) (size_after I (we_fileSize w) ws) (we_size w + sum_list (map we_size ws))
        (map segment_block blocks) \<and>
    segments_ok blocks \<and>
    (\<forall>x. (\<exists>i v. (i, v) \<in> set blocks \<and> interval_mem x i) \<longleftrightarrow>
       (\<exists>u \<in> set (w # ws). icl_at I (we_blocks u) x \<noteq> None) \<and>
       (case size_after I (we_fileSize w) ws of None \<Rightarrow> True | Some n \<Rightarrow> 0 \<le> x \<and> x < n))"
proof -
  let ?fs = "size_after I (we_fileSize w) ws"
  let ?m = "foldl (icl_plus I) (we_blocks w) (map we_blocks ws)"
  let ?cut = "case ?fs of None \<Rightarrow> ?m | Some n \<Rightarrow> icl_meet I ?m (0, n)"
  have at: "icl_at I ?cut x \<noteq> None \<longleftrightarrow> (\<exists>u \<in> set (w # ws). icl_at I (we_blocks u) x \<noteq> None) \<and>
      (case ?fs of None \<Rightarrow> True | Some n \<Rightarrow> 0 \<le> x \<and> x < n)" for x
    using interval_map.at_foldl_plus [OF map, of "we_blocks w" "map we_blocks ws" x]
    by (auto simp: interval_map.at_meet [OF map] interval_mem_def split: option.splits)
  have seg: "(\<exists>i v. (i, v) \<in> set (icl_segments I ?cut) \<and> interval_mem x i) \<longleftrightarrow> icl_at I ?cut x \<noteq> None" for x
    using interval_map.at_segment [OF map, of ?cut x] by (cases "icl_at I ?cut x") blast+
  have e: "aggregate_writes I w ws = Inr (w\<lparr>we_counter := we_counter w + sum_list (map we_counter ws),
       we_size := we_size w + sum_list (map we_size ws), we_fileSize := ?fs, we_blocks := ?m\<rparr>)"
    by (rule aggregate_writes_eq [OF nonempty])
  show ?thesis
    unfolding e
    by (intro exI [of _ "icl_segments I ?cut"] exI conjI allI, rule refl)
       (simp_all only: seg at, simp_all add: WriteEvent_serialize_def Let_def interval_map.segments_ok [OF map]
         split: option.split)
qed

definition example_write :: "off_t \<Rightarrow> uint64 \<Rightarrow> off_t option \<Rightarrow> point_map WriteEvent" where
  "example_write off n fs = WriteEvent_new pm_icl off n fs ''u'' ''s'' ''f''"

lemma example_write_at:
  "icl_at pm_icl (we_blocks (example_write off n fs)) x \<noteq> None \<longleftrightarrow> off \<le> x \<and> x < off + uint n"
  by (simp add: example_write_def WriteEvent_new_def pm.at_add pm.at_empty interval_mem_def)

lemma example_write_last:
  assumes "0 < n"
  shows "icl_last pm_icl (we_blocks (example_write off n fs)) = Some (off + uint n - 1)"
proof -
  have n: "0 < uint n" using assms by (simp add: word_less_def)
  then have "icl_last pm_icl (we_blocks (example_write off n fs)) \<noteq> None"
    unfolding pm.last_None using example_write_at [of off n fs off] by auto
  then obtain y where y: "icl_last pm_icl (we_blocks (example_write off n fs)) = Some y" by auto
  have "off \<le> y \<and> y < off + uint n" using pm.last_at(1) [OF y] example_write_at by blast
  moreover have "\<not> y < off + uint n - 1"
    using pm.last_at(2) [OF y, of "off + uint n - 1"] n example_write_at [of off n fs "off + uint n - 1"] by auto
  ultimately show ?thesis using y by simp
qed

theorem aggregated_writes_reported_witness:
  "\<exists>e blocks. aggregate_writes pm_icl (example_write 0 100 None)
      [example_write 0 0 (Some 50), example_write 60 10 None] = Inr e \<and>
    pe_object (WriteEvent_serialize pm_icl e) = Write_event ''u'' (Some 70) 110 (map segment_block blocks) \<and>
    segments_ok blocks \<and>
    (\<forall>x. (\<exists>i v. (i, v) \<in> set blocks \<and> interval_mem x i) \<longleftrightarrow> 0 \<le> x \<and> x < 70)"
proof -
  let ?w = "example_write 0 100 None" and ?ws = "[example_write 0 0 (Some 50), example_write 60 10 None]"
  have f: "we_fileSize (example_write off n fs) = fs" "we_size (example_write off n fs) = n"
      "we_fileUuid (example_write off n fs) = ''u''" for off n fs
    by (simp_all add: example_write_def WriteEvent_new_def)
  have n: "\<And>w. w \<in> set ?ws \<Longrightarrow> we_fileSize w = None \<Longrightarrow> icl_last pm_icl (we_blocks w) \<noteq> None"
    by (auto simp: f example_write_last)
  have "(\<exists>u \<in> set (?w # ?ws). icl_at pm_icl (we_blocks u) x \<noteq> None) \<and> (0 \<le> x \<and> x < 70) \<longleftrightarrow>
      0 \<le> x \<and> x < 70" for x
    using example_write_at [of 0 100 None x] by auto
  then show ?thesis
    using aggregated_writes_reported [OF pm.interval_map_axioms, where w = ?w and ws = ?ws, OF n]
    by (simp add: f example_write_last)
qed

text \<open>
  C33. Round trip of the block lists: a location message that carries the blocks of a map, in the
  form the write events send them, deserialises to a map with the same block at every offset.
\<close>

theorem blocks_roundtrip:
  assumes map: "interval_map I" and "pl_blocks msg = map segment_block (icl_segments I m)"
  shows "icl_at I (fl_blocks (FileLocation_deserialize I msg)) x = icl_at I m x"
proof -
  have "block_segment f s (segment_block t) = t" for f s t
    by (cases t; cases "fst t") (simp add: block_segment_def segment_block_def)
  then have "map (block_segment (pl_file_id msg) (pl_storage_id msg)) (pl_blocks msg) = icl_segments I m"
    using assms(2) by (simp add: comp_def)
  then have "icl_at I (fl_blocks (FileLocation_deserialize I msg)) x = first_block (icl_segments I m) x"
    using interval_map.at_fold_add [OF map, of "block_segment (pl_file_id msg) (pl_storage_id msg)"
        "pl_blocks msg" "icl_empty I" x]
    by (simp add: FileLocation_deserialize_def interval_map.at_empty [OF map])
  then show ?thesis
    using interval_map.first_block_segments [OF map interval_map.segments_ok [OF map]]
    by (simp add: icl_at_def icl_find_def)
qed

theorem blocks_roundtrip_witness:
  "icl_at pm_icl (fl_blocks (FileLocation_deserialize pm_icl
     \<lparr>pl_uuid = ''u'', pl_space_id = [], pl_storage_id = ''s'', pl_file_id = ''f'',
      pl_blocks = map segment_block (icl_segments pm_icl (we_blocks (example_write 3 4 None))),
      pl_handle_id = None\<rparr>)) 5 \<noteq> None"
  using example_write_at [of 3 4 None 5] by (subst blocks_roundtrip [OF pm.interval_map_axioms]) simp_all

text \<open>
  Aggregating a write of no bytes into an event that has a file size reads the last offset of
  an empty map: the operation has no defined result.
\<close>

lemma empty_write_after_truncate:
  assumes "interval_map I" and "we_fileSize e = Some n" and "sz = 0"
  shows "WriteEvent_aggregate I e (WriteEvent_new I offset sz None u s f) = Inl NullDereference"
proof -
  have "icl_last I (we_blocks (WriteEvent_new I offset sz None u s f)) = None"
    using interval_map.last_None [OF assms(1)] assms(3)
    by (simp add: WriteEvent_new_def interval_map.at_add [OF assms(1)] interval_map.at_empty [OF assms(1)]
        interval_mem_def)
  then show ?thesis
    using assms(2) by (simp add: WriteEvent_aggregate_def WriteEvent_fileSize_def WriteEvent_new_def)
qed

lemma empty_write_after_truncate_witness:
  "WriteEvent_aggregate pm_icl (example_write 0 0 (Some 50)) (WriteEvent_new pm_icl 7 0 None ''u'' ''s'' ''f'')
     = Inl NullDereference"
  by (rule empty_write_after_truncate [OF pm.interval_map_axioms])
     (simp_all add: example_write_def WriteEvent_new_def)

end
