(* ===== verification/OC_EventStream.thy ===== *)
theory OC_EventStream
  imports OC_EventTypes
begin

text \<open>
  The event stream (\<open>src/events/eventStream.h\<close>): the stack of layers an event passes, from the
  worker that serialises all calls on one thread, through the aggregators that decide when to
  flush (\<open>aggregators/\<close>), the subscription handler that switches buffering on and off
  (\<open>subscriptionHandler.h\<close>) and the event handler with its buffer (\<open>eventHandler.h\<close>,
  \<open>buffers/\<close>). The layers are C++ templates over the event type; the model takes the operations
  of the event type as a record.
\<close>

section \<open>The parameters of the templates\<close>

text \<open>
  \<open>ev_size\<close> is present for the streams that have the \<open>EventSizeAggregator\<close> layer. Aggregation may
  fail as a null dereference would (see \<open>WriteEvent\<close>). \<open>ev_forward\<close> holds for the streams whose event
  handler is \<open>communicator.send\<close> (read, write and file accessed events).
\<close>

record ('k, 'e) event_ops =
  ev_key :: "'e \<Rightarrow> 'k"
  ev_counter :: "'e \<Rightarrow> uint64"
  ev_size :: "('e \<Rightarrow> uint64) option"
  ev_aggregate :: "'e \<Rightarrow> 'e \<Rightarrow> 'e res"
  ev_forward :: bool

section \<open>Buffers\<close>

text \<open>\<open>VoidEventBuffer\<close> and \<open>EventBufferMap\<close>; the latter's map is the list of its entries.\<close>

datatype ('k, 'e) EventBuffer = VoidBuffer | BufferMap "('k \<times> 'e) list"

fun buffer_insert :: "('k, 'e) event_ops \<Rightarrow> 'e \<Rightarrow> ('k \<times> 'e) list \<Rightarrow> ('k \<times> 'e) list res" where
  "buffer_insert E event [] = Inr [(ev_key E event, event)]"
| "buffer_insert E event ((k, e) # es) =
     (if k = ev_key E event then
        (case ev_aggregate E e event of Inl x \<Rightarrow> Inl x | Inr e' \<Rightarrow> Inr ((k, e') # es))
      else
        (case buffer_insert E event es of Inl x \<Rightarrow> Inl x | Inr es' \<Rightarrow> Inr ((k, e) # es')))"

definition buffer_push :: "('k, 'e) event_ops \<Rightarrow> 'e \<Rightarrow> ('k, 'e) EventBuffer \<Rightarrow> ('k, 'e) EventBuffer res" where
  "buffer_push E event b =
     (case b of VoidBuffer \<Rightarrow> Inr VoidBuffer
      | BufferMap es \<Rightarrow> (case buffer_insert E event es of Inl x \<Rightarrow> Inl x | Inr es' \<Rightarrow> Inr (BufferMap es')))"

section \<open>State\<close>

text \<open>
  The fields of the layers, top to bottom. A \<open>std::multiset\<close> of thresholds is its sorted list.
  \<open>m_timer\<close> is the delay of the pending periodic trigger. \<open>handled\<close> are the calls of the event
  handler, \<open>m_stream\<close> the messages sent on the communication stream. The order of the events within
  one call is that of an unordered map in the code and of insertion in the model.
\<close>

datatype 'e sent = SentEvents "'e list" | SentSubscription ClientSubscription | SentCancellation int64

record ('k, 'e) EventStream =
  m_counter :: uint64
  m_counterThresholds :: "uint64 list"
  m_size :: uint64
  m_sizeThresholds :: "uint64 list"
  m_timeThresholds :: "int list"
  m_timer :: "int option"
  m_subscriptions :: "int64 list"
  m_eventBuffer :: "('k, 'e) EventBuffer"
  handled :: "'e list list"
  m_stream :: "'e sent list"

definition EventStream_init :: "('k, 'e) EventStream" where
  "EventStream_init =
     \<lparr>m_counter = 0, m_counterThresholds = [], m_size = 0, m_sizeThresholds = [], m_timeThresholds = [],
      m_timer = None, m_subscriptions = [], m_eventBuffer = VoidBuffer, handled = [], m_stream = []\<rparr>"

section \<open>Event handler\<close>

definition communicator_send :: "'e list \<Rightarrow> ('k, 'e) EventStream \<Rightarrow> ('k, 'e) EventStream" where
  "communicator_send events s =
     (if events = [] then s else s\<lparr>m_stream := m_stream s @ [SentEvents events]\<rparr>)"

definition call_handler :: "('k, 'e) event_ops \<Rightarrow> 'e list \<Rightarrow> ('k, 'e) EventStream \<Rightarrow> ('k, 'e) EventStream" where
  "call_handler E events s =
     (let s' = s\<lparr>handled := handled s @ [events]\<rparr> in
      if ev_forward E then communicator_send events s' else s')"

definition buffer_clear :: "('k, 'e) event_ops \<Rightarrow> ('k, 'e) EventStream \<Rightarrow> ('k, 'e) EventStream" where
  "buffer_clear E s =
     (case m_eventBuffer s of
        VoidBuffer \<Rightarrow> s
      | BufferMap es \<Rightarrow> (call_handler E (map snd es) s)\<lparr>m_eventBuffer := BufferMap []\<rparr>)"

text \<open>Replacing the buffer destroys the old one, whose destructor clears it.\<close>

definition setEventBuffer :: "('k, 'e) event_ops \<Rightarrow> ('k, 'e) EventBuffer \<Rightarrow> ('k, 'e) EventStream \<Rightarrow> ('k, 'e) EventStream" where
  "setEventBuffer E b s = (buffer_clear E s)\<lparr>m_eventBuffer := b\<rparr>"

definition resetPeriodicTrigger :: "('k, 'e) EventStream \<Rightarrow> ('k, 'e) EventStream" where
  "resetPeriodicTrigger s =
     s\<lparr>m_timer := (case m_timeThresholds s of [] \<Rightarrow> None | t # _ \<Rightarrow> Some t)\<rparr>"

text \<open>
  The callback that \<open>initializeAggregation\<close> and the \<open>setOnTriggerCallback\<close> of the layers build: the
  time, size and counter aggregator reset themselves, in this order.
\<close>

definition onTriggerCallback :: "('k, 'e) event_ops \<Rightarrow> ('k, 'e) EventStream \<Rightarrow> ('k, 'e) EventStream" where
  "onTriggerCallback E s =
     (let s1 = resetPeriodicTrigger s;
          s2 = (if ev_size E = None then s1 else s1\<lparr>m_size := 0\<rparr>)
      in s2\<lparr>m_counter := 0\<rparr>)"

definition trigger :: "('k, 'e) event_ops \<Rightarrow> ('k, 'e) EventStream \<Rightarrow> ('k, 'e) EventStream" where
  "trigger E s = onTriggerCallback E (buffer_clear E s)"

definition handler_process :: "('k, 'e) event_ops \<Rightarrow> 'e \<Rightarrow> (('k, 'e) EventStream, unit) act" where
  "handler_process E event s =
     (case buffer_push E event (m_eventBuffer s) of
        Inl x \<Rightarrow> (Inl x, s)
      | Inr b \<Rightarrow> (Inr (), s\<lparr>m_eventBuffer := b\<rparr>))"

definition trigger_event :: "('k, 'e) event_ops \<Rightarrow> 'e \<Rightarrow> (('k, 'e) EventStream, unit) act" where
  "trigger_event E event = bindA (handler_process E event) (\<lambda>_. modifyA (trigger E))"

section \<open>Aggregators\<close>

definition reached :: "'a::linorder list \<Rightarrow> 'a \<Rightarrow> bool" where
  "reached thresholds n = (case thresholds of [] \<Rightarrow> False | t # _ \<Rightarrow> t \<le> n)"

definition size_process :: "('k, 'e) event_ops \<Rightarrow> 'e \<Rightarrow> (('k, 'e) EventStream, unit) act" where
  "size_process E event s =
     (case ev_size E of
        None \<Rightarrow> handler_process E event s
      | Some sz \<Rightarrow>
          (let s' = s\<lparr>m_size := m_size s + sz event\<rparr> in
           if reached (m_sizeThresholds s') (m_size s') then trigger_event E event s'
           else handler_process E event s'))"

definition counter_process :: "('k, 'e) event_ops \<Rightarrow> 'e \<Rightarrow> (('k, 'e) EventStream, unit) act" where
  "counter_process E event s =
     (let s' = s\<lparr>m_counter := m_counter s + ev_counter E event\<rparr> in
      if reached (m_counterThresholds s') (m_counter s') then trigger_event E event s'
      else size_process E event s')"

section \<open>Subscriptions\<close>

text \<open>
  \<open>subscribe\<close> returns a closure that undoes what each layer did: the thresholds it added, and the
  id if the subscription handler accepted the subscription.
\<close>

record UnsubscribeHandler =
  uh_counter :: "uint64 option"
  uh_size :: "uint64 option"
  uh_time :: "int option"
  uh_id :: "int64 option"

definition handler_subscribe :: "('k, 'e) event_ops \<Rightarrow> Subscription \<Rightarrow> ('k, 'e) EventStream \<Rightarrow> int64 option \<times> ('k, 'e) EventStream" where
  "handler_subscribe E sub s =
     (if Subscription_empty sub \<or> sub_id sub \<in> set (m_subscriptions s) then (None, s)
      else
        let s1 = (if m_subscriptions s = [] then setEventBuffer E (BufferMap []) s else s)
        in (Some (sub_id sub), s1\<lparr>m_subscriptions := sub_id sub # m_subscriptions s1\<rparr>))"

definition handler_unsubscribe :: "('k, 'e) event_ops \<Rightarrow> int64 option \<Rightarrow> ('k, 'e) EventStream \<Rightarrow> ('k, 'e) EventStream" where
  "handler_unsubscribe E io s =
     (case io of
        None \<Rightarrow> s
      | Some i \<Rightarrow>
          (let s1 = s\<lparr>m_subscriptions := removeAll i (m_subscriptions s)\<rparr>;
               s2 = (if m_subscriptions s1 = [] then setEventBuffer E VoidBuffer s1 else s1)
           in if i < 0 then s2\<lparr>m_stream := m_stream s2 @ [SentCancellation i]\<rparr> else s2))"

definition time_subscribe :: "Subscription \<Rightarrow> ('k, 'e) EventStream \<Rightarrow> ('k, 'e) EventStream" where
  "time_subscribe sub s =
     (case sub_timeThreshold sub of
        None \<Rightarrow> s
      | Some t \<Rightarrow>
          (let s' = s\<lparr>m_timeThresholds := insort t (m_timeThresholds s)\<rparr> in
           if m_timeThresholds s = [] \<or> t < hd (m_timeThresholds s) then resetPeriodicTrigger s' else s'))"

definition time_unsubscribe :: "int option \<Rightarrow> ('k, 'e) EventStream \<Rightarrow> ('k, 'e) EventStream" where
  "time_unsubscribe tho s =
     (case tho of
        None \<Rightarrow> s
      | Some t \<Rightarrow>
          (let s' = s\<lparr>m_timeThresholds := remove1 t (m_timeThresholds s)\<rparr> in
           if m_timeThresholds s' = [] then s'\<lparr>m_timer := None\<rparr> else s'))"

definition size_subscribe :: "('k, 'e) event_ops \<Rightarrow> Subscription \<Rightarrow> ('k, 'e) EventStream \<Rightarrow> ('k, 'e) EventStream" where
  "size_subscribe E sub s =
     (case (ev_size E, sub_sizeThreshold sub) of
        (Some _, Some t) \<Rightarrow>
          (let s' = s\<lparr>m_sizeThresholds := insort t (m_sizeThresholds s)\<rparr> in
           if t \<le> m_size s' then trigger E s' else s')
      | _ \<Rightarrow> s)"

definition size_unsubscribe :: "uint64 option \<Rightarrow> ('k, 'e) EventStream \<Rightarrow> ('k, 'e) EventStream" where
  "size_unsubscribe tho s =
     (case tho of
        None \<Rightarrow> s
      | Some t \<Rightarrow>
          (let s' = s\<lparr>m_sizeThresholds := remove1 t (m_sizeThresholds s)\<rparr> in
           if m_sizeThresholds s' = [] then s'\<lparr>m_size := 0\<rparr> else s'))"

definition counter_subscribe :: "('k, 'e) event_ops \<Rightarrow> Subscription \<Rightarrow> ('k, 'e) EventStream \<Rightarrow> ('k, 'e) EventStream" where
  "counter_subscribe E sub s =
     (case sub_counterThreshold sub of
        None \<Rightarrow> s
      | Some t \<Rightarrow>
          (let s' = s\<lparr>m_counterThresholds := insort t (m_counterThresholds s)\<rparr> in
           if t \<le> m_counter s' then trigger E s' else s'))"

definition counter_unsubscribe :: "uint64 option \<Rightarrow> ('k, 'e) EventStream \<Rightarrow> ('k, 'e) EventStream" where
  "counter_unsubscribe tho s =
     (case tho of
        None \<Rightarrow> s
      | Some t \<Rightarrow>
          (let s' = s\<lparr>m_counterThresholds := remove1 t (m_counterThresholds s)\<rparr> in
           if m_counterThresholds s' = [] then s'\<lparr>m_counter := 0\<rparr> else s'))"

text \<open>The whole stack: each layer acts and calls the next; the closures run in the same order.\<close>

definition subscribe :: "('k, 'e) event_ops \<Rightarrow> Subscription \<Rightarrow> ('k, 'e) EventStream \<Rightarrow> UnsubscribeHandler \<times> ('k, 'e) EventStream" where
  "subscribe E sub s =
     (let s1 = counter_subscribe E sub s;
          s2 = size_subscribe E sub s1;
          s3 = time_subscribe sub s2;
          (i, s4) = handler_subscribe E sub s3
      in (\<lparr>uh_counter = sub_counterThreshold sub,
           uh_size = (if ev_size E = None then None else sub_sizeThreshold sub),
           uh_time = sub_timeThreshold sub, uh_id = i\<rparr>, s4))"

definition unsubscribe :: "('k, 'e) event_ops \<Rightarrow> UnsubscribeHandler \<Rightarrow> ('k, 'e) EventStream \<Rightarrow> ('k, 'e) EventStream" where
  "unsubscribe E h s =
     handler_unsubscribe E (uh_id h) (time_unsubscribe (uh_time h)
       (size_unsubscribe (uh_size h) (counter_unsubscribe (uh_counter h) s)))"

section \<open>The contract of an event type\<close>

text \<open>
  What the stack relies on: aggregating two events of one key gives an event of this key; for the
  events that count, the counter of the aggregate is the sum of the counters.
\<close>

locale keyed_event =
  fixes E :: "('k, 'e) event_ops"
  assumes aggregate_key: "ev_aggregate E a b = Inr c \<Longrightarrow> ev_key E b = ev_key E a \<Longrightarrow> ev_key E c = ev_key E a"

locale counted_event = keyed_event +
  assumes aggregate_counter: "ev_aggregate E a b = Inr c \<Longrightarrow> ev_counter E c = ev_counter E a + ev_counter E b"

section \<open>What each layer leaves alone\<close>

definition buffered :: "('k, 'e) EventStream \<Rightarrow> ('k \<times> 'e) list" where
  "buffered s = (case m_eventBuffer s of VoidBuffer \<Rightarrow> [] | BufferMap es \<Rightarrow> es)"

fun sent_events :: "'e sent list \<Rightarrow> 'e list list" where
  "sent_events [] = []"
| "sent_events (SentEvents es # xs) = es # sent_events xs"
| "sent_events (_ # xs) = sent_events xs"

lemma sent_events_append [simp]: "sent_events (xs @ ys) = sent_events xs @ sent_events ys"
  by (induction xs rule: sent_events.induct) simp_all

lemma call_handler_fields [simp]:
  "m_counter (call_handler E es s) = m_counter s"
  "m_counterThresholds (call_handler E es s) = m_counterThresholds s"
  "m_size (call_handler E es s) = m_size s"
  "m_sizeThresholds (call_handler E es s) = m_sizeThresholds s"
  "m_timeThresholds (call_handler E es s) = m_timeThresholds s"
  "m_timer (call_handler E es s) = m_timer s"
  "m_subscriptions (call_handler E es s) = m_subscriptions s"
  "m_eventBuffer (call_handler E es s) = m_eventBuffer s"
  "handled (call_handler E es s) = handled s @ [es]"
  "sent_events (m_stream (call_handler E es s)) =
     sent_events (m_stream s) @ (if ev_forward E \<and> es \<noteq> [] then [es] else [])"
  by (simp_all add: call_handler_def communicator_send_def Let_def)

lemma buffer_clear_fields [simp]:
  "m_counter (buffer_clear E s) = m_counter s"
  "m_counterThresholds (buffer_clear E s) = m_counterThresholds s"
  "m_size (buffer_clear E s) = m_size s"
  "m_sizeThresholds (buffer_clear E s) = m_sizeThresholds s"
  "m_timeThresholds (buffer_clear E s) = m_timeThresholds s"
  "m_timer (buffer_clear E s) = m_timer s"
  "m_subscriptions (buffer_clear E s) = m_subscriptions s"
  "m_eventBuffer (buffer_clear E s) = VoidBuffer \<longleftrightarrow> m_eventBuffer s = VoidBuffer"
  "buffered (buffer_clear E s) = []"
  "concat (handled (buffer_clear E s)) = concat (handled s) @ map snd (buffered s)"
  by (simp_all add: buffer_clear_def buffered_def split: EventBuffer.split)

lemma buffer_clear_sent:
  assumes "ev_forward E \<Longrightarrow> sent_events (m_stream s) = filter (\<lambda>es. es \<noteq> []) (handled s)"
  shows "ev_forward E \<Longrightarrow>
    sent_events (m_stream (buffer_clear E s)) = filter (\<lambda>es. es \<noteq> []) (handled (buffer_clear E s))"
  using assms by (simp add: buffer_clear_def split: EventBuffer.split)

lemma trigger_fields [simp]:
  "m_counter (trigger E s) = 0"
  "m_counterThresholds (trigger E s) = m_counterThresholds s"
  "m_size (trigger E s) = (if ev_size E = None then m_size s else 0)"
  "m_sizeThresholds (trigger E s) = m_sizeThresholds s"
  "m_timeThresholds (trigger E s) = m_timeThresholds s"
  "m_timer (trigger E s) = (case m_timeThresholds s of [] \<Rightarrow> None | t # _ \<Rightarrow> Some t)"
  "m_subscriptions (trigger E s) = m_subscriptions s"
  "m_eventBuffer (trigger E s) = VoidBuffer \<longleftrightarrow> m_eventBuffer s = VoidBuffer"
  "buffered (trigger E s) = []"
  "concat (handled (trigger E s)) = concat (handled s) @ map snd (buffered s)"
  "m_stream (trigger E s) = m_stream (buffer_clear E s)"
  "handled (trigger E s) = handled (buffer_clear E s)"
proof -
  have b: "buffered (s'\<lparr>m_counter := x\<rparr>) = buffered s'" "buffered (s'\<lparr>m_size := y\<rparr>) = buffered s'"
    "buffered (resetPeriodicTrigger s') = buffered s'" for s' :: "('a, 'b) EventStream" and x y
    by (simp_all add: buffered_def resetPeriodicTrigger_def)
  show "buffered (trigger E s) = []"
    by (simp add: trigger_def onTriggerCallback_def Let_def b)
qed (simp_all add: trigger_def onTriggerCallback_def resetPeriodicTrigger_def Let_def)

section \<open>Processing\<close>

definition keyed_buffer :: "('k, 'e) event_ops \<Rightarrow> ('k \<times> 'e) list \<Rightarrow> bool" where
  "keyed_buffer E es \<longleftrightarrow> distinct (map fst es) \<and> (\<forall>p \<in> set es. ev_key E (snd p) = fst p)"

text \<open>The counters of the events of one key, added up at the width of the code.\<close>

definition counted :: "('k, 'e) event_ops \<Rightarrow> 'k \<Rightarrow> 'e list \<Rightarrow> uint64" where
  "counted E k es = sum_list (map (ev_counter E) (filter (\<lambda>e. ev_key E e = k) es))"

lemma counted_simps [simp]:
  "counted E k [] = 0"
  "counted E k (e # es) = (if ev_key E e = k then ev_counter E e else 0) + counted E k es"
  "counted E k (es @ fs) = counted E k es + counted E k fs"
  by (simp_all add: counted_def)

text \<open>Pushing into a non-empty buffer either aggregates with the first entry or goes on behind it.\<close>

lemma insert_cases:
  assumes "buffer_insert E event ((k, e) # es) = Inr es'"
  obtains (aggregate) e' where "k = ev_key E event" "ev_aggregate E e event = Inr e'" "es' = (k, e') # es"
  | (skip) fs where "k \<noteq> ev_key E event" "buffer_insert E event es = Inr fs" "es' = (k, e) # fs"
proof (cases "k = ev_key E event")
  case True
  then show ?thesis using assms aggregate by (cases "ev_aggregate E e event") simp_all
next
  case False
  then show ?thesis using assms skip by (cases "buffer_insert E event es") simp_all
qed

lemma insert_keys:
  "buffer_insert E event es = Inr es' \<Longrightarrow> fst ` set es' = insert (ev_key E event) (fst ` set es)"
proof (induction es arbitrary: es')
  case (Cons p es)
  obtain k e where p: "p = (k, e)" by (cases p)
  show ?case
    using Cons.prems unfolding p
    by (cases rule: insert_cases) (simp_all add: Cons.IH insert_commute)
qed auto

context keyed_event
begin

lemma insert_keyed:
  "buffer_insert E event es = Inr es' \<Longrightarrow> keyed_buffer E es \<Longrightarrow> keyed_buffer E es'"
proof (induction es arbitrary: es')
  case Nil
  then show ?case by (auto simp: keyed_buffer_def)
next
  case (Cons p es)
  obtain k e where p: "p = (k, e)" by (cases p)
  show ?case
    using Cons.prems(1) [unfolded p]
  proof (cases rule: insert_cases)
    case e': (aggregate e')
    have "ev_key E e = k" using Cons.prems(2) p by (simp add: keyed_buffer_def)
    then have "ev_key E e' = k" using aggregate_key [OF e'(2)] e'(1) by simp
    then show ?thesis using Cons.prems(2) p e'(3) by (auto simp: keyed_buffer_def)
  next
    case fs: (skip fs)
    have "keyed_buffer E fs"
      using Cons.IH [OF fs(2)] Cons.prems(2) by (simp add: keyed_buffer_def)
    moreover have "k \<notin> fst ` set fs"
      using insert_keys [OF fs(2)] Cons.prems(2) p fs(1) by (auto simp: keyed_buffer_def)
    ultimately show ?thesis using Cons.prems(2) p fs(3) by (auto simp: keyed_buffer_def)
  qed
qed

end

context counted_event
begin

lemma insert_counted:
  "buffer_insert E event es = Inr es' \<Longrightarrow> keyed_buffer E es \<Longrightarrow>
     counted E k (map snd es') = counted E k (map snd es) + counted E k [event]"
proof (induction es arbitrary: es')
  case (Cons p es)
  obtain k' e where p: "p = (k', e)" by (cases p)
  have key: "ev_key E e = k'" using Cons.prems(2) p by (simp add: keyed_buffer_def)
  show ?case
    using Cons.prems(1) [unfolded p]
  proof (cases rule: insert_cases)
    case e': (aggregate e')
    show ?thesis
      using aggregate_key [OF e'(2)] aggregate_counter [OF e'(2)] key p e'(1,3) by simp
  next
    case fs: (skip fs)
    then show ?thesis
      using Cons.IH [OF fs(2)] Cons.prems(2) p by (simp add: keyed_buffer_def)
  qed
qed simp

end

text \<open>
  An event that is processed without an error is pushed; then either nothing is triggered and no
  threshold is reached, or the buffer is flushed.
\<close>

lemma process_cases:
  assumes "counter_process E event s = (Inr (), s')"
  obtains b z s1 where
    "buffer_push E event (m_eventBuffer s) = Inr b"
    "s1 = s\<lparr>m_counter := m_counter s + ev_counter E event, m_size := z, m_eventBuffer := b\<rparr>"
    "ev_size E = None \<Longrightarrow> z = m_size s"
    "s' = s1 \<and> \<not> reached (m_counterThresholds s) (m_counter s1) \<and>
       (ev_size E \<noteq> None \<longrightarrow> \<not> reached (m_sizeThresholds s) z) \<or> s' = trigger E s1"
proof -
  let ?c = "m_counter s + ev_counter E event"
  define z where "z = (case ev_size E of None \<Rightarrow> m_size s
    | Some sz \<Rightarrow> if reached (m_counterThresholds s) ?c then m_size s else m_size s + sz event)"
  obtain b where b: "buffer_push E event (m_eventBuffer s) = Inr b"
    using assms
    by (auto simp: counter_process_def size_process_def trigger_event_def handler_process_def bindA_def
        Let_def split: if_splits option.splits sum.splits)
  let ?s1 = "s\<lparr>m_counter := ?c, m_size := z, m_eventBuffer := b\<rparr>"
  have "s' = ?s1 \<and> \<not> reached (m_counterThresholds s) ?c \<and>
       (ev_size E \<noteq> None \<longrightarrow> \<not> reached (m_sizeThresholds s) z) \<or> s' = trigger E ?s1"
    using assms b
    by (auto simp: counter_process_def size_process_def trigger_event_def handler_process_def bindA_def
        modifyA_def Let_def z_def split: if_splits option.splits)
  then show ?thesis using that [of b ?s1 z] b by (auto simp: z_def)
qed

section \<open>Reachable streams\<close>

text \<open>
  The steps the worker runs on its thread: an event is processed, a subscription is added or its
  unsubscribe handler is run once, the periodic timer fires and posts a trigger, a posted trigger
  runs. The relation records the events processed while there were subscriptions, the handlers not
  yet run and the number of triggers posted. A subscription is sent to the provider at any time, by the
  thread that subscribes. \<open>okE\<close> and \<open>okS\<close> restrict what is emitted and subscribed.
\<close>

inductive stream_reach :: "('k, 'e) event_ops \<Rightarrow> ('e \<Rightarrow> bool) \<Rightarrow> (Subscription \<Rightarrow> bool) \<Rightarrow>
    'e list \<Rightarrow> UnsubscribeHandler list \<Rightarrow> nat \<Rightarrow> ('k, 'e) EventStream \<Rightarrow> bool"
  for E okE okS where
  start: "stream_reach E okE okS [] [] 0 EventStream_init"
| event: "stream_reach E okE okS acc hs p s \<Longrightarrow> okE e \<Longrightarrow> counter_process E e s = (Inr (), s') \<Longrightarrow>
    stream_reach E okE okS (if m_subscriptions s = [] then acc else acc @ [e]) hs p s'"
| sub: "stream_reach E okE okS acc hs p s \<Longrightarrow> okS sub \<Longrightarrow>
    stream_reach E okE okS acc (fst (subscribe E sub s) # hs) p (snd (subscribe E sub s))"
| unsub: "stream_reach E okE okS acc hs p s \<Longrightarrow> h \<in> set hs \<Longrightarrow>
    stream_reach E okE okS acc (remove1 h hs) p (unsubscribe E h s)"
| fire: "stream_reach E okE okS acc hs p s \<Longrightarrow> m_timer s = Some d \<Longrightarrow>
    stream_reach E okE okS acc hs (Suc p) (s\<lparr>m_timer := None\<rparr>)"
| send: "stream_reach E okE okS acc hs p s \<Longrightarrow>
    stream_reach E okE okS acc hs p (s\<lparr>m_stream := m_stream s @ [SentSubscription x]\<rparr>)"
| trig: "stream_reach E okE okS acc hs (Suc p) s \<Longrightarrow> stream_reach E okE okS acc hs p (trigger E s)"

definition thresholds_inv :: "(UnsubscribeHandler \<Rightarrow> 'a::linorder option) \<Rightarrow> UnsubscribeHandler list \<Rightarrow> 'a list \<Rightarrow> bool" where
  "thresholds_inv f hs ts \<longleftrightarrow> sorted ts \<and> mset ts = mset (List.map_filter f hs)"

definition level_inv :: "uint64 list \<Rightarrow> uint64 \<Rightarrow> bool" where
  "level_inv ts n \<longleftrightarrow> n = 0 \<or> \<not> reached ts n"

definition timer_inv :: "nat \<Rightarrow> int list \<Rightarrow> int option \<Rightarrow> bool" where
  "timer_inv p ts tm \<longleftrightarrow> (case tm of None \<Rightarrow> ts = [] \<or> 0 < p | Some d \<Rightarrow> ts \<noteq> [] \<and> d \<le> hd ts)"

text \<open>
  The four lists are the handlers whose counter, size, time threshold and subscription the stack
  holds; between two layers of one call they differ by the handler in flight.
\<close>

definition struct_inv :: "('k, 'e) event_ops \<Rightarrow> UnsubscribeHandler list \<Rightarrow> UnsubscribeHandler list \<Rightarrow>
    UnsubscribeHandler list \<Rightarrow> UnsubscribeHandler list \<Rightarrow> ('k, 'e) EventStream \<Rightarrow> bool" where
  "struct_inv E hc hz ht hi s \<longleftrightarrow>
     thresholds_inv uh_counter hc (m_counterThresholds s) \<and>
     thresholds_inv uh_size hz (m_sizeThresholds s) \<and>
     thresholds_inv uh_time ht (m_timeThresholds s) \<and>
     distinct (m_subscriptions s) \<and>
     mset (m_subscriptions s) = mset (List.map_filter uh_id hi) \<and>
     (m_eventBuffer s = VoidBuffer \<longleftrightarrow> m_subscriptions s = []) \<and>
     keyed_buffer E (buffered s) \<and>
     (ev_forward E \<longrightarrow> sent_events (m_stream s) = filter (\<lambda>es. es \<noteq> []) (handled s)) \<and>
     (ev_size E = None \<longrightarrow> m_sizeThresholds s = [])"

definition live_inv :: "nat \<Rightarrow> ('k, 'e) EventStream \<Rightarrow> bool" where
  "live_inv p s \<longleftrightarrow>
     level_inv (m_counterThresholds s) (m_counter s) \<and>
     level_inv (m_sizeThresholds s) (m_size s) \<and>
     timer_inv p (m_timeThresholds s) (m_timer s)"

text \<open>Thresholds as lists.\<close>

lemma thresholds_Cons:
  "thresholds_inv f hs ts \<Longrightarrow>
     thresholds_inv f (h # hs) (case f h of None \<Rightarrow> ts | Some t \<Rightarrow> insort t ts)"
  by (simp add: thresholds_inv_def List.map_filter_simps sorted_insort split: option.split)

lemma mset_map_filter_remove1:
  "h \<in> set hs \<Longrightarrow> mset (List.map_filter f (remove1 h hs)) =
     (case f h of None \<Rightarrow> mset (List.map_filter f hs) | Some t \<Rightarrow> mset (List.map_filter f hs) - {#t#})"
proof (induction hs)
  case (Cons g hs)
  have "t \<in># mset (List.map_filter f hs)" if "f h = Some t" "h \<in> set hs" for t
    using that by (force simp: List.map_filter_def)
  then show ?case
    using Cons by (auto simp: List.map_filter_simps split: option.splits)
qed simp

lemma thresholds_remove1:
  assumes "thresholds_inv f hs ts" "h \<in> set hs"
  shows "thresholds_inv f (remove1 h hs) (case f h of None \<Rightarrow> ts | Some t \<Rightarrow> remove1 t ts)"
  using assms mset_map_filter_remove1 [OF assms(2), of f]
  by (simp add: thresholds_inv_def sorted_remove1 split: option.splits)

lemma level_zero [simp]: "level_inv ts 0" "level_inv [] n"
  by (simp_all add: level_inv_def reached_def)

lemma reached_insort: "reached (insort t ts) n \<longleftrightarrow> t \<le> n \<or> reached ts n"
  by (cases ts) (auto simp: reached_def)

lemma level_insort: "level_inv ts n \<Longrightarrow> \<not> t \<le> n \<Longrightarrow> level_inv (insort t ts) n"
  by (auto simp: level_inv_def reached_insort)

lemma level_remove1: "level_inv ts n \<Longrightarrow> sorted ts \<Longrightarrow> level_inv (remove1 t ts) n"
  by (cases ts; cases "remove1 t ts") (auto simp: level_inv_def reached_def split: if_splits
      dest: notin_set_remove1 in_set_remove1 [THEN iffD1])

section \<open>Every step keeps the invariant\<close>

lemma buffered_update [simp]:
  "buffered (s\<lparr>m_counter := a\<rparr>) = buffered s"
  "buffered (s\<lparr>m_counterThresholds := b\<rparr>) = buffered s"
  "buffered (s\<lparr>m_size := a\<rparr>) = buffered s"
  "buffered (s\<lparr>m_sizeThresholds := b\<rparr>) = buffered s"
  "buffered (s\<lparr>m_timeThresholds := c\<rparr>) = buffered s"
  "buffered (s\<lparr>m_timer := d\<rparr>) = buffered s"
  "buffered (s\<lparr>m_subscriptions := e\<rparr>) = buffered s"
  "buffered (s\<lparr>m_stream := f\<rparr>) = buffered s"
  by (simp_all add: buffered_def)

lemma keyed_Nil [simp]: "keyed_buffer E []"
  by (simp add: keyed_buffer_def)

lemma trigger_inv:
  assumes "struct_inv E hc hz ht hi s"
  shows "struct_inv E hc hz ht hi (trigger E s)" "live_inv p (trigger E s)"
  using assms buffer_clear_sent [of E s]
  by (auto simp: struct_inv_def live_inv_def timer_inv_def split: list.split)

lemma counter_subscribe_inv:
  assumes "struct_inv E hc hz ht hi s" "live_inv p s" "uh_counter h = sub_counterThreshold sub"
  shows "struct_inv E (h # hc) hz ht hi (counter_subscribe E sub s) \<and> live_inv p (counter_subscribe E sub s)"
proof (cases "sub_counterThreshold sub")
  case None
  then show ?thesis
    using assms thresholds_Cons [of uh_counter hc "m_counterThresholds s" h]
    by (simp add: counter_subscribe_def struct_inv_def)
next
  case (Some t)
  let ?s = "s\<lparr>m_counterThresholds := insort t (m_counterThresholds s)\<rparr>"
  have st: "struct_inv E (h # hc) hz ht hi ?s"
    using assms Some thresholds_Cons [of uh_counter hc "m_counterThresholds s" h]
    by (simp add: struct_inv_def)
  show ?thesis
    using Some st trigger_inv [OF st] assms(2) level_insort
    by (simp add: counter_subscribe_def live_inv_def Let_def)
qed

lemma size_subscribe_inv:
  assumes "struct_inv E hc hz ht hi s" "live_inv p s"
    and "uh_size h = (if ev_size E = None then None else sub_sizeThreshold sub)"
  shows "struct_inv E hc (h # hz) ht hi (size_subscribe E sub s) \<and> live_inv p (size_subscribe E sub s)"
proof (cases "uh_size h")
  case None
  then have "size_subscribe E sub s = s"
    using assms(3) by (auto simp: size_subscribe_def split: option.splits if_splits)
  then show ?thesis
    using assms None thresholds_Cons [of uh_size hz "m_sizeThresholds s" h] by (simp add: struct_inv_def)
next
  case (Some t)
  then obtain f where f: "ev_size E = Some f" "sub_sizeThreshold sub = Some t"
    using assms(3) by (auto split: if_splits)
  let ?s = "s\<lparr>m_sizeThresholds := insort t (m_sizeThresholds s)\<rparr>"
  have st: "struct_inv E hc (h # hz) ht hi ?s"
    using assms f Some thresholds_Cons [of uh_size hz "m_sizeThresholds s" h]
    by (simp add: struct_inv_def)
  show ?thesis
    using f st trigger_inv [OF st] assms(2) level_insort
    by (simp add: size_subscribe_def live_inv_def Let_def)
qed

lemma hd_insort: "hd (insort t ts) = (if ts = [] \<or> t \<le> hd ts then t else hd ts)"
  by (cases ts) simp_all

lemma insort_not_Nil: "insort t ts \<noteq> []"
  by (cases ts) simp_all

lemma time_subscribe_inv:
  assumes "struct_inv E hc hz ht hi s" "live_inv p s" "uh_time h = sub_timeThreshold sub"
  shows "struct_inv E hc hz (h # ht) hi (time_subscribe sub s) \<and> live_inv p (time_subscribe sub s)"
proof (cases "sub_timeThreshold sub")
  case None
  then show ?thesis
    using assms thresholds_Cons [of uh_time ht "m_timeThresholds s" h]
    by (simp add: time_subscribe_def struct_inv_def)
next
  case (Some t)
  let ?ts = "m_timeThresholds s"
  have "thresholds_inv uh_time (h # ht) (insort t ?ts)"
    using assms Some thresholds_Cons [of uh_time ht ?ts h] by (simp add: struct_inv_def)
  moreover have "timer_inv p (insort t ?ts) (Some (hd (insort t ?ts)))"
    using insort_not_Nil by (simp add: timer_inv_def)
  moreover have "timer_inv p (insort t ?ts) (m_timer s)" if "?ts \<noteq> []" "\<not> t < hd ?ts"
    using that assms(2) by (auto simp: live_inv_def timer_inv_def hd_insort insort_not_Nil split: option.splits)
  ultimately show ?thesis
    using assms(1,2) Some
    by (cases "insort t ?ts")
       (auto simp: time_subscribe_def resetPeriodicTrigger_def struct_inv_def live_inv_def Let_def insort_not_Nil)
qed

lemma setEventBuffer_fields [simp]:
  "m_counter (setEventBuffer E b s) = m_counter s"
  "m_counterThresholds (setEventBuffer E b s) = m_counterThresholds s"
  "m_size (setEventBuffer E b s) = m_size s"
  "m_sizeThresholds (setEventBuffer E b s) = m_sizeThresholds s"
  "m_timeThresholds (setEventBuffer E b s) = m_timeThresholds s"
  "m_timer (setEventBuffer E b s) = m_timer s"
  "m_subscriptions (setEventBuffer E b s) = m_subscriptions s"
  "m_eventBuffer (setEventBuffer E b s) = b"
  "m_stream (setEventBuffer E b s) = m_stream (buffer_clear E s)"
  "handled (setEventBuffer E b s) = handled (buffer_clear E s)"
  "buffered (setEventBuffer E VoidBuffer s) = []"
  "buffered (setEventBuffer E (BufferMap es) s) = es"
  by (simp_all add: setEventBuffer_def buffered_def)

lemma handler_subscribe_inv:
  assumes "struct_inv E hc hz ht hi s" "live_inv p s" "uh_id h = fst (handler_subscribe E sub s)"
  shows "struct_inv E hc hz ht (h # hi) (snd (handler_subscribe E sub s)) \<and>
    live_inv p (snd (handler_subscribe E sub s))"
  using assms buffer_clear_sent [of E s]
  by (auto simp: handler_subscribe_def struct_inv_def live_inv_def List.map_filter_simps Let_def
      split: if_splits)

lemma subscribe_inv:
  assumes "struct_inv E hs hs hs hs s" "live_inv p s"
  shows "struct_inv E (fst (subscribe E sub s) # hs) (fst (subscribe E sub s) # hs)
      (fst (subscribe E sub s) # hs) (fst (subscribe E sub s) # hs) (snd (subscribe E sub s)) \<and>
    live_inv p (snd (subscribe E sub s))"
proof -
  let ?h = "fst (subscribe E sub s)"
  have 1: "struct_inv E (?h # hs) hs hs hs (counter_subscribe E sub s) \<and> live_inv p (counter_subscribe E sub s)"
    by (rule counter_subscribe_inv [OF assms]) (simp add: subscribe_def Let_def split: prod.split)
  let ?s1 = "counter_subscribe E sub s"
  have 2: "struct_inv E (?h # hs) (?h # hs) hs hs (size_subscribe E sub ?s1) \<and> live_inv p (size_subscribe E sub ?s1)"
    by (rule size_subscribe_inv [OF 1 [THEN conjunct1] 1 [THEN conjunct2]])
       (simp add: subscribe_def Let_def split: prod.split)
  let ?s2 = "size_subscribe E sub ?s1"
  have 3: "struct_inv E (?h # hs) (?h # hs) (?h # hs) hs (time_subscribe sub ?s2) \<and> live_inv p (time_subscribe sub ?s2)"
    by (rule time_subscribe_inv [OF 2 [THEN conjunct1] 2 [THEN conjunct2]])
       (simp add: subscribe_def Let_def split: prod.split)
  let ?s3 = "time_subscribe sub ?s2"
  have "snd (subscribe E sub s) = snd (handler_subscribe E sub ?s3)"
    "uh_id ?h = fst (handler_subscribe E sub ?s3)"
    by (simp_all add: subscribe_def Let_def split: prod.split)
  then show ?thesis
    using handler_subscribe_inv [OF 3 [THEN conjunct1] 3 [THEN conjunct2], of ?h sub] by simp
qed

lemma counter_unsubscribe_inv:
  assumes "struct_inv E hc hz ht hi s" "live_inv p s" "h \<in> set hc"
  shows "struct_inv E (remove1 h hc) hz ht hi (counter_unsubscribe (uh_counter h) s) \<and>
    live_inv p (counter_unsubscribe (uh_counter h) s)"
proof -
  let ?ts = "m_counterThresholds s"
  have lv: "level_inv (remove1 t ?ts) (m_counter s)" for t
    using assms by (auto simp: struct_inv_def live_inv_def thresholds_inv_def intro: level_remove1)
  show ?thesis
    using assms lv [of "the (uh_counter h)"] thresholds_remove1 [of uh_counter hc ?ts h]
    by (cases "uh_counter h"; cases "remove1 (the (uh_counter h)) ?ts")
       (simp_all add: counter_unsubscribe_def struct_inv_def live_inv_def)
qed

lemma size_unsubscribe_inv:
  assumes "struct_inv E hc hz ht hi s" "live_inv p s" "h \<in> set hz"
  shows "struct_inv E hc (remove1 h hz) ht hi (size_unsubscribe (uh_size h) s) \<and>
    live_inv p (size_unsubscribe (uh_size h) s)"
proof -
  let ?ts = "m_sizeThresholds s"
  have lv: "level_inv (remove1 t ?ts) (m_size s)" for t
    using assms by (auto simp: struct_inv_def live_inv_def thresholds_inv_def intro: level_remove1)
  show ?thesis
    using assms lv [of "the (uh_size h)"] thresholds_remove1 [of uh_size hz ?ts h]
    by (cases "uh_size h"; cases "remove1 (the (uh_size h)) ?ts")
       (auto simp: size_unsubscribe_def struct_inv_def live_inv_def)
qed

lemma hd_remove1_le: "sorted ts \<Longrightarrow> remove1 t ts \<noteq> [] \<Longrightarrow> hd ts \<le> hd (remove1 t ts)"
  by (cases ts; cases "remove1 t ts") (auto split: if_splits)

lemma time_unsubscribe_inv:
  assumes "struct_inv E hc hz ht hi s" "live_inv p s" "h \<in> set ht"
  shows "struct_inv E hc hz (remove1 h ht) hi (time_unsubscribe (uh_time h) s) \<and>
    live_inv p (time_unsubscribe (uh_time h) s)"
proof (cases "uh_time h")
  case None
  then show ?thesis
    using assms thresholds_remove1 [of uh_time ht "m_timeThresholds s" h]
    by (simp add: time_unsubscribe_def struct_inv_def)
next
  case (Some t)
  let ?ts = "m_timeThresholds s"
  have srt: "sorted ?ts"
    using assms by (simp add: struct_inv_def thresholds_inv_def)
  have th: "thresholds_inv uh_time (remove1 h ht) (remove1 t ?ts)"
    using assms Some thresholds_remove1 [of uh_time ht ?ts h] by (simp add: struct_inv_def)
  have "timer_inv p (remove1 t ?ts) (m_timer s)" if "remove1 t ?ts \<noteq> []"
    using assms(2) hd_remove1_le [OF srt that] that
    by (cases "?ts = []") (auto simp: live_inv_def timer_inv_def split: option.splits)
  then show ?thesis
    using assms(1,2) Some th
    by (cases "remove1 t ?ts") (simp_all add: time_unsubscribe_def struct_inv_def live_inv_def timer_inv_def [of _ "[]"])
qed

lemma handler_unsubscribe_inv:
  assumes "struct_inv E hc hz ht hi s" "live_inv p s" "h \<in> set hi"
  shows "struct_inv E hc hz ht (remove1 h hi) (handler_unsubscribe E (uh_id h) s) \<and>
    live_inv p (handler_unsubscribe E (uh_id h) s)"
proof (cases "uh_id h")
  case None
  then show ?thesis
    using assms mset_map_filter_remove1 [OF assms(3), of uh_id]
    by (simp add: handler_unsubscribe_def struct_inv_def)
next
  case (Some i)
  have d: "distinct (m_subscriptions s)" using assms(1) by (simp add: struct_inv_def)
  have ids: "mset (m_subscriptions s) = mset (List.map_filter uh_id hi)"
    using assms(1) by (simp add: struct_inv_def)
  have "mset (removeAll i (m_subscriptions s)) = mset (List.map_filter uh_id (remove1 h hi))"
    using mset_map_filter_remove1 [OF assms(3), of uh_id] Some ids distinct_remove1_removeAll [OF d, of i]
    by (metis mset_remove1 option.simps(5))
  moreover have "i \<in> set (m_subscriptions s)"
    using assms(3) Some mset_eq_setD [OF ids] by (force simp: List.map_filter_def)
  ultimately show ?thesis
    using assms(1,2) Some d buffer_clear_sent [of E "s\<lparr>m_subscriptions := removeAll i (m_subscriptions s)\<rparr>"]
    by (auto simp: handler_unsubscribe_def struct_inv_def live_inv_def distinct_removeAll Let_def)
qed

lemma unsubscribe_inv:
  assumes "struct_inv E hs hs hs hs s" "live_inv p s" "h \<in> set hs"
  shows "struct_inv E (remove1 h hs) (remove1 h hs) (remove1 h hs) (remove1 h hs) (unsubscribe E h s) \<and>
    live_inv p (unsubscribe E h s)"
proof -
  note 1 = counter_unsubscribe_inv [OF assms]
  note 2 = size_unsubscribe_inv [OF 1 [THEN conjunct1] 1 [THEN conjunct2] assms(3)]
  note 3 = time_unsubscribe_inv [OF 2 [THEN conjunct1] 2 [THEN conjunct2] assms(3)]
  show ?thesis
    using handler_unsubscribe_inv [OF 3 [THEN conjunct1] 3 [THEN conjunct2] assms(3)]
    by (simp add: unsubscribe_def)
qed

lemma push_cases:
  assumes "buffer_push E event (m_eventBuffer s) = Inr b"
  obtains (void) "m_eventBuffer s = VoidBuffer" "b = VoidBuffer"
  | (map) es' where "m_eventBuffer s \<noteq> VoidBuffer" "buffer_insert E event (buffered s) = Inr es'" "b = BufferMap es'"
  using assms
  by (cases "m_eventBuffer s") (auto simp: buffer_push_def buffered_def split: sum.splits)

context keyed_event
begin

lemma process_inv:
  assumes "struct_inv E hs hs hs hs s" "live_inv p s" "counter_process E event s = (Inr (), s')"
  shows "struct_inv E hs hs hs hs s' \<and> live_inv p s'"
  using assms(3)
proof (cases rule: process_cases)
  case (1 b z s1)
  have "keyed_buffer E (buffered s1)"
    using 1(1)
  proof (cases rule: push_cases)
    case void
    then show ?thesis by (simp add: 1(2) buffered_def)
  next
    case (map es')
    then show ?thesis
      using insert_keyed [OF map(2)] assms(1) by (simp add: 1(2) struct_inv_def buffered_def)
  qed
  moreover have "b = VoidBuffer \<longleftrightarrow> m_eventBuffer s = VoidBuffer"
    using 1(1) by (cases rule: push_cases) simp_all
  ultimately have st: "struct_inv E hs hs hs hs s1"
    using assms(1) by (simp add: 1(2) struct_inv_def)
  show ?thesis
    using 1(4)
  proof (elim disjE conjE)
    assume s': "s' = s1" "\<not> reached (m_counterThresholds s) (m_counter s1)"
      "ev_size E \<noteq> None \<longrightarrow> \<not> reached (m_sizeThresholds s) z"
    have "level_inv (m_sizeThresholds s) z"
      using s'(3) st by (cases "ev_size E") (auto simp: struct_inv_def 1(2) level_inv_def reached_def)
    then show ?thesis
      using st s'(1,2) assms(2) by (simp add: 1(2) live_inv_def level_inv_def)
  qed (use st trigger_inv [OF st] in simp)
qed

lemma reach_inv:
  "stream_reach E okE okS acc hs p s \<Longrightarrow> struct_inv E hs hs hs hs s \<and> live_inv p s"
proof (induction rule: stream_reach.induct)
  case start
  show ?case
    by (simp add: EventStream_init_def struct_inv_def live_inv_def thresholds_inv_def timer_inv_def buffered_def
        List.map_filter_simps)
next
  case (event acc hs p s e s')
  then show ?case using process_inv by blast
next
  case (sub acc hs p s sub)
  then show ?case using subscribe_inv by blast
next
  case (unsub acc hs p s h)
  then show ?case using unsubscribe_inv by blast
next
  case (fire acc hs p s d)
  then show ?case by (auto simp: struct_inv_def live_inv_def timer_inv_def)
next
  case (send acc hs p s x)
  then show ?case by (simp add: struct_inv_def live_inv_def)
next
  case (trig acc hs p s)
  then show ?case using trigger_inv by blast
qed

end

section \<open>Events are conserved\<close>

definition events_of :: "('k, 'e) EventStream \<Rightarrow> 'e list" where
  "events_of s = concat (handled s) @ map snd (buffered s)"

lemma events_of_update [simp]:
  "events_of (s\<lparr>m_counter := a\<rparr>) = events_of s"
  "events_of (s\<lparr>m_counterThresholds := b\<rparr>) = events_of s"
  "events_of (s\<lparr>m_size := a\<rparr>) = events_of s"
  "events_of (s\<lparr>m_sizeThresholds := b\<rparr>) = events_of s"
  "events_of (s\<lparr>m_timeThresholds := c\<rparr>) = events_of s"
  "events_of (s\<lparr>m_timer := d\<rparr>) = events_of s"
  "events_of (s\<lparr>m_subscriptions := e\<rparr>) = events_of s"
  "events_of (s\<lparr>m_stream := f\<rparr>) = events_of s"
  by (simp_all add: events_of_def)

lemma events_of_flush [simp]:
  "events_of (trigger E s) = events_of s"
  "events_of (setEventBuffer E VoidBuffer s) = events_of s"
  "events_of (setEventBuffer E (BufferMap []) s) = events_of s"
  by (simp_all add: events_of_def del: trigger_fields(12))

lemma events_of_subscribe [simp]: "events_of (snd (subscribe E sub s)) = events_of s"
  by (simp add: subscribe_def counter_subscribe_def size_subscribe_def time_subscribe_def handler_subscribe_def
      resetPeriodicTrigger_def Let_def split: option.split)

lemma events_of_unsubscribe [simp]: "events_of (unsubscribe E h s) = events_of s"
  by (simp add: unsubscribe_def counter_unsubscribe_def size_unsubscribe_def time_unsubscribe_def
      handler_unsubscribe_def Let_def split: option.split)

context counted_event
begin

lemma process_counted:
  assumes "struct_inv E hs hs hs hs s" "counter_process E event s = (Inr (), s')"
  shows "counted E k (events_of s') =
    counted E k (events_of s) + (if m_subscriptions s = [] then 0 else counted E k [event])"
  using assms(2)
proof (cases rule: process_cases)
  case (1 b z s1)
  have void: "m_eventBuffer s = VoidBuffer \<longleftrightarrow> m_subscriptions s = []" and keyed: "keyed_buffer E (buffered s)"
    using assms(1) by (simp_all add: struct_inv_def)
  have "counted E k (events_of s1) =
      counted E k (events_of s) + (if m_subscriptions s = [] then 0 else counted E k [event])"
    using 1(1)
  proof (cases rule: push_cases)
    case v: void
    then show ?thesis using void by (simp add: 1(2) events_of_def buffered_def)
  next
    case (map es')
    then show ?thesis
      using void insert_counted [OF map(2) keyed, of k] by (simp add: 1(2) events_of_def buffered_def)
  qed
  then show ?thesis using 1(4) by auto
qed

lemma reach_counted:
  "stream_reach E okE okS acc hs p s \<Longrightarrow> counted E k (events_of s) = counted E k acc"
proof (induction rule: stream_reach.induct)
  case start
  show ?case by (simp add: EventStream_init_def events_of_def buffered_def)
next
  case (event acc hs p s e s')
  show ?case
    using process_counted [OF reach_inv [OF event.hyps(1), THEN conjunct1] event.hyps(3), of k] event.IH by simp
qed simp_all

end

section \<open>A subscribed counter bounds what is pending\<close>

definition pending :: "('k, 'e) event_ops \<Rightarrow> ('k, 'e) EventStream \<Rightarrow> nat" where
  "pending E s = sum_list (map (\<lambda>p. unat (ev_counter E (snd p))) (buffered s))"

lemma unat_add_le: "unat (a + b :: uint64) \<le> unat a + unat b"
  by (simp add: unat_word_ariths)

lemma pending_subscribe:
  "pending E (snd (subscribe E sub s)) = 0 \<or>
   m_counter (snd (subscribe E sub s)) = m_counter s \<and> pending E (snd (subscribe E sub s)) = pending E s"
  by (simp add: pending_def subscribe_def counter_subscribe_def size_subscribe_def time_subscribe_def
      handler_subscribe_def resetPeriodicTrigger_def Let_def split: option.split)

lemma pending_unsubscribe: "pending E (unsubscribe E h s) = 0 \<or> pending E (unsubscribe E h s) = pending E s"
  by (simp add: pending_def unsubscribe_def counter_unsubscribe_def size_unsubscribe_def time_unsubscribe_def
      handler_unsubscribe_def Let_def split: option.split)

lemma unsubscribe_counter:
  "m_counter (unsubscribe E h s) = m_counter s \<or> m_counterThresholds (unsubscribe E h s) = []"
  by (simp add: unsubscribe_def counter_unsubscribe_def size_unsubscribe_def time_unsubscribe_def
      handler_unsubscribe_def Let_def split: option.split)

context counted_event
begin

lemma insert_pending:
  "buffer_insert E event es = Inr es' \<Longrightarrow>
     sum_list (map (\<lambda>p. unat (ev_counter E (snd p))) es') \<le>
     sum_list (map (\<lambda>p. unat (ev_counter E (snd p))) es) + unat (ev_counter E event)"
proof (induction es arbitrary: es')
  case (Cons p es)
  obtain k e where p: "p = (k, e)" by (cases p)
  show ?case
    using Cons.prems [unfolded p]
    by (cases rule: insert_cases) (use Cons.IH unat_add_le in \<open>force simp: p aggregate_counter\<close>)+
qed simp

lemma reach_pending:
  assumes "\<And>e. okE e \<Longrightarrow> ev_counter E e = 1" and okS: "\<And>sub. okS sub \<Longrightarrow> sub_counterThreshold sub \<noteq> None"
  shows "stream_reach E okE okS acc hs p s \<Longrightarrow>
    (\<forall>h \<in> set hs. uh_counter h \<noteq> None) \<and> pending E s \<le> unat (m_counter s)"
proof (induction rule: stream_reach.induct)
  case start
  show ?case by (simp add: pending_def EventStream_init_def buffered_def)
next
  case (event acc hs p s e s')
  note inv = reach_inv [OF event.hyps(1)]
  show ?case
    using event.hyps(3)
  proof (cases rule: process_cases)
    case (1 b z s1)
    have "pending E s1 \<le> unat (m_counter s1)"
      using 1(1)
    proof (cases rule: push_cases)
      case void
      then show ?thesis by (simp add: 1(2) pending_def buffered_def)
    next
      case (map es')
      then have "m_counterThresholds s \<noteq> []"
        using inv event.IH by (auto simp: struct_inv_def thresholds_inv_def List.map_filter_def)
      then have "m_counter s \<noteq> -1"
        using inv by (cases "m_counterThresholds s") (auto simp: live_inv_def level_inv_def reached_def)
      then have "unat (m_counter s + 1) = Suc (unat (m_counter s))"
        by (metis add.commute add.right_inverse diff_add_cancel unatSuc add_eq_0_iff2)
      then show ?thesis
        using insert_pending [OF map(2)] assms(1) [OF event.hyps(2)] event.IH
        by (simp add: 1(2) pending_def buffered_def map(3))
    qed
    moreover have "pending E (trigger E s1) = 0" by (simp add: pending_def)
    ultimately show ?thesis using 1(4) event.IH by auto
  qed
next
  case (sub acc hs p s sub)
  have "uh_counter (fst (subscribe E sub s)) \<noteq> None"
    using okS [OF sub.hyps(2)] by (simp add: subscribe_def Let_def split: prod.split)
  then show ?case using sub.IH pending_subscribe [of E sub s] by auto
next
  case (unsub acc hs p s h)
  have all: "\<forall>g \<in> set (remove1 h hs). uh_counter g \<noteq> None"
    using unsub.IH notin_set_remove1 by fastforce
  have inv: "struct_inv E (remove1 h hs) (remove1 h hs) (remove1 h hs) (remove1 h hs) (unsubscribe E h s)"
    using unsubscribe_inv reach_inv [OF unsub.hyps(1)] unsub.hyps(2) by blast
  have "pending E (unsubscribe E h s) = 0" if "m_counterThresholds (unsubscribe E h s) = []"
  proof -
    have "remove1 h hs = []"
      using inv that all by (cases "remove1 h hs") (auto simp: struct_inv_def thresholds_inv_def List.map_filter_simps)
    then have "m_eventBuffer (unsubscribe E h s) = VoidBuffer"
      using inv by (simp add: struct_inv_def List.map_filter_simps)
    then show ?thesis by (simp add: pending_def buffered_def)
  qed
  then show ?case
    using all unsub.IH pending_unsubscribe [of E h s] unsubscribe_counter [of E h s] by auto
next
  case (fire acc hs p s d)
  then show ?case by (simp add: pending_def)
next
  case (send acc hs p s x)
  then show ?case by (simp add: pending_def)
next
  case (trig acc hs p s)
  then show ?case by (simp add: pending_def)
qed

end

section \<open>The streams of the client\<close>

definition read_ops :: "'m icl \<Rightarrow> (uuid, 'm ReadEvent) event_ops" where
  "read_ops I = \<lparr>ev_key = re_fileUuid, ev_counter = re_counter, ev_size = Some re_size,
     ev_aggregate = (\<lambda>e event. Inr (ReadEvent_aggregate I e event)), ev_forward = True\<rparr>"

definition write_ops :: "'m icl \<Rightarrow> (uuid, 'm WriteEvent) event_ops" where
  "write_ops I = \<lparr>ev_key = we_fileUuid, ev_counter = we_counter, ev_size = Some we_size,
     ev_aggregate = WriteEvent_aggregate I, ev_forward = True\<rparr>"

definition attr_ops :: "(uuid, FileAttr UpdateEvent) event_ops" where
  "attr_ops = \<lparr>ev_key = fa_uuid \<circ> ue_wrapped, ev_counter = ue_counter, ev_size = None,
     ev_aggregate = (\<lambda>e event. Inr (UpdateEvent_aggregate FileAttr_aggregate e event)), ev_forward = False\<rparr>"

definition location_ops :: "(uuid, 'm FileLocation UpdateEvent) event_ops" where
  "location_ops = \<lparr>ev_key = fl_uuid \<circ> ue_wrapped, ev_counter = ue_counter, ev_size = None,
     ev_aggregate = (\<lambda>e event. Inr (UpdateEvent_aggregate FileLocation_aggregate e event)), ev_forward = False\<rparr>"

definition permission_ops :: "(uuid, PermissionChangedEvent) event_ops" where
  "permission_ops = \<lparr>ev_key = pce_fileUuid, ev_counter = pce_counter, ev_size = None,
     ev_aggregate = (\<lambda>e event. Inr (PermissionChangedEvent_aggregate e event)), ev_forward = False\<rparr>"

definition removal_ops :: "(uuid, FileRemovalEvent) event_ops" where
  "removal_ops = \<lparr>ev_key = fe_fileUuid, ev_counter = fe_counter, ev_size = None,
     ev_aggregate = (\<lambda>e event. Inr (FileRemovalEvent_aggregate e event)), ev_forward = False\<rparr>"

definition quota_ops :: "(string, QuotaExeededEvent) event_ops" where
  "quota_ops = \<lparr>ev_key = (\<lambda>_. []), ev_counter = qe_counter, ev_size = None,
     ev_aggregate = (\<lambda>e event. Inr (QuotaExeededEvent_aggregate e event)), ev_forward = False\<rparr>"

definition renamed_ops :: "(uuid, FileRenamedEvent) event_ops" where
  "renamed_ops = \<lparr>ev_key = fre_oldUuid \<circ> fne_topEntry, ev_counter = fne_counter, ev_size = None,
     ev_aggregate = (\<lambda>e event. Inr (FileRenamedEvent_aggregate e event)), ev_forward = False\<rparr>"

definition accessed_ops :: "(uuid, FileAccessedEvent) event_ops" where
  "accessed_ops = \<lparr>ev_key = ae_fileUuid, ev_counter = ae_counter, ev_size = None,
     ev_aggregate = (\<lambda>e event. Inr (FileAccessedEvent_aggregate e event)), ev_forward = True\<rparr>"

interpretation read_stream: counted_event "read_ops I"
  by unfold_locales (auto simp: read_ops_def ReadEvent_aggregate_def)

interpretation write_stream: counted_event "write_ops I"
  by unfold_locales (auto simp: write_ops_def WriteEvent_aggregate_def split: sum.splits)

interpretation attr_stream: counted_event attr_ops
  by unfold_locales (auto simp: attr_ops_def UpdateEvent_aggregate_def FileAttr_aggregate_def Let_def)

interpretation location_stream: counted_event location_ops
  by unfold_locales (auto simp: location_ops_def UpdateEvent_aggregate_def FileLocation_aggregate_def)

interpretation permission_stream: counted_event permission_ops
  by unfold_locales (auto simp: permission_ops_def PermissionChangedEvent_aggregate_def)

interpretation removal_stream: counted_event removal_ops
  by unfold_locales (auto simp: removal_ops_def FileRemovalEvent_aggregate_def)

interpretation renamed_stream: counted_event renamed_ops
  by unfold_locales (auto simp: renamed_ops_def FileRenamedEvent_aggregate_def)

interpretation accessed_stream: counted_event accessed_ops
  by unfold_locales (auto simp: accessed_ops_def FileAccessedEvent_aggregate_def)

text \<open>The counter of quota events is not added up, so only the weaker contract holds.\<close>

interpretation quota_stream: keyed_event quota_ops
  by unfold_locales (auto simp: quota_ops_def)

section \<open>Properties\<close>

lemma reach_facts:
  assumes "keyed_event E" and "stream_reach E okE okS acc hs p s"
  shows "mset (m_counterThresholds s) = mset (List.map_filter uh_counter hs)"
    and "mset (m_sizeThresholds s) = mset (List.map_filter uh_size hs)"
    and "mset (m_timeThresholds s) = mset (List.map_filter uh_time hs)"
    and "m_counter s = 0 \<or> (\<forall>t \<in> set (m_counterThresholds s). m_counter s < t)"
    and "m_size s = 0 \<or> (\<forall>t \<in> set (m_sizeThresholds s). m_size s < t)"
    and "distinct (m_subscriptions s)" "mset (m_subscriptions s) = mset (List.map_filter uh_id hs)"
    and "m_eventBuffer s = VoidBuffer \<longleftrightarrow> m_subscriptions s = []"
    and "distinct (map (ev_key E \<circ> snd) (buffered s))"
    and "ev_forward E \<longrightarrow> sent_events (m_stream s) = filter (\<lambda>es. es \<noteq> []) (handled s)"
proof -
  have level: "n = 0 \<or> (\<forall>t \<in> set ts. n < t)" if "level_inv ts n" "thresholds_inv f hs ts" for ts n and f :: "UnsubscribeHandler \<Rightarrow> uint64 option"
    using that by (cases ts) (auto simp: level_inv_def reached_def thresholds_inv_def)
  have inv: "struct_inv E hs hs hs hs s" "live_inv p s"
    using keyed_event.reach_inv [OF assms] by blast+
  then have "map (ev_key E \<circ> snd) (buffered s) = map fst (buffered s)" "distinct (map fst (buffered s))"
    by (simp_all add: struct_inv_def keyed_buffer_def)
  then show "distinct (map (ev_key E \<circ> snd) (buffered s))" by (simp only:)
  show "m_counter s = 0 \<or> (\<forall>t \<in> set (m_counterThresholds s). m_counter s < t)"
    using inv level [of _ _ uh_counter] by (simp add: struct_inv_def live_inv_def)
  show "m_size s = 0 \<or> (\<forall>t \<in> set (m_sizeThresholds s). m_size s < t)"
    using inv level [of _ _ uh_size] by (simp add: struct_inv_def live_inv_def)
qed (use keyed_event.reach_inv [OF assms] in \<open>simp_all add: struct_inv_def thresholds_inv_def\<close>)

text \<open>
  C11. In every reachable state of an event stream the three sets of thresholds are those of the
  unsubscribe handlers not yet run, so each handler finds its threshold; the counter and the size
  are zero or below the lowest threshold; each active subscription has one handler; events are
  buffered exactly while there is a subscription, one entry per key; and what was sent to the
  provider is, batch by batch, what the handler of a forwarding stream received.
\<close>

theorem stream_consistent:
  assumes "keyed_event E" and "stream_reach E okE okS acc hs p s"
  shows "mset (m_counterThresholds s) = mset (List.map_filter uh_counter hs) \<and>
    mset (m_sizeThresholds s) = mset (List.map_filter uh_size hs) \<and>
    mset (m_timeThresholds s) = mset (List.map_filter uh_time hs) \<and>
    (m_counter s = 0 \<or> (\<forall>t \<in> set (m_counterThresholds s). m_counter s < t)) \<and>
    (m_size s = 0 \<or> (\<forall>t \<in> set (m_sizeThresholds s). m_size s < t)) \<and>
    distinct (m_subscriptions s) \<and> mset (m_subscriptions s) = mset (List.map_filter uh_id hs) \<and>
    (m_eventBuffer s = VoidBuffer \<longleftrightarrow> m_subscriptions s = []) \<and>
    distinct (map (ev_key E \<circ> snd) (buffered s)) \<and>
    (ev_forward E \<longrightarrow> sent_events (m_stream s) = filter (\<lambda>es. es \<noteq> []) (handled s))"
  by (intro conjI reach_facts [OF assms])

text \<open>An example: a subscription for every second access, a third access is pending.\<close>

definition example_sub :: Subscription where
  "example_sub = \<lparr>sub_id = 7, sub_counterThreshold = Some 2, sub_timeThreshold = Some 500, sub_sizeThreshold = None\<rparr>"

definition example_access :: "uuid \<Rightarrow> FileAccessedEvent" where
  "example_access u = FileAccessedEvent_new u 1 0"

definition example_stream :: "(uuid, FileAccessedEvent) EventStream" where
  "example_stream =
     snd (counter_process accessed_ops (example_access ''b'') (snd (counter_process accessed_ops (example_access ''a'')
       (snd (counter_process accessed_ops (example_access ''a'') (snd (subscribe accessed_ops example_sub EventStream_init)))))))"

definition example_handler :: UnsubscribeHandler where
  "example_handler = \<lparr>uh_counter = Some 2, uh_size = None, uh_time = Some 500, uh_id = Some 7\<rparr>"

lemma two_not_le_one: "\<not> (2::uint64) \<le> 1"
  by (simp add: word_le_nat_alt)

lemmas example_stream_defs = two_not_le_one example_sub_def example_access_def example_stream_def example_handler_def accessed_ops_def
  FileAccessedEvent_new_def FileAccessedEvent_aggregate_def subscribe_def counter_subscribe_def size_subscribe_def
  time_subscribe_def handler_subscribe_def Subscription_empty_def EventStream_init_def setEventBuffer_def
  buffer_clear_def resetPeriodicTrigger_def counter_process_def size_process_def trigger_event_def handler_process_def
  buffer_push_def reached_def trigger_def onTriggerCallback_def call_handler_def communicator_send_def
  bindA_def modifyA_def Let_def

lemma example_stream_reach:
  assumes "\<And>u. okE (example_access u)" "okS example_sub"
  shows "stream_reach accessed_ops okE okS [example_access ''a'', example_access ''a'', example_access ''b'']
    [example_handler] 0 example_stream"
proof -
  let ?s0 = "snd (subscribe accessed_ops example_sub EventStream_init)"
  let ?s1 = "snd (counter_process accessed_ops (example_access ''a'') ?s0)"
  let ?s2 = "snd (counter_process accessed_ops (example_access ''a'') ?s1)"
  have 0: "stream_reach accessed_ops okE okS [] [example_handler] 0 ?s0"
    using stream_reach.sub [where E = accessed_ops and okE = okE and okS = okS and sub = example_sub, OF stream_reach.start assms(2)]
    by (simp add: example_stream_defs)
  have ok: "counter_process accessed_ops (example_access ''a'') ?s0 = (Inr (), ?s1)"
    "counter_process accessed_ops (example_access ''a'') ?s1 = (Inr (), ?s2)"
    "counter_process accessed_ops (example_access ''b'') ?s2 = (Inr (), example_stream)"
    by (simp_all add: example_stream_defs)
  have subs: "m_subscriptions ?s0 = [7]" "m_subscriptions ?s1 = [7]" "m_subscriptions ?s2 = [7]"
    by (simp_all add: example_stream_defs)
  show ?thesis
    using stream_reach.event [OF stream_reach.event [OF stream_reach.event [OF 0 assms(1) ok(1)] assms(1) ok(2)]
        assms(1) ok(3)] by (simp add: subs)
qed

theorem stream_consistent_witness:
  "m_counterThresholds example_stream = [2] \<and> m_counter example_stream < 2"
proof -
  have "m_counterThresholds example_stream = [2]" "m_counter example_stream \<noteq> 0"
    by (simp_all add: example_stream_defs)
  then show ?thesis
    using stream_consistent [OF accessed_stream.keyed_event_axioms example_stream_reach [of "\<lambda>_. True" "\<lambda>_. True"]] by simp
qed

text \<open>
  C13. While a time threshold is subscribed, a flush is on its way: the timer is set to a delay no
  longer than the lowest threshold, or it has fired and its trigger waits in the queue of the worker.
  The trigger hands every buffered event to the handler, empties the buffer and sets the timer
  again, to the lowest threshold.
\<close>

theorem time_threshold_serviced:
  assumes "keyed_event E" and "stream_reach E okE okS acc hs p s" and "m_timeThresholds s \<noteq> []"
  shows "((\<exists>d. m_timer s = Some d \<and> (\<forall>t \<in> set (m_timeThresholds s). d \<le> t)) \<or> 0 < p) \<and>
    (case m_eventBuffer s of VoidBuffer \<Rightarrow> handled (trigger E s) = handled s
     | BufferMap es \<Rightarrow> handled (trigger E s) = handled s @ [map snd es] \<and> m_eventBuffer (trigger E s) = BufferMap []) \<and>
    m_timer (trigger E s) = Some (Min (set (m_timeThresholds s)))"
proof -
  have inv: "timer_inv p (m_timeThresholds s) (m_timer s)" "sorted (m_timeThresholds s)"
    using keyed_event.reach_inv [OF assms(1,2)] by (simp_all add: struct_inv_def live_inv_def thresholds_inv_def)
  obtain t ts where ts: "m_timeThresholds s = t # ts" using assms(3) by (cases "m_timeThresholds s") auto
  have "(\<exists>d. m_timer s = Some d \<and> (\<forall>t \<in> set (m_timeThresholds s). d \<le> t)) \<or> 0 < p"
    using inv ts by (cases "m_timer s") (auto simp: timer_inv_def intro: order_trans)
  moreover have "Min (set (t # ts)) = t"
    using inv(2) ts by (intro Min_eqI) auto
  moreover have "case m_eventBuffer s of VoidBuffer \<Rightarrow> handled (trigger E s) = handled s
     | BufferMap es \<Rightarrow> handled (trigger E s) = handled s @ [map snd es] \<and> m_eventBuffer (trigger E s) = BufferMap []"
    by (simp add: trigger_def onTriggerCallback_def resetPeriodicTrigger_def buffer_clear_def Let_def
        split: EventBuffer.split)
  ultimately show ?thesis by (simp add: ts)
qed

theorem time_threshold_serviced_witness:
  "m_timeThresholds example_stream = [500] \<and> m_timer (trigger accessed_ops example_stream) = Some 500"
proof -
  have "m_timeThresholds example_stream = [500]" by (simp add: example_stream_defs)
  then show ?thesis
    using time_threshold_serviced [OF accessed_stream.keyed_event_axioms example_stream_reach [of "\<lambda>_. True" "\<lambda>_. True"]] by simp
qed





end
