(* ===== verification/OC_EventManager.thy ===== *)
theory OC_EventManager
  imports OC_EventStream
begin

text \<open>
  The workers that run an event stream on its own thread (\<open>eventWorker.h\<close>), the registry of
  unsubscribe handlers they share (\<open>subscriptionRegistry.cc\<close>), the container of the subscriptions
  that arrive on handshake (\<open>subscriptionContainer.cc\<close>) and the manager that routes calls and
  messages to the nine streams (\<open>eventManager.cc\<close>).
\<close>

section \<open>Subscription registry\<close>

datatype stream_name =
    ReadStream | WriteStream | FileAttrStream | FileLocationStream | PermissionChangedStream
  | FileRemovalStream | QuotaExeededStream | FileRenamedStream | FileAccessedStream

text \<open>
  A registered handler posts the stack's unsubscribe handler to the worker of its stream; it is
  the name of the stream and the handler.
\<close>

record SubscriptionRegistry =
  m_subscriptionId :: int64
  m_handlers :: "(int64 \<times> stream_name \<times> UnsubscribeHandler) list"

definition SubscriptionRegistry_init :: SubscriptionRegistry where
  "SubscriptionRegistry_init = \<lparr>m_subscriptionId = 1, m_handlers = []\<rparr>"

definition nextSubscriptionId :: "SubscriptionRegistry \<Rightarrow> int64 \<times> SubscriptionRegistry" where
  "nextSubscriptionId r = (- m_subscriptionId r, r\<lparr>m_subscriptionId := m_subscriptionId r + 1\<rparr>)"

text \<open>\<open>False\<close> means that the id is taken: the caller's handler is executed at once.\<close>

definition addUnsubscribeHandler :: "int64 \<Rightarrow> stream_name \<times> UnsubscribeHandler \<Rightarrow> SubscriptionRegistry \<Rightarrow> bool \<times> SubscriptionRegistry" where
  "addUnsubscribeHandler i h r =
     (case map_of (m_handlers r) i of
        None \<Rightarrow> (True, r\<lparr>m_handlers := (i, h) # m_handlers r\<rparr>)
      | Some _ \<Rightarrow> (False, r))"

text \<open>The handler to execute, if there is one.\<close>

definition removeSubscription :: "int64 \<Rightarrow> SubscriptionRegistry \<Rightarrow> (stream_name \<times> UnsubscribeHandler) option \<times> SubscriptionRegistry" where
  "removeSubscription i r =
     (case map_of (m_handlers r) i of
        None \<Rightarrow> (None, r)
      | Some h \<Rightarrow> (Some h, r\<lparr>m_handlers := al_erase i (m_handlers r)\<rparr>))"

definition existSubscription :: "int64 \<Rightarrow> SubscriptionRegistry \<Rightarrow> bool" where
  "existSubscription i r \<longleftrightarrow> map_of (m_handlers r) i \<noteq> None"

section \<open>Event worker\<close>

text \<open>What is posted to the \<open>io_service\<close> of a worker; its only thread runs the tasks in order.\<close>

datatype 'e task = Process 'e | Subscribe Subscription | RunUnsubscribe UnsubscribeHandler | Trigger

record ('k, 'e) EventWorker =
  ew_stream :: "('k, 'e) EventStream"
  ew_tasks :: "'e task list"

definition EventWorker_init :: "('k, 'e) EventWorker" where
  "EventWorker_init = \<lparr>ew_stream = EventStream_init, ew_tasks = []\<rparr>"

definition post :: "'e task \<Rightarrow> ('k, 'e) EventWorker \<Rightarrow> ('k, 'e) EventWorker" where
  "post t w = w\<lparr>ew_tasks := ew_tasks w @ [t]\<rparr>"

definition emitEvent :: "'e \<Rightarrow> ('k, 'e) EventWorker \<Rightarrow> ('k, 'e) EventWorker" where
  "emitEvent event w = post (Process event) w"

definition worker_subscribe :: "Subscription \<Rightarrow> ('k, 'e) EventWorker \<Rightarrow> ('k, 'e) EventWorker" where
  "worker_subscribe subscription w = post (Subscribe subscription) w"

definition with_id :: "int64 \<Rightarrow> ClientSubscription \<Rightarrow> ClientSubscription" where
  "with_id i s = s\<lparr>cs_subscription := (cs_subscription s)\<lparr>sub_id := i\<rparr>\<rparr>"

definition worker_subscribe_both :: "ClientSubscription \<Rightarrow> ClientSubscription \<Rightarrow>
    ('k, 'e) EventWorker \<times> SubscriptionRegistry \<Rightarrow> int64 \<times> ('k, 'e) EventWorker \<times> SubscriptionRegistry" where
  "worker_subscribe_both clientSubscription serverSubscription wr =
     (let (i, r) = nextSubscriptionId (snd wr);
          w1 = worker_subscribe (cs_subscription (with_id i clientSubscription)) (fst wr);
          w2 = w1\<lparr>ew_stream := (ew_stream w1)\<lparr>m_stream := m_stream (ew_stream w1) @
                 [SentSubscription (with_id i serverSubscription)]\<rparr>\<rparr>
      in (i, w2, r))"

text \<open>The lambda that \<open>EventWorker::subscribe\<close> posts.\<close>

definition run_subscribe :: "('k, 'e) event_ops \<Rightarrow> stream_name \<Rightarrow> Subscription \<Rightarrow>
    ('k, 'e) EventWorker \<times> SubscriptionRegistry \<Rightarrow> ('k, 'e) EventWorker \<times> SubscriptionRegistry" where
  "run_subscribe E n subscription wr =
     (let (handler, s) = subscribe E subscription (ew_stream (fst wr));
          (added, r) = addUnsubscribeHandler (sub_id subscription) (n, handler) (snd wr);
          w = (fst wr)\<lparr>ew_stream := s\<rparr>
      in (if added then w else post (RunUnsubscribe handler) w, r))"

text \<open>One turn of the worker's thread. An error of a task ends the process.\<close>

definition run_one :: "('k, 'e) event_ops \<Rightarrow> stream_name \<Rightarrow> (('k, 'e) EventWorker \<times> SubscriptionRegistry, unit) act" where
  "run_one E n wr =
     (case ew_tasks (fst wr) of
        [] \<Rightarrow> (Inr (), wr)
      | t # ts \<Rightarrow>
          (let w = (fst wr)\<lparr>ew_tasks := ts\<rparr> in
           case t of
             Process event \<Rightarrow>
               (case counter_process E event (ew_stream w) of
                  (Inl x, s) \<Rightarrow> (Inl x, (w\<lparr>ew_stream := s\<rparr>, snd wr))
                | (Inr _, s) \<Rightarrow> (Inr (), (w\<lparr>ew_stream := s\<rparr>, snd wr)))
           | Subscribe subscription \<Rightarrow> (Inr (), run_subscribe E n subscription (w, snd wr))
           | RunUnsubscribe h \<Rightarrow> (Inr (), (w\<lparr>ew_stream := unsubscribe E h (ew_stream w)\<rparr>, snd wr))
           | Trigger \<Rightarrow> (Inr (), (w\<lparr>ew_stream := trigger E (ew_stream w)\<rparr>, snd wr))))"

text \<open>The scheduler fires the periodic trigger, whose handler posts to the worker.\<close>

definition fire_timer :: "('k, 'e) EventWorker \<Rightarrow> ('k, 'e) EventWorker" where
  "fire_timer w =
     (if m_timer (ew_stream w) = None then w
      else post Trigger (w\<lparr>ew_stream := (ew_stream w)\<lparr>m_timer := None\<rparr>\<rparr>))"

section \<open>Subscription container\<close>

datatype proto_subscription =
    Read_subscription proto_thresholds
  | Write_subscription proto_thresholds
  | File_accessed_subscription proto_thresholds
  | Other_subscription

record SubscriptionContainer =
  m_readSubscriptions :: "Subscription list"
  m_writeSubscriptions :: "Subscription list"
  m_fileAccessedSubscription :: "Subscription list"

definition container_add :: "int64 \<times> proto_subscription \<Rightarrow> SubscriptionContainer \<Rightarrow> SubscriptionContainer" where
  "container_add message c =
     (case message of
        (i, Read_subscription t) \<Rightarrow> c\<lparr>m_readSubscriptions := m_readSubscriptions c @ [ReadSubscription_of i t]\<rparr>
      | (i, Write_subscription t) \<Rightarrow> c\<lparr>m_writeSubscriptions := m_writeSubscriptions c @ [WriteSubscription_of i t]\<rparr>
      | (i, File_accessed_subscription t) \<Rightarrow>
          c\<lparr>m_fileAccessedSubscription := m_fileAccessedSubscription c @ [FileAccessedSubscription_of i t]\<rparr>
      | (i, Other_subscription) \<Rightarrow> c)"

section \<open>Event manager\<close>

record 'm EventManager =
  m_registry :: SubscriptionRegistry
  m_readEventStream :: "(uuid, 'm ReadEvent) EventWorker"
  m_writeEventStream :: "(uuid, 'm WriteEvent) EventWorker"
  m_fileAttrEventStream :: "(uuid, FileAttr UpdateEvent) EventWorker"
  m_fileLocationEventStream :: "(uuid, 'm FileLocation UpdateEvent) EventWorker"
  m_permissionChangedEventStream :: "(uuid, PermissionChangedEvent) EventWorker"
  m_fileRemovalEventStream :: "(uuid, FileRemovalEvent) EventWorker"
  m_quotaExeededEventStream :: "(string, QuotaExeededEvent) EventWorker"
  m_fileRenamedEventStream :: "(uuid, FileRenamedEvent) EventWorker"
  m_fileAccessedEventStream :: "(uuid, FileAccessedEvent) EventWorker"

definition EventManager_init :: "'m EventManager" where
  "EventManager_init =
     \<lparr>m_registry = SubscriptionRegistry_init, m_readEventStream = EventWorker_init,
      m_writeEventStream = EventWorker_init, m_fileAttrEventStream = EventWorker_init,
      m_fileLocationEventStream = EventWorker_init, m_permissionChangedEventStream = EventWorker_init,
      m_fileRemovalEventStream = EventWorker_init, m_quotaExeededEventStream = EventWorker_init,
      m_fileRenamedEventStream = EventWorker_init, m_fileAccessedEventStream = EventWorker_init\<rparr>"

subsection \<open>Emission\<close>

definition emitReadEvent :: "'m icl \<Rightarrow> off_t \<Rightarrow> uint64 \<Rightarrow> uuid \<Rightarrow> 'm EventManager \<Rightarrow> 'm EventManager" where
  "emitReadEvent I offset sz fileUuid M =
     M\<lparr>m_readEventStream := emitEvent (ReadEvent_new I offset sz fileUuid [] []) (m_readEventStream M)\<rparr>"

definition emitWriteEvent :: "'m icl \<Rightarrow> off_t \<Rightarrow> uint64 \<Rightarrow> uuid \<Rightarrow> storage_id \<Rightarrow> file_id \<Rightarrow> 'm EventManager \<Rightarrow> 'm EventManager" where
  "emitWriteEvent I offset sz fileUuid storageId fileId M =
     M\<lparr>m_writeEventStream :=
       emitEvent (WriteEvent_new I offset sz None fileUuid storageId fileId) (m_writeEventStream M)\<rparr>"

definition emitTruncateEvent :: "'m icl \<Rightarrow> off_t \<Rightarrow> uuid \<Rightarrow> 'm EventManager \<Rightarrow> 'm EventManager" where
  "emitTruncateEvent I fileSize fileUuid M =
     M\<lparr>m_writeEventStream :=
       emitEvent (WriteEvent_new I 0 0 (Some fileSize) fileUuid [] []) (m_writeEventStream M)\<rparr>"

definition emitFileRemovalEvent :: "uuid \<Rightarrow> 'm EventManager \<Rightarrow> 'm EventManager" where
  "emitFileRemovalEvent fileUuid M =
     M\<lparr>m_fileRemovalEventStream := emitEvent (FileRemovalEvent_new fileUuid) (m_fileRemovalEventStream M)\<rparr>"

definition emitFileOpenedEvent :: "uuid \<Rightarrow> 'm EventManager \<Rightarrow> 'm EventManager" where
  "emitFileOpenedEvent fileUuid M =
     M\<lparr>m_fileAccessedEventStream := emitEvent (FileAccessedEvent_new fileUuid 1 0) (m_fileAccessedEventStream M)\<rparr>"

definition emitFileReleasedEvent :: "uuid \<Rightarrow> 'm EventManager \<Rightarrow> 'm EventManager" where
  "emitFileReleasedEvent fileUuid M =
     M\<lparr>m_fileAccessedEventStream := emitEvent (FileAccessedEvent_new fileUuid 0 1) (m_fileAccessedEventStream M)\<rparr>"

subsection \<open>Subscription\<close>

definition subscribe_FileAttr :: "ClientSubscription \<Rightarrow> ClientSubscription \<Rightarrow> 'm EventManager \<Rightarrow> int64 \<times> 'm EventManager" where
  "subscribe_FileAttr c s M =
     (let (i, w, r) = worker_subscribe_both c s (m_fileAttrEventStream M, m_registry M)
      in (i, M\<lparr>m_fileAttrEventStream := w, m_registry := r\<rparr>))"

definition subscribe_FileRemoval :: "ClientSubscription \<Rightarrow> ClientSubscription \<Rightarrow> 'm EventManager \<Rightarrow> int64 \<times> 'm EventManager" where
  "subscribe_FileRemoval c s M =
     (let (i, w, r) = worker_subscribe_both c s (m_fileRemovalEventStream M, m_registry M)
      in (i, M\<lparr>m_fileRemovalEventStream := w, m_registry := r\<rparr>))"

definition subscribe_FileRenamed :: "ClientSubscription \<Rightarrow> ClientSubscription \<Rightarrow> 'm EventManager \<Rightarrow> int64 \<times> 'm EventManager" where
  "subscribe_FileRenamed c s M =
     (let (i, w, r) = worker_subscribe_both c s (m_fileRenamedEventStream M, m_registry M)
      in (i, M\<lparr>m_fileRenamedEventStream := w, m_registry := r\<rparr>))"

definition subscribe_FileLocation :: "ClientSubscription \<Rightarrow> ClientSubscription \<Rightarrow> 'm EventManager \<Rightarrow> int64 \<times> 'm EventManager" where
  "subscribe_FileLocation c s M =
     (let (i, w, r) = worker_subscribe_both c s (m_fileLocationEventStream M, m_registry M)
      in (i, M\<lparr>m_fileLocationEventStream := w, m_registry := r\<rparr>))"

definition subscribe_Quota :: "ClientSubscription \<Rightarrow> ClientSubscription \<Rightarrow> 'm EventManager \<Rightarrow> int64 \<times> 'm EventManager" where
  "subscribe_Quota c s M =
     (let (i, w, r) = worker_subscribe_both c s (m_quotaExeededEventStream M, m_registry M)
      in (i, M\<lparr>m_quotaExeededEventStream := w, m_registry := r\<rparr>))"

definition subscribe_PermissionChanged :: "ClientSubscription \<Rightarrow> ClientSubscription \<Rightarrow> 'm EventManager \<Rightarrow> int64 \<times> 'm EventManager" where
  "subscribe_PermissionChanged c s M =
     (let (i, w, r) = worker_subscribe_both c s (m_permissionChangedEventStream M, m_registry M)
      in (i, M\<lparr>m_permissionChangedEventStream := w, m_registry := r\<rparr>))"

definition subscribe_container :: "SubscriptionContainer \<Rightarrow> 'm EventManager \<Rightarrow> 'm EventManager" where
  "subscribe_container c M =
     M\<lparr>m_readEventStream := fold worker_subscribe (m_readSubscriptions c) (m_readEventStream M),
       m_writeEventStream := fold worker_subscribe (m_writeSubscriptions c) (m_writeEventStream M),
       m_fileAccessedEventStream := fold worker_subscribe (m_fileAccessedSubscription c) (m_fileAccessedEventStream M)\<rparr>"

text \<open>Executing a registered handler posts it to the worker of its stream.\<close>

definition execute_handler :: "stream_name \<times> UnsubscribeHandler \<Rightarrow> 'm EventManager \<Rightarrow> 'm EventManager" where
  "execute_handler nh M =
     (case nh of (n, h) \<Rightarrow>
        (case n of
           ReadStream \<Rightarrow> M\<lparr>m_readEventStream := post (RunUnsubscribe h) (m_readEventStream M)\<rparr>
         | WriteStream \<Rightarrow> M\<lparr>m_writeEventStream := post (RunUnsubscribe h) (m_writeEventStream M)\<rparr>
         | FileAttrStream \<Rightarrow> M\<lparr>m_fileAttrEventStream := post (RunUnsubscribe h) (m_fileAttrEventStream M)\<rparr>
         | FileLocationStream \<Rightarrow> M\<lparr>m_fileLocationEventStream := post (RunUnsubscribe h) (m_fileLocationEventStream M)\<rparr>
         | PermissionChangedStream \<Rightarrow>
             M\<lparr>m_permissionChangedEventStream := post (RunUnsubscribe h) (m_permissionChangedEventStream M)\<rparr>
         | FileRemovalStream \<Rightarrow> M\<lparr>m_fileRemovalEventStream := post (RunUnsubscribe h) (m_fileRemovalEventStream M)\<rparr>
         | QuotaExeededStream \<Rightarrow> M\<lparr>m_quotaExeededEventStream := post (RunUnsubscribe h) (m_quotaExeededEventStream M)\<rparr>
         | FileRenamedStream \<Rightarrow> M\<lparr>m_fileRenamedEventStream := post (RunUnsubscribe h) (m_fileRenamedEventStream M)\<rparr>
         | FileAccessedStream \<Rightarrow> M\<lparr>m_fileAccessedEventStream := post (RunUnsubscribe h) (m_fileAccessedEventStream M)\<rparr>))"

definition manager_unsubscribe :: "int64 \<Rightarrow> 'm EventManager \<Rightarrow> bool \<times> 'm EventManager" where
  "manager_unsubscribe i M =
     (case removeSubscription i (m_registry M) of
        (None, _) \<Rightarrow> (False, M)
      | (Some nh, r) \<Rightarrow> (True, (execute_handler nh M)\<lparr>m_registry := r\<rparr>))"

subsection \<open>Messages of the provider\<close>

datatype server_event =
    Update_file_attr proto_FileAttr
  | Update_file_location proto_FileLocation
  | Update_nothing
  | Server_permission_changed uuid
  | Server_file_removal uuid
  | Server_quota_exeeded "string list"
  | Server_file_renamed proto_FileRenamedEntry "proto_FileRenamedEntry list"
  | Server_other_event

definition handle_event :: "'m icl \<Rightarrow> server_event \<Rightarrow> ('m EventManager, unit) act" where
  "handle_event I eventMsg M =
     (case eventMsg of
        Update_file_attr a \<Rightarrow>
          (case FileAttr_deserialize a of
             Inl x \<Rightarrow> (Inl x, M)
           | Inr attr \<Rightarrow>
               (Inr (), M\<lparr>m_fileAttrEventStream := emitEvent (UpdateEvent_new attr) (m_fileAttrEventStream M)\<rparr>))
      | Update_file_location l \<Rightarrow>
          (Inr (), M\<lparr>m_fileLocationEventStream :=
             emitEvent (UpdateEvent_new (FileLocation_deserialize I l)) (m_fileLocationEventStream M)\<rparr>)
      | Update_nothing \<Rightarrow> (Inr (), M)
      | Server_permission_changed u \<Rightarrow>
          (Inr (), M\<lparr>m_permissionChangedEventStream :=
             emitEvent (PermissionChangedEvent_new u) (m_permissionChangedEventStream M)\<rparr>)
      | Server_file_removal u \<Rightarrow>
          (Inr (), M\<lparr>m_fileRemovalEventStream := emitEvent (FileRemovalEvent_new u) (m_fileRemovalEventStream M)\<rparr>)
      | Server_quota_exeeded ss \<Rightarrow>
          (Inr (), M\<lparr>m_quotaExeededEventStream := emitEvent (QuotaExeededEvent_new ss) (m_quotaExeededEventStream M)\<rparr>)
      | Server_file_renamed t cs \<Rightarrow>
          (Inr (), M\<lparr>m_fileRenamedEventStream := emitEvent (FileRenamedEvent_new t cs) (m_fileRenamedEventStream M)\<rparr>)
      | Server_other_event \<Rightarrow> (Inr (), M))"

fun handle_events :: "'m icl \<Rightarrow> server_event list \<Rightarrow> ('m EventManager, unit) act" where
  "handle_events I [] M = (Inr (), M)"
| "handle_events I (e # es) M = bindA (handle_event I e) (\<lambda>_. handle_events I es) M"

definition handle_subscription :: "int64 \<times> proto_subscription \<Rightarrow> 'm EventManager \<Rightarrow> 'm EventManager" where
  "handle_subscription message M =
     (case message of
        (i, Read_subscription t) \<Rightarrow>
          M\<lparr>m_readEventStream := worker_subscribe (ReadSubscription_of i t) (m_readEventStream M)\<rparr>
      | (i, Write_subscription t) \<Rightarrow>
          M\<lparr>m_writeEventStream := worker_subscribe (WriteSubscription_of i t) (m_writeEventStream M)\<rparr>
      | (i, File_accessed_subscription t) \<Rightarrow>
          M\<lparr>m_fileAccessedEventStream :=
            worker_subscribe (FileAccessedSubscription_new i None None) (m_fileAccessedEventStream M)\<rparr>
      | (i, Other_subscription) \<Rightarrow> M)"

definition handle_cancellation :: "int64 \<Rightarrow> 'm EventManager \<Rightarrow> 'm EventManager" where
  "handle_cancellation i M = snd (manager_unsubscribe i M)"

datatype server_push =
    Push_events "server_event list"
  | Push_subscription int64 proto_subscription
  | Push_cancellation int64
  | Push_other

definition manager_predicate :: "server_push \<Rightarrow> bool" where
  "manager_predicate message \<longleftrightarrow> message \<noteq> Push_other"

definition manager_callback :: "'m icl \<Rightarrow> server_push \<Rightarrow> ('m EventManager, unit) act" where
  "manager_callback I message M =
     (case message of
        Push_events es \<Rightarrow> handle_events I es M
      | Push_subscription i s \<Rightarrow> (Inr (), handle_subscription (i, s) M)
      | Push_cancellation i \<Rightarrow> (Inr (), handle_cancellation i M)
      | Push_other \<Rightarrow> (Inr (), M))"

section \<open>Runs of the manager\<close>

text \<open>
  Calls of the client, messages of the provider, turns of the nine worker threads and firings of
  the nine timers, in any order.
\<close>

definition run_worker :: "'m icl \<Rightarrow> stream_name \<Rightarrow> ('m EventManager, unit) act" where
  "run_worker I n M =
     (case n of
        ReadStream \<Rightarrow> (case run_one (read_ops I) n (m_readEventStream M, m_registry M) of
          (x, w, r) \<Rightarrow> (x, M\<lparr>m_readEventStream := w, m_registry := r\<rparr>))
      | WriteStream \<Rightarrow> (case run_one (write_ops I) n (m_writeEventStream M, m_registry M) of
          (x, w, r) \<Rightarrow> (x, M\<lparr>m_writeEventStream := w, m_registry := r\<rparr>))
      | FileAttrStream \<Rightarrow> (case run_one attr_ops n (m_fileAttrEventStream M, m_registry M) of
          (x, w, r) \<Rightarrow> (x, M\<lparr>m_fileAttrEventStream := w, m_registry := r\<rparr>))
      | FileLocationStream \<Rightarrow> (case run_one location_ops n (m_fileLocationEventStream M, m_registry M) of
          (x, w, r) \<Rightarrow> (x, M\<lparr>m_fileLocationEventStream := w, m_registry := r\<rparr>))
      | PermissionChangedStream \<Rightarrow> (case run_one permission_ops n (m_permissionChangedEventStream M, m_registry M) of
          (x, w, r) \<Rightarrow> (x, M\<lparr>m_permissionChangedEventStream := w, m_registry := r\<rparr>))
      | FileRemovalStream \<Rightarrow> (case run_one removal_ops n (m_fileRemovalEventStream M, m_registry M) of
          (x, w, r) \<Rightarrow> (x, M\<lparr>m_fileRemovalEventStream := w, m_registry := r\<rparr>))
      | QuotaExeededStream \<Rightarrow> (case run_one quota_ops n (m_quotaExeededEventStream M, m_registry M) of
          (x, w, r) \<Rightarrow> (x, M\<lparr>m_quotaExeededEventStream := w, m_registry := r\<rparr>))
      | FileRenamedStream \<Rightarrow> (case run_one renamed_ops n (m_fileRenamedEventStream M, m_registry M) of
          (x, w, r) \<Rightarrow> (x, M\<lparr>m_fileRenamedEventStream := w, m_registry := r\<rparr>))
      | FileAccessedStream \<Rightarrow> (case run_one accessed_ops n (m_fileAccessedEventStream M, m_registry M) of
          (x, w, r) \<Rightarrow> (x, M\<lparr>m_fileAccessedEventStream := w, m_registry := r\<rparr>)))"

definition fire :: "stream_name \<Rightarrow> 'm EventManager \<Rightarrow> 'm EventManager" where
  "fire n M =
     (case n of
        ReadStream \<Rightarrow> M\<lparr>m_readEventStream := fire_timer (m_readEventStream M)\<rparr>
      | WriteStream \<Rightarrow> M\<lparr>m_writeEventStream := fire_timer (m_writeEventStream M)\<rparr>
      | FileAttrStream \<Rightarrow> M\<lparr>m_fileAttrEventStream := fire_timer (m_fileAttrEventStream M)\<rparr>
      | FileLocationStream \<Rightarrow> M\<lparr>m_fileLocationEventStream := fire_timer (m_fileLocationEventStream M)\<rparr>
      | PermissionChangedStream \<Rightarrow> M\<lparr>m_permissionChangedEventStream := fire_timer (m_permissionChangedEventStream M)\<rparr>
      | FileRemovalStream \<Rightarrow> M\<lparr>m_fileRemovalEventStream := fire_timer (m_fileRemovalEventStream M)\<rparr>
      | QuotaExeededStream \<Rightarrow> M\<lparr>m_quotaExeededEventStream := fire_timer (m_quotaExeededEventStream M)\<rparr>
      | FileRenamedStream \<Rightarrow> M\<lparr>m_fileRenamedEventStream := fire_timer (m_fileRenamedEventStream M)\<rparr>
      | FileAccessedStream \<Rightarrow> M\<lparr>m_fileAccessedEventStream := fire_timer (m_fileAccessedEventStream M)\<rparr>)"

datatype call =
    EmitRead off_t uint64 uuid
  | EmitWrite off_t uint64 uuid storage_id file_id
  | EmitTruncate off_t uuid
  | EmitRemoval uuid
  | EmitOpened uuid
  | EmitReleased uuid
  | SubscribeClient stream_name ClientSubscription ClientSubscription
  | SubscribeServer SubscriptionContainer
  | Unsubscribe int64
  | Receive server_push
  | Run stream_name
  | Fire stream_name

definition subscribe_client :: "stream_name \<Rightarrow> ClientSubscription \<Rightarrow> ClientSubscription \<Rightarrow> 'm EventManager \<Rightarrow> 'm EventManager" where
  "subscribe_client n c s M =
     (case n of
        FileAttrStream \<Rightarrow> snd (subscribe_FileAttr c s M)
      | FileLocationStream \<Rightarrow> snd (subscribe_FileLocation c s M)
      | PermissionChangedStream \<Rightarrow> snd (subscribe_PermissionChanged c s M)
      | FileRemovalStream \<Rightarrow> snd (subscribe_FileRemoval c s M)
      | QuotaExeededStream \<Rightarrow> snd (subscribe_Quota c s M)
      | FileRenamedStream \<Rightarrow> snd (subscribe_FileRenamed c s M)
      | _ \<Rightarrow> M)"

definition do_call :: "'m icl \<Rightarrow> call \<Rightarrow> ('m EventManager, unit) act" where
  "do_call I c M =
     (case c of
        EmitRead offset sz u \<Rightarrow> (Inr (), emitReadEvent I offset sz u M)
      | EmitWrite offset sz u st f \<Rightarrow> (Inr (), emitWriteEvent I offset sz u st f M)
      | EmitTruncate sz u \<Rightarrow> (Inr (), emitTruncateEvent I sz u M)
      | EmitRemoval u \<Rightarrow> (Inr (), emitFileRemovalEvent u M)
      | EmitOpened u \<Rightarrow> (Inr (), emitFileOpenedEvent u M)
      | EmitReleased u \<Rightarrow> (Inr (), emitFileReleasedEvent u M)
      | SubscribeClient n cs ss \<Rightarrow> (Inr (), subscribe_client n cs ss M)
      | SubscribeServer ct \<Rightarrow> (Inr (), subscribe_container ct M)
      | Unsubscribe i \<Rightarrow> (Inr (), snd (manager_unsubscribe i M))
      | Receive m \<Rightarrow> (if manager_predicate m then manager_callback I m M else (Inr (), M))
      | Run n \<Rightarrow> run_worker I n M
      | Fire n \<Rightarrow> (Inr (), fire n M))"

text \<open>
  A message that cannot be deserialised raises to the communication layer and leaves what was
  emitted before; an error on a worker thread ends the process, so a run ends there.
\<close>

inductive manager_reach :: "'m icl \<Rightarrow> 'm EventManager \<Rightarrow> bool" for I where
  manager_start: "manager_reach I EventManager_init"
| manager_step: "manager_reach I M \<Longrightarrow> do_call I c M = (x, M') \<Longrightarrow> (\<forall>n. c = Run n \<longrightarrow> x = Inr ()) \<Longrightarrow>
    manager_reach I M'"

section \<open>One worker and the registry\<close>

definition registered :: "stream_name \<Rightarrow> SubscriptionRegistry \<Rightarrow> UnsubscribeHandler list" where
  "registered n r = map (snd \<circ> snd) (filter (\<lambda>e. fst (snd e) = n) (m_handlers r))"

fun queued :: "'e task list \<Rightarrow> UnsubscribeHandler list" where
  "queued [] = []"
| "queued (RunUnsubscribe h # ts) = h # queued ts"
| "queued (_ # ts) = queued ts"

fun triggers :: "'e task list \<Rightarrow> nat" where
  "triggers [] = 0"
| "triggers (Trigger # ts) = Suc (triggers ts)"
| "triggers (_ # ts) = triggers ts"

lemma queued_append [simp]: "queued (ts @ us) = queued ts @ queued us"
  by (induction ts rule: queued.induct) simp_all

lemma triggers_append [simp]: "triggers (ts @ us) = triggers ts + triggers us"
  by (induction ts rule: triggers.induct) simp_all

text \<open>
  The stream of a worker is in a state that the stack can reach, and the unsubscribe handlers not
  yet run are those registered and those posted.
\<close>

definition worker_inv :: "('k, 'e) event_ops \<Rightarrow> ('k, 'e) EventWorker \<Rightarrow> UnsubscribeHandler list \<Rightarrow> bool" where
  "worker_inv E w R \<longleftrightarrow>
     (\<exists>acc hs. stream_reach E (\<lambda>_. True) (\<lambda>_. True) acc hs (triggers (ew_tasks w)) (ew_stream w) \<and>
       mset hs = mset R + mset (queued (ew_tasks w)))"

lemma worker_inv_init [simp]: "worker_inv E EventWorker_init []"
  using stream_reach.start [of E "\<lambda>_. True" "\<lambda>_. True"] by (auto simp: worker_inv_def EventWorker_init_def)

lemma worker_inv_emit [simp]: "worker_inv E (emitEvent e w) R \<longleftrightarrow> worker_inv E w R"
  by (simp add: worker_inv_def emitEvent_def post_def)

lemma worker_inv_subscribe [simp]: "worker_inv E (worker_subscribe sub w) R \<longleftrightarrow> worker_inv E w R"
  by (simp add: worker_inv_def worker_subscribe_def post_def)

lemma worker_inv_fold_subscribe [simp]: "worker_inv E (fold worker_subscribe subs w) R \<longleftrightarrow> worker_inv E w R"
  by (induction subs arbitrary: w) simp_all

lemma worker_inv_send:
  "worker_inv E w R \<Longrightarrow>
     worker_inv E (w\<lparr>ew_stream := (ew_stream w)\<lparr>m_stream := m_stream (ew_stream w) @ [SentSubscription x]\<rparr>\<rparr>) R"
  unfolding worker_inv_def by (auto intro: stream_reach.send)

lemma worker_inv_both:
  assumes "worker_inv E w R" "worker_subscribe_both c s (w, r) = (i, w', r')"
  shows "worker_inv E w' R \<and> m_handlers r' = m_handlers r"
  using assms worker_inv_send [of E "worker_subscribe sub w" R for sub]
  by (auto simp: worker_subscribe_both_def nextSubscriptionId_def Let_def)

lemma worker_inv_unsubscribe:
  "worker_inv E w R \<Longrightarrow> mset R = add_mset h (mset R') \<Longrightarrow> worker_inv E (post (RunUnsubscribe h) w) R'"
  by (auto simp: worker_inv_def post_def)

lemma worker_inv_fire [simp]: "worker_inv E w R \<Longrightarrow> worker_inv E (fire_timer w) R"
  by (auto simp: worker_inv_def fire_timer_def post_def intro: stream_reach.fire)

lemma worker_inv_mset: "worker_inv E w R \<Longrightarrow> mset R = mset R' \<Longrightarrow> worker_inv E w R'"
  by (simp add: worker_inv_def)

lemma stream_reach_handlers:
  assumes "stream_reach E okE okS acc hs p s" "h \<in> set hs" "mset hs' = mset hs - {#h#}"
  shows "\<exists>hs''. mset hs'' = mset hs' \<and> stream_reach E okE okS acc hs'' p (unsubscribe E h s)"
  using stream_reach.unsub [OF assms(1,2)] assms(3) by (intro exI [of _ "remove1 h hs"]) simp

lemma add_registered:
  assumes "addUnsubscribeHandler i (n, h) r = (added, r')"
  shows "mset (registered n r') = (if added then {#h#} else {#}) + mset (registered n r)"
    and "n' \<noteq> n \<Longrightarrow> registered n' r' = registered n' r"
  using assms by (auto simp: addUnsubscribeHandler_def registered_def split: option.splits)

lemma worker_inv_run:
  assumes inv: "worker_inv E w (registered n r)" and run: "run_one E n (w, r) = (Inr (), w', r')"
  shows "worker_inv E w' (registered n r') \<and> (\<forall>n'. n' \<noteq> n \<longrightarrow> registered n' r' = registered n' r)"
proof (cases "ew_tasks w")
  case Nil
  then show ?thesis using assms by (simp add: run_one_def)
next
  case (Cons t ts)
  obtain acc hs where reach: "stream_reach E (\<lambda>_. True) (\<lambda>_. True) acc hs (triggers (t # ts)) (ew_stream w)"
    and hs: "mset hs = mset (registered n r) + mset (queued (t # ts))"
    using inv Cons by (auto simp: worker_inv_def)
  show ?thesis
  proof (cases t)
    case (Process e)
    obtain s where s: "counter_process E e (ew_stream w) = (Inr (), s)" "w' = w\<lparr>ew_tasks := ts, ew_stream := s\<rparr>" "r' = r"
      using run Cons Process by (cases "counter_process E e (ew_stream w)") (auto simp: run_one_def Let_def split: sum.splits)
    show ?thesis
      using stream_reach.event [OF reach TrueI s(1)] hs Process s by (auto simp: worker_inv_def)
  next
    case (Subscribe sub)
    obtain h s where hs': "subscribe E sub (ew_stream w) = (h, s)" by fastforce
    obtain added where a: "addUnsubscribeHandler (sub_id sub) (n, h) r = (added, r')"
      and w': "w' = (if added then w\<lparr>ew_tasks := ts, ew_stream := s\<rparr>
        else post (RunUnsubscribe h) (w\<lparr>ew_tasks := ts, ew_stream := s\<rparr>))"
      using run Cons Subscribe hs'
      by (cases "addUnsubscribeHandler (sub_id sub) (n, h) r") (auto simp: run_one_def run_subscribe_def Let_def)
    show ?thesis
      using stream_reach.sub [OF reach TrueI, of sub] hs Subscribe hs' add_registered [OF a] w'
      by (auto simp: worker_inv_def post_def intro!: exI [of _ "h # hs"] exI [of _ acc])
  next
    case (RunUnsubscribe h)
    have "h \<in> set hs" using hs RunUnsubscribe by (simp flip: set_mset_mset)
    then obtain hs' where "mset hs' = mset (registered n r @ queued ts)"
      "stream_reach E (\<lambda>_. True) (\<lambda>_. True) acc hs' (triggers ts) (unsubscribe E h (ew_stream w))"
      using stream_reach_handlers [OF reach, of h "registered n r @ queued ts"] hs RunUnsubscribe by auto
    moreover have "w' = w\<lparr>ew_tasks := ts, ew_stream := unsubscribe E h (ew_stream w)\<rparr>" "r' = r"
      using run Cons RunUnsubscribe by (simp_all add: run_one_def Let_def)
    ultimately show ?thesis by (auto simp: worker_inv_def)
  next
    case Trigger
    then show ?thesis
      using stream_reach.trig [of E "\<lambda>_. True" "\<lambda>_. True" acc hs "triggers ts" "ew_stream w"] reach hs run Cons
      by (auto simp: run_one_def worker_inv_def Let_def intro!: exI [of _ acc] exI [of _ hs])
  qed
qed

section \<open>All workers\<close>

definition manager_inv :: "'m icl \<Rightarrow> 'm EventManager \<Rightarrow> bool" where
  "manager_inv I M \<longleftrightarrow>
     distinct (map fst (m_handlers (m_registry M))) \<and>
     worker_inv (read_ops I) (m_readEventStream M) (registered ReadStream (m_registry M)) \<and>
     worker_inv (write_ops I) (m_writeEventStream M) (registered WriteStream (m_registry M)) \<and>
     worker_inv attr_ops (m_fileAttrEventStream M) (registered FileAttrStream (m_registry M)) \<and>
     worker_inv location_ops (m_fileLocationEventStream M) (registered FileLocationStream (m_registry M)) \<and>
     worker_inv permission_ops (m_permissionChangedEventStream M) (registered PermissionChangedStream (m_registry M)) \<and>
     worker_inv removal_ops (m_fileRemovalEventStream M) (registered FileRemovalStream (m_registry M)) \<and>
     worker_inv quota_ops (m_quotaExeededEventStream M) (registered QuotaExeededStream (m_registry M)) \<and>
     worker_inv renamed_ops (m_fileRenamedEventStream M) (registered FileRenamedStream (m_registry M)) \<and>
     worker_inv accessed_ops (m_fileAccessedEventStream M) (registered FileAccessedStream (m_registry M))"

lemma manager_inv_init: "manager_inv I EventManager_init"
  by (simp add: manager_inv_def EventManager_init_def SubscriptionRegistry_init_def registered_def)

lemma registered_cong: "m_handlers r = m_handlers r' \<Longrightarrow> registered n r = registered n r'"
  by (simp add: registered_def)

lemma emit_inv:
  assumes "manager_inv I M"
  shows "manager_inv I (emitReadEvent I offset sz u M)" "manager_inv I (emitWriteEvent I offset sz u st f M)"
    "manager_inv I (emitTruncateEvent I fsz u M)" "manager_inv I (emitFileRemovalEvent u M)"
    "manager_inv I (emitFileOpenedEvent u M)" "manager_inv I (emitFileReleasedEvent u M)"
    "manager_inv I (subscribe_container ct M)" "manager_inv I (handle_subscription msg M)"
  using assms
  by (simp_all add: manager_inv_def emitReadEvent_def emitWriteEvent_def emitTruncateEvent_def
      emitFileRemovalEvent_def emitFileOpenedEvent_def emitFileReleasedEvent_def subscribe_container_def
      handle_subscription_def split: prod.split proto_subscription.split)

lemma subscribe_client_inv:
  assumes "manager_inv I M"
  shows "manager_inv I (subscribe_client n c s M)"
proof -
  have wb: "worker_inv E (fst (snd (worker_subscribe_both c s (w, r)))) R"
    if "worker_inv E w R" for E :: "('k, 'e) event_ops" and w r R
    using worker_inv_both [OF that] by (metis prod.collapse)
  have hb: "m_handlers (snd (snd (worker_subscribe_both c s (w, r)))) = m_handlers r" for w :: "('k, 'e) EventWorker" and r
    by (simp add: worker_subscribe_both_def nextSubscriptionId_def Let_def)
  note R = registered_cong [OF hb]
  show ?thesis
    using assms
    by (cases n)
       (simp_all add: manager_inv_def subscribe_client_def subscribe_FileAttr_def subscribe_FileLocation_def
         subscribe_PermissionChanged_def subscribe_FileRemoval_def subscribe_Quota_def subscribe_FileRenamed_def
         case_prod_beta wb hb R)
qed

lemma registered_remove:
  assumes "distinct (map fst (m_handlers r))" "removeSubscription i r = (Some (n, h), r')"
  shows "mset (registered n r) = add_mset h (mset (registered n r'))"
    and "n' \<noteq> n \<Longrightarrow> registered n' r' = registered n' r"
    and "distinct (map fst (m_handlers r'))"
proof -
  have at: "map_of (m_handlers r) i = Some (n, h)" and r': "r' = r\<lparr>m_handlers := al_erase i (m_handlers r)\<rparr>"
    using assms(2) by (auto simp: removeSubscription_def split: option.splits)
  have erase: "al_erase i xs = filter (\<lambda>e. fst e \<noteq> i) xs" for xs :: "(int64 \<times> stream_name \<times> UnsubscribeHandler) list"
    by (induction xs) auto
  from at obtain xs ys where split: "m_handlers r = xs @ (i, n, h) # ys"
    by (meson map_of_SomeD split_list)
  have "filter (\<lambda>e. fst e \<noteq> i) xs = xs" "filter (\<lambda>e. fst e \<noteq> i) ys = ys"
    using assms(1) split by (force intro!: filter_True)+
  then have "al_erase i (m_handlers r) = xs @ ys"
    by (simp add: erase split)
  then show "mset (registered n r) = add_mset h (mset (registered n r'))"
    "n' \<noteq> n \<Longrightarrow> registered n' r' = registered n' r" "distinct (map fst (m_handlers r'))"
    using split assms(1) by (auto simp: registered_def r')
qed

lemma manager_unsubscribe_inv:
  assumes "manager_inv I M"
  shows "manager_inv I (snd (manager_unsubscribe i M))"
proof (cases "fst (removeSubscription i (m_registry M))")
  case None
  then show ?thesis
    using assms by (cases "removeSubscription i (m_registry M)") (simp add: manager_unsubscribe_def)
next
  case (Some nh)
  obtain n h r' where rm: "removeSubscription i (m_registry M) = (Some (n, h), r')"
    using Some by (metis prod.collapse)
  have d: "distinct (map fst (m_handlers (m_registry M)))" using assms by (simp add: manager_inv_def)
  note R = registered_remove [OF d rm]
  have U: "worker_inv E (post (RunUnsubscribe h) w) (registered m r')"
    if "n = m" "worker_inv E w (registered m (m_registry M))" for E :: "('k, 'e) event_ops" and w m
    using worker_inv_unsubscribe [OF that(2)] R(1) that(1) by simp
  show ?thesis
    using assms R(2,3)
    by (cases n) (simp_all add: manager_unsubscribe_def rm execute_handler_def manager_inv_def U)
qed

lemma handle_events_inv:
  "manager_inv I M \<Longrightarrow> manager_inv I (snd (handle_events I es M))"
proof (induction es arbitrary: M)
  case (Cons e es)
  have "manager_inv I (snd (handle_event I e M))"
    using Cons.prems by (simp add: handle_event_def manager_inv_def split: server_event.split sum.split)
  then show ?case
    using Cons.IH by (auto simp: bindA_def split: prod.split sum.split)
qed simp

lemma run_one_distinct:
  assumes "run_one E n (w, r) = (x, w', r')" "distinct (map fst (m_handlers r))"
  shows "distinct (map fst (m_handlers r'))"
proof -
  have add: "distinct (map fst (m_handlers (snd (addUnsubscribeHandler i h r))))" for i h
    using assms(2) by (auto simp: addUnsubscribeHandler_def map_of_eq_None_iff split: option.split)
  show ?thesis
    using assms add
    by (auto simp: run_one_def run_subscribe_def case_prod_beta Let_def split: list.splits task.splits sum.splits)
qed

lemma run_worker_inv:
  assumes "manager_inv I M" "run_worker I n M = (Inr (), M')"
  shows "manager_inv I M'"
proof -
  have run: "worker_inv E w' (registered m r') \<and> (\<forall>n'. n' \<noteq> m \<longrightarrow> registered n' r' = registered n' (m_registry M)) \<and>
    distinct (map fst (m_handlers r'))"
    if "run_one E m (w, m_registry M) = (Inr (), w', r')" "worker_inv E w (registered m (m_registry M))"
    for E :: "('k, 'e) event_ops" and w w' r' m
    using worker_inv_run [OF that(2,1)] run_one_distinct [OF that(1)] assms(1) by (auto simp: manager_inv_def)
  show ?thesis
    using assms
    by (cases n) (auto simp: run_worker_def manager_inv_def split: prod.splits dest!: run)
qed

lemma fire_inv: "manager_inv I M \<Longrightarrow> manager_inv I (fire n M)"
  by (cases n) (simp_all add: fire_def manager_inv_def)

lemma reach_manager_inv: "manager_reach I M \<Longrightarrow> manager_inv I M"
proof (induction rule: manager_reach.induct)
  case manager_start
  show ?case by (rule manager_inv_init)
next
  case (manager_step M c x M')
  note inv = emit_inv [OF manager_step.IH] subscribe_client_inv [OF manager_step.IH]
    manager_unsubscribe_inv [OF manager_step.IH] fire_inv [OF manager_step.IH]
    run_worker_inv [OF manager_step.IH]
  have events: "manager_inv I N" if "handle_events I es M = (y, N)" for es y N
    using handle_events_inv [OF manager_step.IH, of es] that by simp
  show ?case
    using manager_step.hyps(2,3) manager_step.IH inv events
    by (cases c) (auto simp: do_call_def manager_callback_def handle_cancellation_def split: if_splits server_push.splits)
qed

section \<open>Properties\<close>

text \<open>What a stream holds: its thresholds, its subscriptions and the unsubscribe handlers posted to its worker.\<close>

definition worker_holdings :: "('k, 'e) EventWorker \<Rightarrow> uint64 list \<times> uint64 list \<times> int list \<times> int64 list \<times> UnsubscribeHandler list" where
  "worker_holdings w =
     (m_counterThresholds (ew_stream w), m_sizeThresholds (ew_stream w), m_timeThresholds (ew_stream w),
      m_subscriptions (ew_stream w), queued (ew_tasks w))"

definition holdings :: "stream_name \<Rightarrow> 'm EventManager \<Rightarrow> uint64 list \<times> uint64 list \<times> int list \<times> int64 list \<times> UnsubscribeHandler list" where
  "holdings n M =
     (case n of
        ReadStream \<Rightarrow> worker_holdings (m_readEventStream M)
      | WriteStream \<Rightarrow> worker_holdings (m_writeEventStream M)
      | FileAttrStream \<Rightarrow> worker_holdings (m_fileAttrEventStream M)
      | FileLocationStream \<Rightarrow> worker_holdings (m_fileLocationEventStream M)
      | PermissionChangedStream \<Rightarrow> worker_holdings (m_permissionChangedEventStream M)
      | FileRemovalStream \<Rightarrow> worker_holdings (m_fileRemovalEventStream M)
      | QuotaExeededStream \<Rightarrow> worker_holdings (m_quotaExeededEventStream M)
      | FileRenamedStream \<Rightarrow> worker_holdings (m_fileRenamedEventStream M)
      | FileAccessedStream \<Rightarrow> worker_holdings (m_fileAccessedEventStream M))"

lemma worker_holdings_owned:
  assumes "keyed_event E" "worker_inv E w R" "worker_holdings w = (cs, ss, ts, is, posted)"
  shows "distinct is \<and> mset is = mset (List.map_filter uh_id (R @ posted)) \<and>
    mset cs = mset (List.map_filter uh_counter (R @ posted)) \<and>
    mset ss = mset (List.map_filter uh_size (R @ posted)) \<and>
    mset ts = mset (List.map_filter uh_time (R @ posted))"
proof -
  obtain acc hs where r: "stream_reach E (\<lambda>_. True) (\<lambda>_. True) acc hs (triggers (ew_tasks w)) (ew_stream w)"
    and hs: "mset hs = mset (R @ posted)"
    using assms(2,3) by (auto simp: worker_inv_def worker_holdings_def)
  have "mset (List.map_filter f hs) = mset (List.map_filter f (R @ posted))" for f :: "UnsubscribeHandler \<Rightarrow> 'z option"
    using hs unfolding List.map_filter_def by (metis mset_filter mset_map)
  note F = this
  show ?thesis
    using reach_facts [OF assms(1) r] assms(3) unfolding F by (simp add: worker_holdings_def)
qed

text \<open>
  C9. Whatever the client and the provider subscribe and cancel, and however the worker threads
  interleave, every subscription and every threshold a stream holds belongs to exactly one
  unsubscribe handler that is registered or already posted to the worker. So no handler runs twice,
  and each finds the thresholds it has to remove.
\<close>

theorem manager_handlers_owned:
  assumes "manager_reach I M" and "holdings n M = (cs, ss, ts, is, posted)"
    and "hs = registered n (m_registry M) @ posted"
  shows "distinct (map fst (m_handlers (m_registry M))) \<and>
    distinct is \<and> mset is = mset (List.map_filter uh_id hs) \<and>
    mset cs = mset (List.map_filter uh_counter hs) \<and>
    mset ss = mset (List.map_filter uh_size hs) \<and>
    mset ts = mset (List.map_filter uh_time hs)"
proof -
  note inv = reach_manager_inv [OF assms(1), unfolded manager_inv_def]
  have own: ?thesis if "keyed_event E" "worker_inv E w (registered n (m_registry M))"
    "worker_holdings w = (cs, ss, ts, is, posted)" for E :: "('k, 'e) event_ops" and w
    using worker_holdings_owned [OF that] inv assms(3) by simp
  note h = assms(2) [unfolded holdings_def]
  show ?thesis
  proof (cases n)
    case ReadStream
    show ?thesis by (rule own [OF read_stream.keyed_event_axioms [of I], of "m_readEventStream M"]) (use inv h ReadStream in simp_all)
  next
    case WriteStream
    show ?thesis by (rule own [OF write_stream.keyed_event_axioms [of I], of "m_writeEventStream M"]) (use inv h WriteStream in simp_all)
  next
    case FileAttrStream
    show ?thesis by (rule own [OF attr_stream.keyed_event_axioms, of "m_fileAttrEventStream M"]) (use inv h FileAttrStream in simp_all)
  next
    case FileLocationStream
    show ?thesis by (rule own [OF location_stream.keyed_event_axioms, of "m_fileLocationEventStream M"]) (use inv h FileLocationStream in simp_all)
  next
    case PermissionChangedStream
    show ?thesis by (rule own [OF permission_stream.keyed_event_axioms, of "m_permissionChangedEventStream M"]) (use inv h PermissionChangedStream in simp_all)
  next
    case FileRemovalStream
    show ?thesis by (rule own [OF removal_stream.keyed_event_axioms, of "m_fileRemovalEventStream M"]) (use inv h FileRemovalStream in simp_all)
  next
    case QuotaExeededStream
    show ?thesis by (rule own [OF quota_stream.keyed_event_axioms, of "m_quotaExeededEventStream M"]) (use inv h QuotaExeededStream in simp_all)
  next
    case FileRenamedStream
    show ?thesis by (rule own [OF renamed_stream.keyed_event_axioms, of "m_fileRenamedEventStream M"]) (use inv h FileRenamedStream in simp_all)
  next
    case FileAccessedStream
    show ?thesis by (rule own [OF accessed_stream.keyed_event_axioms, of "m_fileAccessedEventStream M"]) (use inv h FileAccessedStream in simp_all)
  qed
qed

definition example_manager :: "point_map EventManager" where
  "example_manager =
     snd (run_worker pm_icl FileAttrStream (subscribe_client FileAttrStream
       (FileAttrSubscription_new ''u'' (Some 1) None) (FileAttrSubscription_new ''u'' (Some 1) None) EventManager_init))"

lemmas example_manager_defs = subscribe_client_def subscribe_FileAttr_def worker_subscribe_both_def
  worker_subscribe_def nextSubscriptionId_def with_id_def EventManager_init_def EventWorker_init_def
  SubscriptionRegistry_init_def post_def run_worker_def run_one_def run_subscribe_def addUnsubscribeHandler_def
  FileAttrSubscription_new_def attr_ops_def subscribe_def counter_subscribe_def size_subscribe_def
  time_subscribe_def handler_subscribe_def Subscription_empty_def EventStream_init_def setEventBuffer_def
  buffer_clear_def Let_def

lemma example_manager_reach: "manager_reach pm_icl example_manager"
proof -
  let ?c = "SubscribeClient FileAttrStream (FileAttrSubscription_new ''u'' (Some 1) None)
    (FileAttrSubscription_new ''u'' (Some 1) None)"
  have 1: "manager_reach pm_icl (snd (do_call pm_icl ?c EventManager_init))"
    by (rule manager_step [OF manager_start, of pm_icl ?c "Inr ()"]) (simp_all add: do_call_def)
  have "fst (do_call pm_icl (Run FileAttrStream) (snd (do_call pm_icl ?c EventManager_init))) = Inr ()"
    by (simp add: do_call_def example_manager_defs)
  then show ?thesis
    using manager_step [OF 1 surjective_pairing, of "Run FileAttrStream"]
    by (simp add: do_call_def example_manager_def)
qed

theorem manager_handlers_owned_witness:
  "\<exists>h. registered FileAttrStream (m_registry example_manager) = [h] \<and> uh_id h = Some (-1) \<and>
     m_subscriptions (ew_stream (m_fileAttrEventStream example_manager)) = [-1]"
proof -
  have h: "\<exists>h. holdings FileAttrStream example_manager = ([1], [], [], [-1], []) \<and>
      registered FileAttrStream (m_registry example_manager) = [h]"
    by (simp add: holdings_def worker_holdings_def example_manager_def registered_def example_manager_defs)
  then obtain h where h: "holdings FileAttrStream example_manager = ([1], [], [], [-1], [])"
    "registered FileAttrStream (m_registry example_manager) = [h]" by blast
  have "mset [-1] = mset (List.map_filter uh_id [h])"
    using manager_handlers_owned [OF example_manager_reach h(1) refl] h(2) by simp
  then have "uh_id h = Some (-1)"
    by (cases "uh_id h") (simp_all add: List.map_filter_simps)
  then show ?thesis using h by (auto simp: holdings_def worker_holdings_def)
qed

lemma subscribe_accepts:
  assumes "\<not> Subscription_empty sub" "sub_id sub \<notin> set (m_subscriptions s)"
  shows "sub_id sub \<in> set (m_subscriptions (snd (subscribe E sub s)))"
proof -
  have same: "m_subscriptions (time_subscribe sub (size_subscribe E sub (counter_subscribe E sub s))) = m_subscriptions s"
    by (simp add: time_subscribe_def size_subscribe_def counter_subscribe_def resetPeriodicTrigger_def Let_def
        split: option.split)
  show ?thesis
    using assms by (simp add: subscribe_def handler_subscribe_def same Let_def)
qed

text \<open>
  A subscription is registered only when the worker runs it. An \<open>unsubscribe\<close> with the id that
  \<open>subscribe\<close> has just returned, made before the worker's turn, reports failure and changes nothing;
  the turn then adds the subscription, which nothing will remove.
\<close>

lemma early_unsubscribe_lost:
  assumes sub: "subscribe_FileAttr c s M = (i, M1)"
    and idle: "ew_tasks (m_fileAttrEventStream M) = []"
    and fresh: "\<not> existSubscription i (m_registry M)" "i \<notin> set (m_subscriptions (ew_stream (m_fileAttrEventStream M)))"
    and nonempty: "\<not> Subscription_empty (cs_subscription c)"
  shows "manager_unsubscribe i M1 = (False, M1) \<and>
    (\<exists>M2. run_worker I FileAttrStream M1 = (Inr (), M2) \<and> existSubscription i (m_registry M2) \<and>
       i \<in> set (m_subscriptions (ew_stream (m_fileAttrEventStream M2))))"
proof -
  let ?sub = "cs_subscription (with_id i c)"
  let ?s = "ew_stream (m_fileAttrEventStream M1)"
  have i: "sub_id ?sub = i" "\<not> Subscription_empty ?sub"
    using nonempty by (simp_all add: with_id_def Subscription_empty_def)
  have M1: "ew_tasks (m_fileAttrEventStream M1) = [Subscribe ?sub]" "m_handlers (m_registry M1) = m_handlers (m_registry M)"
    "m_subscriptions ?s = m_subscriptions (ew_stream (m_fileAttrEventStream M))"
    using sub idle
    by (auto simp: subscribe_FileAttr_def worker_subscribe_both_def nextSubscriptionId_def worker_subscribe_def
        post_def Let_def)
  have none: "map_of (m_handlers (m_registry M1)) i = None"
    using fresh(1) unfolding M1(2) existSubscription_def by (rule notnotD)
  have "manager_unsubscribe i M1 = (False, M1)"
    by (simp add: manager_unsubscribe_def removeSubscription_def none)
  moreover have "i \<in> set (m_subscriptions (snd (subscribe attr_ops ?sub ?s)))"
    using subscribe_accepts [OF i(2), of ?s attr_ops] i(1) fresh(2) M1(3) by simp
  ultimately show ?thesis
    by (simp add: run_worker_def run_one_def run_subscribe_def addUnsubscribeHandler_def M1(1) i(1) none
        existSubscription_def case_prod_beta Let_def)
qed

lemma early_unsubscribe_lost_witness:
  "\<exists>i M1. subscribe_FileAttr (FileAttrSubscription_new ''u'' (Some 1) None) (FileAttrSubscription_new ''u'' (Some 1) None)
      (EventManager_init :: point_map EventManager) = (i, M1) \<and> manager_unsubscribe i M1 = (False, M1)"
proof -
  let ?c = "FileAttrSubscription_new ''u'' (Some 1) None"
  obtain i M1 where s: "subscribe_FileAttr ?c ?c (EventManager_init :: point_map EventManager) = (i, M1)" by fastforce
  have "manager_unsubscribe i M1 = (False, M1)"
    using early_unsubscribe_lost [OF s, of pm_icl]
    by (simp add: EventManager_init_def EventWorker_init_def SubscriptionRegistry_init_def existSubscription_def
        EventStream_init_def FileAttrSubscription_new_def Subscription_empty_def)
  with s show ?thesis by blast
qed

text \<open>
  A subscription for file accesses that the provider pushes to a running client is dropped: the
  manager builds it without the thresholds of the message, so the stream does not change, though the
  id is registered. The same message in the handshake is honoured.
\<close>

lemma pushed_accessed_subscription_dropped:
  assumes idle: "ew_tasks (m_fileAccessedEventStream M) = []" and fresh: "\<not> existSubscription i (m_registry M)"
    and new: "i \<notin> set (m_subscriptions (ew_stream (m_fileAccessedEventStream M)))"
    and thresholds: "pt_counter t \<noteq> None \<or> pt_time t \<noteq> None"
  shows "(\<exists>M2. run_worker I FileAccessedStream (handle_subscription (i, File_accessed_subscription t) M) = (Inr (), M2) \<and>
      ew_stream (m_fileAccessedEventStream M2) = ew_stream (m_fileAccessedEventStream M) \<and>
      existSubscription i (m_registry M2)) \<and>
    (\<exists>M2. run_worker I FileAccessedStream (subscribe_container (container_add (i, File_accessed_subscription t)
        \<lparr>m_readSubscriptions = [], m_writeSubscriptions = [], m_fileAccessedSubscription = []\<rparr>) M) = (Inr (), M2) \<and>
      i \<in> set (m_subscriptions (ew_stream (m_fileAccessedEventStream M2))))"
proof -
  let ?s = "ew_stream (m_fileAccessedEventStream M)"
  have none: "map_of (m_handlers (m_registry M)) i = None"
    using fresh unfolding existSubscription_def by (rule notnotD)
  have "snd (subscribe accessed_ops (FileAccessedSubscription_new i None None) ?s) = ?s"
    by (simp add: subscribe_def counter_subscribe_def size_subscribe_def time_subscribe_def handler_subscribe_def
        FileAccessedSubscription_new_def Subscription_empty_def accessed_ops_def Let_def)
  moreover have "i \<in> set (m_subscriptions (snd (subscribe accessed_ops (FileAccessedSubscription_of i t) ?s)))"
    using subscribe_accepts [of "FileAccessedSubscription_of i t" ?s accessed_ops] new thresholds
    by (auto simp: FileAccessedSubscription_of_def Subscription_empty_def)
  moreover have "sub_id (FileAccessedSubscription_new i None None) = i" "sub_id (FileAccessedSubscription_of i t) = i"
    by (simp_all add: FileAccessedSubscription_new_def FileAccessedSubscription_of_def)
  ultimately show ?thesis
    by (simp add: run_worker_def run_one_def run_subscribe_def addUnsubscribeHandler_def handle_subscription_def
        subscribe_container_def container_add_def worker_subscribe_def post_def idle none existSubscription_def
        case_prod_beta Let_def)
qed

lemma pushed_accessed_subscription_dropped_witness:
  "\<exists>M2. run_worker pm_icl FileAccessedStream (handle_subscription
      (4, File_accessed_subscription \<lparr>pt_counter = Some 2, pt_time = None, pt_size = None\<rparr>) EventManager_init) = (Inr (), M2) \<and>
    existSubscription 4 (m_registry M2) \<and> m_subscriptions (ew_stream (m_fileAccessedEventStream M2)) = []"
  using pushed_accessed_subscription_dropped [of "EventManager_init :: point_map EventManager" 4
      "\<lparr>pt_counter = Some 2, pt_time = None, pt_size = None\<rparr>" pm_icl]
  by (auto simp: EventManager_init_def EventWorker_init_def SubscriptionRegistry_init_def existSubscription_def
      EventStream_init_def)

end
