(* ===== verification/OC_Flags.thy ===== *)
theory OC_Flags
  imports OC_Prelude
begin

text \<open>
  Open flags (\<open>helpers/include/helpers/IStorageHelper.h\<close>, \<open>helpers/src/IStorageHelper.cc\<close>): the
  enumeration, the two translation tables and the conversions between a mask and a set of flags.
  The constants of the C library are those of Linux on x86-64.
\<close>

unbundle bit_operations_syntax

datatype Flag =
    NONBLOCK | APPEND | ASYNC | FSYNC | NOFOLLOW | CREAT | TRUNC | EXCL
  | RDONLY | WRONLY | RDWR | IFREG | IFCHR | IFBLK | IFIFO | IFSOCK

type_synonym mask = "32 word"
type_synonym FlagsSet = "Flag list"

section \<open>Tables\<close>

text \<open>In the order of the enumeration; the values are octal 4000, 2000, 20000, 4010000, ...\<close>

definition s_flagTranslation :: "(Flag \<times> mask) list" where
  "s_flagTranslation =
     [(NONBLOCK, 2048), (APPEND, 1024), (ASYNC, 8192), (FSYNC, 1052672), (NOFOLLOW, 131072), (CREAT, 64),
      (TRUNC, 512), (EXCL, 128), (RDONLY, 0), (WRONLY, 1), (RDWR, 2), (IFREG, 32768), (IFCHR, 8192),
      (IFBLK, 24576), (IFIFO, 4096), (IFSOCK, 49152)]"

text \<open>
  A duplicate key of an initializer list is dropped, and \<open>S_IFCHR\<close> equals \<open>O_ASYNC\<close>: the first entry
  of the list counts.
\<close>

definition s_maskTranslation :: "(mask \<times> Flag) list" where
  "s_maskTranslation =
     [(2048, NONBLOCK), (1024, APPEND), (8192, ASYNC), (1052672, FSYNC), (131072, NOFOLLOW), (64, CREAT),
      (512, TRUNC), (128, EXCL), (0, RDONLY), (1, WRONLY), (2, RDWR), (32768, IFREG),
      (24576, IFBLK), (4096, IFIFO), (49152, IFSOCK)]"

definition O_ACCMODE :: mask where "O_ACCMODE = 3"

section \<open>Conversions\<close>

fun flagsToMask :: "FlagsSet \<Rightarrow> mask" where
  "flagsToMask [] = 0"
| "flagsToMask (f # fs) = the (map_of s_flagTranslation f) OR flagsToMask fs"

definition is_access_flag :: "Flag \<Rightarrow> bool" where
  "is_access_flag f \<longleftrightarrow> f = RDONLY \<or> f = WRONLY \<or> f = RDWR"

definition maskToFlags :: "mask \<Rightarrow> FlagsSet res" where
  "maskToFlags m =
     (case map_of s_maskTranslation (m AND O_ACCMODE) of
        None \<Rightarrow> Inl OutOfRange
      | Some f \<Rightarrow> Inr (f # map snd (filter (\<lambda>(e, g). \<not> is_access_flag g \<and> e AND m = e) s_maskTranslation)))"

section \<open>Lemmas\<close>

definition flag_mask :: "Flag \<Rightarrow> mask" where
  "flag_mask f = the (map_of s_flagTranslation f)"

lemma flag_mask_simps [simp]:
  "flag_mask NONBLOCK = 2048" "flag_mask APPEND = 1024" "flag_mask ASYNC = 8192" "flag_mask FSYNC = 1052672"
  "flag_mask NOFOLLOW = 131072" "flag_mask CREAT = 64" "flag_mask TRUNC = 512" "flag_mask EXCL = 128"
  "flag_mask RDONLY = 0" "flag_mask WRONLY = 1" "flag_mask RDWR = 2" "flag_mask IFREG = 32768"
  "flag_mask IFCHR = 8192" "flag_mask IFBLK = 24576" "flag_mask IFIFO = 4096" "flag_mask IFSOCK = 49152"
  by (simp_all add: flag_mask_def s_flagTranslation_def)

lemma bit_flagsToMask: "bit (flagsToMask fs) k \<longleftrightarrow> (\<exists>f \<in> set fs. bit (flag_mask f) k)"
  by (induction fs) (auto simp: bit_or_iff flag_mask_def)

text \<open>The flags with a bit of their own, and that bit.\<close>

fun flag_bit :: "Flag \<Rightarrow> nat option" where
  "flag_bit CREAT = Some 6"
| "flag_bit EXCL = Some 7"
| "flag_bit TRUNC = Some 9"
| "flag_bit APPEND = Some 10"
| "flag_bit NONBLOCK = Some 11"
| "flag_bit ASYNC = Some 13"
| "flag_bit NOFOLLOW = Some 17"
| "flag_bit _ = None"

lemma flag_mask_bit: "flag_bit f = Some k \<Longrightarrow> flag_mask f = push_bit k 1"
  by (cases f) (auto simp: push_bit_eq_mult)

lemma and_exp_bit: "k < 32 \<Longrightarrow> (m :: mask) AND 2 ^ k = 2 ^ k \<longleftrightarrow> bit m k"
proof
  assume "k < 32" "m AND 2 ^ k = 2 ^ k"
  then show "bit m k" using bit_and_iff [of m "2 ^ k" k] by (simp add: bit_exp_iff)
next
  assume "k < 32" "bit m k"
  then show "m AND 2 ^ k = 2 ^ k"
    by (intro bit_word_eqI) (auto simp: bit_and_iff bit_exp_iff)
qed

lemma and_flag_mask:
  assumes "flag_bit f = Some k"
  shows "flag_mask f AND m = flag_mask f \<longleftrightarrow> bit m k"
proof -
  have "k < 32" using assms by (cases f) auto
  then have "push_bit k 1 AND m = push_bit k (1::mask) \<longleftrightarrow> bit m k"
    by (simp add: push_bit_eq_mult and.commute [of _ m] and_exp_bit)
  then show ?thesis by (simp add: flag_mask_bit [OF assms])
qed

lemma bit_flag_mask:
  assumes "flag_bit g = Some j"
  shows "bit (flag_mask g) k \<longleftrightarrow> j = k"
proof -
  have "j < 32" using assms by (cases g) auto
  then show ?thesis
    unfolding flag_mask_bit [OF assms] by (auto simp: push_bit_eq_mult bit_exp_iff)
qed

lemma bit_access: "is_access_flag a \<Longrightarrow> 2 \<le> k \<Longrightarrow> \<not> bit (flag_mask a) k"
  using bit_exp_iff [of 1 k, where ?'a = "32 word"] by (auto simp: is_access_flag_def bit_1_iff)

lemma bit_flags:
  assumes "is_access_flag a" "\<forall>g \<in> set gs. flag_bit g \<noteq> None"
  shows "2 \<le> k \<Longrightarrow> bit (flagsToMask (a # gs)) k \<longleftrightarrow> (\<exists>g \<in> set gs. flag_bit g = Some k)"
    and "k < 2 \<Longrightarrow> bit (flagsToMask (a # gs)) k \<longleftrightarrow> bit (flag_mask a) k"
proof -
  have gs: "bit (flag_mask g) k \<longleftrightarrow> flag_bit g = Some k" if "g \<in> set gs" for g k
    using that assms(2) bit_flag_mask by fastforce
  show "2 \<le> k \<Longrightarrow> bit (flagsToMask (a # gs)) k \<longleftrightarrow> (\<exists>g \<in> set gs. flag_bit g = Some k)"
    using bit_access [OF assms(1)] gs by (auto simp: bit_flagsToMask simp del: flagsToMask.simps)
  have "flag_bit g \<noteq> Some k" if "k < 2" for g
    using that by (cases g) auto
  then show "k < 2 \<Longrightarrow> bit (flagsToMask (a # gs)) k \<longleftrightarrow> bit (flag_mask a) k"
    using gs by (auto simp: bit_flagsToMask simp del: flagsToMask.simps)
qed

lemma mask_missing_bit: "bit e k \<Longrightarrow> \<not> bit m k \<Longrightarrow> e AND m \<noteq> (e :: mask)"
  by (metis bit_and_iff)

section \<open>Properties\<close>

text \<open>
  Converting flags to a mask and back gives the same set, for one access mode and any of the flags
  that have a bit of their own (\<open>CREAT\<close>, \<open>EXCL\<close>, \<open>TRUNC\<close>, \<open>APPEND\<close>, \<open>NONBLOCK\<close>, \<open>ASYNC\<close>, \<open>NOFOLLOW\<close>).
\<close>

lemma flags_roundtrip:
  assumes a: "is_access_flag a" and gs: "\<forall>g \<in> set gs. flag_bit g \<noteq> None"
  shows "\<exists>r. maskToFlags (flagsToMask (a # gs)) = Inr r \<and> set r = set (a # gs)"
proof -
  define m where "m = flagsToMask (a # gs)"
  note high = bit_flags(1) [OF a gs, folded m_def] and low = bit_flags(2) [OF a gs, folded m_def]
  have inj: "flag_bit f = Some k \<Longrightarrow> flag_bit g = Some k \<Longrightarrow> f = g" for f g k
    by (cases f; cases g) auto
  have single: "flag_mask f AND m = flag_mask f \<longleftrightarrow> f \<in> set gs" if "flag_bit f = Some k" for f k
  proof -
    have "2 \<le> k" using that by (cases f) auto
    then show ?thesis using and_flag_mask [OF that] high inj that by metis
  qed
  have free: "\<not> bit m k" if "k \<in> {12, 14, 15}" for k
  proof -
    have "flag_bit g \<noteq> Some k" for g using that by (cases g) auto
    then show ?thesis using high that by auto
  qed
  have multi: "e AND m \<noteq> e" if "e \<in> {1052672, 32768, 24576, 4096, 49152}" for e
  proof -
    have "bit (1052672::mask) 12" "bit (32768::mask) 15" "bit (24576::mask) 14" "bit (4096::mask) 12"
      "bit (49152::mask) 14"
      by code_simp+
    then have "\<exists>k \<in> {12, 14, 15}. bit e k" using that by auto
    then show ?thesis using free mask_missing_bit by blast
  qed
  have "m AND 3 = flag_mask a"
  proof (rule bit_eqI)
    fix k
    have "(3::mask) = mask 2" by (simp add: mask_eq_exp_minus_1)
    then have "bit (3::mask) k \<longleftrightarrow> k < 2"
      using bit_mask_iff [of 2 k, where ?'a = "32 word"] by auto
    then show "bit (m AND 3) k = bit (flag_mask a) k"
      using low [of k] bit_access [OF a, of k] by (auto simp: bit_and_iff not_less)
  qed
  then have acc: "map_of s_maskTranslation (m AND O_ACCMODE) = Some a"
    using a by (auto simp: O_ACCMODE_def s_maskTranslation_def is_access_flag_def)
  have other: "set (map snd (filter (\<lambda>(e, g). \<not> is_access_flag g \<and> e AND m = e) s_maskTranslation)) = set gs"
    (is "set (map snd ?fs) = _")
  proof (rule set_eqI)
    fix g
    have "g \<in> set (map snd ?fs) \<longleftrightarrow> (\<exists>e. (e, g) \<in> set s_maskTranslation \<and> \<not> is_access_flag g \<and> e AND m = e)"
      by force
    moreover have "g \<notin> set gs" if "flag_bit g = None" using gs that by auto
    ultimately show "g \<in> set (map snd ?fs) \<longleftrightarrow> g \<in> set gs"
      using single [of g] multi
      by (cases g) (simp_all add: s_maskTranslation_def is_access_flag_def)
  qed
  show ?thesis
    using acc other unfolding m_def [symmetric] maskToFlags_def by simp
qed

lemma flags_roundtrip_witness:
  "\<exists>r. maskToFlags (flagsToMask [RDWR, CREAT, TRUNC]) = Inr r \<and> set r = {RDWR, CREAT, TRUNC}"
  using flags_roundtrip [of RDWR "[CREAT, TRUNC]"] by (simp add: is_access_flag_def)

text \<open>
  Where the constants overlap the conversion confuses flags: a character device flag comes back as
  \<open>ASYNC\<close>, and a file opened with \<open>O_SYNC\<close> is also reported as a FIFO; the access mode \<open>3\<close>, which
  Linux accepts, raises.
\<close>

lemma flags_confused:
  "maskToFlags (flagsToMask [RDONLY, IFCHR]) = Inr [RDONLY, ASYNC] \<and>
   maskToFlags (flagsToMask [RDONLY, FSYNC]) = Inr [RDONLY, FSYNC, IFIFO] \<and>
   (m AND 3 = 3 \<longrightarrow> maskToFlags m = Inl OutOfRange)"
  by (simp add: maskToFlags_def s_flagTranslation_def s_maskTranslation_def O_ACCMODE_def is_access_flag_def)

lemma flags_confused_witness: "maskToFlags 3 = Inl OutOfRange"
  using flags_confused [of 3] by simp

end
