(* ===== verification/OC_MetadataCache.thy ===== *)
theory OC_MetadataCache
  imports OC_FuseMessages OC_Flags
begin

text \<open>
  The metadata cache (\<open>src/cache/metadataCache.cc\<close>): paths to file ids, and file ids to attributes,
  locations and state. An accessor locks one entry of a concurrent hash map; an operation of the
  model runs with the locks it takes, and is given the keys of the entries that its accessors hold.
  The provider that answers the requests of the cache is a parameter.
\<close>

section \<open>State\<close>

datatype FileState = normal | removedUpstream | renamedUpstream

record 'm Metadata =
  md_path :: "path option"
  md_attr :: "FileAttr option"
  md_locations :: "Flag \<rightharpoonup> 'm FileLocation"
  md_state :: FileState

definition Metadata_default :: "'m Metadata" where
  "Metadata_default = \<lparr>md_path = None, md_attr = None, md_locations = Map.empty, md_state = normal\<rparr>"

record 'm MetadataCache =
  m_pathToUuid :: "path \<rightharpoonup> uuid"
  m_metaCache :: "uuid \<rightharpoonup> 'm Metadata"

definition MetadataCache_init :: "'m MetadataCache" where
  "MetadataCache_init = \<lparr>m_pathToUuid = Map.empty, m_metaCache = Map.empty\<rparr>"

record FileRenamed =
  fr_newUuid :: uuid
  fr_childEntries :: "FileRenamedEntry list"

text \<open>The answers of the provider: \<open>ResolveGuid\<close>, \<open>GetFileAttr\<close>, \<open>GetFileLocation\<close> and \<open>Rename\<close>.\<close>

record 'm provider =
  pr_resolveGuid :: "path \<Rightarrow> FileAttr res"
  pr_getFileAttr :: "uuid \<Rightarrow> FileAttr res"
  pr_getFileLocation :: "uuid \<Rightarrow> FlagsSet \<Rightarrow> 'm FileLocation res"
  pr_rename :: "uuid \<Rightarrow> path \<Rightarrow> FileRenamed res"

section \<open>Operations\<close>

definition filterFlagsForLocation :: "FlagsSet \<Rightarrow> Flag" where
  "filterFlagsForLocation flagsSet =
     (if RDONLY \<in> set flagsSet then RDONLY
      else if WRONLY \<in> set flagsSet then WRONLY
      else if RDWR \<in> set flagsSet then RDWR
      else RDONLY)"

definition set_path :: "path \<Rightarrow> uuid option \<Rightarrow> 'm MetadataCache \<Rightarrow> 'm MetadataCache" where
  "set_path p uo c = c\<lparr>m_pathToUuid := (m_pathToUuid c)(p := uo)\<rparr>"

definition set_meta :: "uuid \<Rightarrow> 'm Metadata option \<Rightarrow> 'm MetadataCache \<Rightarrow> 'm MetadataCache" where
  "set_meta u mo c = c\<lparr>m_metaCache := (m_metaCache c)(u := mo)\<rparr>"

text \<open>What \<open>insert\<close> of the hash map gives access to.\<close>

definition meta_or_new :: "uuid \<Rightarrow> 'm MetadataCache \<Rightarrow> 'm Metadata" where
  "meta_or_new u c = (case m_metaCache c u of None \<Rightarrow> Metadata_default | Some md \<Rightarrow> md)"

definition insert_path :: "path \<Rightarrow> 'm MetadataCache \<Rightarrow> 'm MetadataCache" where
  "insert_path p c = (if m_pathToUuid c p = None then set_path p (Some []) c else c)"

definition fetchAttr :: "FileAttr res \<Rightarrow> FileAttr res" where
  "fetchAttr answer =
     (case answer of
        Inl x \<Rightarrow> Inl x
      | Inr attr \<Rightarrow> if fa_size attr = None then Inl (Errc EPROTO) else Inr attr)"

definition acc_getAttr_uuid :: "'m provider \<Rightarrow> uuid \<Rightarrow> ('m MetadataCache, unit) act" where
  "acc_getAttr_uuid S u c =
     (if md_attr (meta_or_new u c) \<noteq> None then (Inr (), c)
      else
        case fetchAttr (pr_getFileAttr S u) of
          Inl x \<Rightarrow> (Inl x, set_meta u None c)
        | Inr attr \<Rightarrow> (Inr (), set_meta u (Some ((meta_or_new u c)\<lparr>md_attr := Some attr\<rparr>)) c))"

text \<open>Returns the key that the metadata accessor holds.\<close>

definition acc_getAttr_path :: "'m provider \<Rightarrow> path \<Rightarrow> ('m MetadataCache, uuid) act" where
  "acc_getAttr_path S p c =
     (case m_pathToUuid c p of
        Some u \<Rightarrow>
          (case acc_getAttr_uuid S u c of
             (Inl x, c') \<Rightarrow> (Inl x, c')
           | (Inr _, c') \<Rightarrow> (Inr u, set_meta u (Some ((meta_or_new u c')\<lparr>md_path := Some p\<rparr>)) c'))
      | None \<Rightarrow>
          (case fetchAttr (pr_resolveGuid S p) of
             Inl x \<Rightarrow> (Inl x, c)
           | Inr attr \<Rightarrow>
               (let u = fa_uuid attr;
                    md = (case m_metaCache c u of
                            None \<Rightarrow> Metadata_default\<lparr>md_attr := Some attr\<rparr>
                          | Some md \<Rightarrow> md)
                in (Inr u, set_meta u (Some (md\<lparr>md_path := Some p\<rparr>)) (set_path p (Some u) c)))))"

definition attr_of :: "uuid \<Rightarrow> 'm MetadataCache \<Rightarrow> FileAttr res" where
  "attr_of u c = (case md_attr (meta_or_new u c) of None \<Rightarrow> Inl AssertionFailure | Some a \<Rightarrow> Inr a)"

definition getAttr_uuid :: "'m provider \<Rightarrow> uuid \<Rightarrow> ('m MetadataCache, FileAttr) act" where
  "getAttr_uuid S u c =
     (case md_attr (meta_or_new u c) of
        Some a \<Rightarrow> (Inr a, c)
      | None \<Rightarrow>
          (case acc_getAttr_uuid S u c of
             (Inl x, c') \<Rightarrow> (Inl x, c')
           | (Inr _, c') \<Rightarrow> (attr_of u c', c')))"

definition getAttr_path :: "'m provider \<Rightarrow> path \<Rightarrow> ('m MetadataCache, FileAttr) act" where
  "getAttr_path S p c =
     (case m_pathToUuid c p of
        Some u \<Rightarrow> getAttr_uuid S u c
      | None \<Rightarrow>
          (case acc_getAttr_path S p c of
             (Inl x, c') \<Rightarrow> (Inl x, c')
           | (Inr u, c') \<Rightarrow> (attr_of u c', c')))"

definition acc_getLocation :: "'m provider \<Rightarrow> uuid \<Rightarrow> FlagsSet \<Rightarrow> ('m MetadataCache, unit) act" where
  "acc_getLocation S u flags c =
     (if md_locations (meta_or_new u c) (filterFlagsForLocation flags) \<noteq> None then (Inr (), c)
      else
        case pr_getFileLocation S u flags of
          Inl x \<Rightarrow> (Inl x, set_meta u None c)
        | Inr location \<Rightarrow>
            (Inr (), set_meta u (Some ((meta_or_new u c)\<lparr>md_locations :=
               (md_locations (meta_or_new u c))(filterFlagsForLocation flags \<mapsto> location)\<rparr>)) c))"

definition getLocation :: "'m provider \<Rightarrow> uuid \<Rightarrow> FlagsSet \<Rightarrow> ('m MetadataCache, 'm FileLocation) act" where
  "getLocation S u flags c =
     (case md_locations (meta_or_new u c) (filterFlagsForLocation flags) of
        Some l \<Rightarrow> (Inr l, c)
      | None \<Rightarrow>
          (case acc_getLocation S u flags c of
             (Inl x, c') \<Rightarrow> (Inl x, c')
           | (Inr _, c') \<Rightarrow>
               (case md_locations (meta_or_new u c') (filterFlagsForLocation flags) of
                  None \<Rightarrow> (Inl OutOfRange, c')
                | Some l \<Rightarrow> (Inr l, c'))))"

text \<open>
  \<open>remapFile\<close> with accessors: \<open>k\<close> is the key of the metadata entry. \<open>get\<close> of an empty optional is
  an assertion failure.
\<close>

definition remapFile_acc :: "uuid \<Rightarrow> uuid \<Rightarrow> uuid \<Rightarrow> path \<Rightarrow> ('m MetadataCache, unit) act" where
  "remapFile_acc k oldUuid newUuid newPath c =
     (let md = meta_or_new k c;
          c1 = set_path newPath (Some newUuid) c
      in case md_path md of
           None \<Rightarrow> (Inl AssertionFailure, c1)
         | Some p \<Rightarrow>
             (let c2 = set_path p None c1 in
              if newUuid \<noteq> oldUuid then
                let c3 = set_meta k None c2;
                    new = meta_or_new newUuid c3
                in case md_attr md of
                     None \<Rightarrow> (Inl AssertionFailure, set_meta newUuid (Some (new\<lparr>md_attr := None\<rparr>)) c3)
                   | Some a \<Rightarrow>
                       (Inr (), set_meta newUuid
                          (Some (new\<lparr>md_attr := Some (a\<lparr>fa_uuid := newUuid\<rparr>), md_path := Some newPath\<rparr>)) c3)
              else
                (Inr (), set_meta k (Some (md\<lparr>md_path := Some newPath, md_locations := Map.empty\<rparr>)) c2)))"

definition remapFile :: "uuid \<Rightarrow> uuid \<Rightarrow> path \<Rightarrow> ('m MetadataCache, unit) act" where
  "remapFile oldUuid newUuid newPath c =
     (let c1 = insert_path newPath c in
      if m_metaCache c1 oldUuid \<noteq> None then remapFile_acc oldUuid oldUuid newUuid newPath c1
      else (Inr (), c1))"

fun remap_children :: "FileRenamedEntry list \<Rightarrow> ('m MetadataCache, (uuid \<times> uuid) list) act" where
  "remap_children [] c = (Inr [], c)"
| "remap_children (e # es) c =
     (case remapFile (fre_oldUuid e) (fre_newUuid e) (fre_newPath e) c of
        (Inl x, c') \<Rightarrow> (Inl x, c')
      | (Inr _, c') \<Rightarrow>
          (case remap_children es c' of
             (Inl x, c'') \<Rightarrow> (Inl x, c'')
           | (Inr xs, c'') \<Rightarrow> (Inr ((fre_oldUuid e, fre_newUuid e) # xs), c'')))"

text \<open>
  The branch of \<open>rename\<close> for a file in state \<open>normal\<close>, after the provider answered. \<open>cur\<close> is what the
  new path mapped to; looking it up while the accessor of the old file holds the same entry blocks.
\<close>

definition rename_answered :: "uuid \<Rightarrow> uuid \<Rightarrow> uuid \<Rightarrow> path \<Rightarrow> FileRenamed \<Rightarrow> ('m MetadataCache, (uuid \<times> uuid) list) act" where
  "rename_answered k oldUuid cur newPath fr c =
     (if cur \<noteq> [] \<and> cur = k then (Inl Deadlock, c)
      else
        let c1 = (if cur \<noteq> [] then set_meta cur None c else c) in
        case remapFile_acc k oldUuid (fr_newUuid fr) newPath c1 of
          (Inl x, c2) \<Rightarrow> (Inl x, c2)
        | (Inr _, c2) \<Rightarrow>
            (case remap_children (fr_childEntries fr) c2 of
               (Inl x, c3) \<Rightarrow> (Inl x, c3)
             | (Inr xs, c3) \<Rightarrow>
                 (Inr ((if oldUuid \<noteq> fr_newUuid fr then [(oldUuid, fr_newUuid fr)] else []) @ xs), c3)))"

definition rename :: "'m provider \<Rightarrow> path \<Rightarrow> path \<Rightarrow> ('m MetadataCache, (uuid \<times> uuid) list) act" where
  "rename S oldPath newPath c =
     (if oldPath = newPath then (Inl Deadlock, c)
      else
        let c1 = insert_path newPath c;
            cur = the (m_pathToUuid c1 newPath)
        in case acc_getAttr_path S oldPath c1 of
             (Inl x, c2) \<Rightarrow> (Inl x, set_path newPath None c2)
           | (Inr k, c2) \<Rightarrow>
               (case md_attr (meta_or_new k c2) of
                  None \<Rightarrow> (Inl AssertionFailure, c2)
                | Some a \<Rightarrow>
                    (let oldUuid = fa_uuid a;
                         md = meta_or_new k c2;
                         c3 = set_path oldPath None c2
                     in case md_state md of
                          removedUpstream \<Rightarrow>
                            (Inr [], set_path newPath (Some oldUuid)
                               (set_meta k (Some (md\<lparr>md_locations := Map.empty, md_path := Some newPath\<rparr>)) c3))
                        | renamedUpstream \<Rightarrow> (Inr [], set_meta k (Some (md\<lparr>md_state := normal\<rparr>)) c3)
                        | normal \<Rightarrow>
                            (case pr_rename S oldUuid newPath of
                               Inl x \<Rightarrow> (Inl x, set_path newPath None c3)
                             | Inr fr \<Rightarrow> rename_answered k oldUuid cur newPath fr c3))))"

definition map_uuid :: "path \<Rightarrow> uuid \<Rightarrow> 'm MetadataCache \<Rightarrow> 'm MetadataCache" where
  "map_uuid p u c =
     set_meta u (Some ((meta_or_new u c)\<lparr>md_path := Some p\<rparr>)) (set_path p (Some u) c)"

definition map_location :: "path \<Rightarrow> 'm FileLocation \<Rightarrow> FlagsSet \<Rightarrow> 'm MetadataCache \<Rightarrow> 'm MetadataCache" where
  "map_location p location flags c =
     (let u = fl_uuid location; md = meta_or_new u c in
      set_meta u (Some (md\<lparr>md_path := Some p,
          md_locations := (md_locations md)(filterFlagsForLocation flags \<mapsto> location)\<rparr>))
        (set_path p (Some u) c))"

definition remove_acc :: "path \<Rightarrow> uuid \<Rightarrow> 'm MetadataCache \<Rightarrow> 'm MetadataCache" where
  "remove_acc p u c = set_path p None (set_meta u None c)"

definition removePathMapping :: "path \<Rightarrow> 'm MetadataCache \<Rightarrow> 'm MetadataCache" where
  "removePathMapping p c = set_path p None c"

definition remove_uuid :: "uuid \<Rightarrow> 'm MetadataCache \<Rightarrow> 'm MetadataCache" where
  "remove_uuid u c =
     (case m_metaCache c u of
        None \<Rightarrow> c
      | Some md \<Rightarrow>
          (case md_path md of
             None \<Rightarrow> set_meta u None c
           | Some p \<Rightarrow> if m_pathToUuid c p \<noteq> None then remove_acc p u c else set_meta u None c))"

text \<open>
  \<open>waitForNewLocation\<close> polls once a millisecond; a tick tells whether FUSE interrupted the request,
  and what the other threads did to the cache while the condition variable was waited for.
\<close>

definition block_present :: "'m icl \<Rightarrow> 'm provider \<Rightarrow> uuid \<Rightarrow> interval \<Rightarrow> FlagsSet \<Rightarrow> ('m MetadataCache, bool) act" where
  "block_present I S u rng flags c =
     (case getLocation S u flags c of
        (Inl x, c') \<Rightarrow> (Inl x, c')
      | (Inr l, c') \<Rightarrow> (Inr (icl_find I (fl_blocks l) (fst rng) \<noteq> None), c'))"

definition ECANCELED :: errno where "ECANCELED = 125"

fun waitForNewLocation :: "'m icl \<Rightarrow> 'm provider \<Rightarrow> uuid \<Rightarrow> interval \<Rightarrow>
    (bool \<times> ('m MetadataCache \<Rightarrow> 'm MetadataCache)) list \<Rightarrow> FlagsSet \<Rightarrow> ('m MetadataCache, bool) act" where
  "waitForNewLocation I S u rng [] flags c = (Inr False, c)"
| "waitForNewLocation I S u rng ((interrupted, others) # ticks) flags c =
     (if interrupted then (Inl (SystemError ECANCELED), c)
      else
        case block_present I S u rng flags c of
          (Inl x, c') \<Rightarrow> (Inl x, c')
        | (Inr True, c') \<Rightarrow> (Inr True, c')
        | (Inr False, c') \<Rightarrow>
            (case block_present I S u rng flags (others c') of
               (Inl x, c'') \<Rightarrow> (Inl x, c'')
             | (Inr True, c'') \<Rightarrow> (Inr True, c'')
             | (Inr False, c'') \<Rightarrow> waitForNewLocation I S u rng ticks flags c''))"

section \<open>Runs of the cache\<close>

datatype 'm cache_op =
    GetAttrPath path
  | GetAttrUuid uuid
  | GetLocation uuid FlagsSet
  | Rename path path
  | RemapFile uuid uuid path
  | MapUuid path uuid
  | MapLocation path "'m FileLocation" FlagsSet
  | Remove uuid
  | RemovePathMapping path

definition cache_step :: "'m provider \<Rightarrow> 'm cache_op \<Rightarrow> 'm MetadataCache \<Rightarrow> 'm MetadataCache" where
  "cache_step S op c =
     (case op of
        GetAttrPath p \<Rightarrow> snd (getAttr_path S p c)
      | GetAttrUuid u \<Rightarrow> snd (getAttr_uuid S u c)
      | GetLocation u flags \<Rightarrow> snd (getLocation S u flags c)
      | Rename p q \<Rightarrow> snd (rename S p q c)
      | RemapFile u v p \<Rightarrow> snd (remapFile u v p c)
      | MapUuid p u \<Rightarrow> map_uuid p u c
      | MapLocation p l flags \<Rightarrow> map_location p l flags c
      | Remove u \<Rightarrow> remove_uuid u c
      | RemovePathMapping p \<Rightarrow> removePathMapping p c)"

text \<open>What the cache relies on: the provider describes the file it was asked about.\<close>

definition honest :: "'m provider \<Rightarrow> bool" where
  "honest S \<longleftrightarrow> (\<forall>u a. pr_getFileAttr S u = Inr a \<longrightarrow> fa_uuid a = u)"

text \<open>
  Other components write into an entry through an accessor; they replace attributes by attributes of
  the same file with a size.
\<close>

definition attr_ok :: "uuid \<Rightarrow> 'm Metadata \<Rightarrow> bool" where
  "attr_ok u md \<longleftrightarrow> (\<forall>a. md_attr md = Some a \<longrightarrow> fa_uuid a = u \<and> fa_size a \<noteq> None)"

inductive cache_reach :: "'m MetadataCache \<Rightarrow> bool" where
  cache_start: "cache_reach MetadataCache_init"
| cache_op: "cache_reach c \<Longrightarrow> honest S \<Longrightarrow> cache_reach (cache_step S op c)"
| cache_write: "cache_reach c \<Longrightarrow> m_metaCache c u \<noteq> None \<Longrightarrow> attr_ok u md \<Longrightarrow> cache_reach (set_meta u (Some md) c)"

section \<open>Lemmas\<close>

lemma set_path_simps [simp]:
  "m_pathToUuid (set_path p uo c) = (m_pathToUuid c)(p := uo)" "m_metaCache (set_path p uo c) = m_metaCache c"
  by (simp_all add: set_path_def)

lemma set_meta_simps [simp]:
  "m_metaCache (set_meta u mo c) = (m_metaCache c)(u := mo)" "m_pathToUuid (set_meta u mo c) = m_pathToUuid c"
  by (simp_all add: set_meta_def)

lemma insert_path_meta [simp]: "m_metaCache (insert_path p c) = m_metaCache c"
  by (simp add: insert_path_def)

lemma meta_or_new_simps [simp]:
  "meta_or_new u (set_path p uo c) = meta_or_new u c"
  "meta_or_new u (insert_path p c) = meta_or_new u c"
  "meta_or_new u (set_meta v (Some md) c) = (if u = v then md else meta_or_new u c)"
  "meta_or_new u (set_meta v None c) = (if u = v then Metadata_default else meta_or_new u c)"
  by (simp_all add: meta_or_new_def)

lemma Metadata_default_simps [simp]:
  "md_path Metadata_default = None" "md_attr Metadata_default = None"
  "md_locations Metadata_default = Map.empty" "md_state Metadata_default = normal"
  by (simp_all add: Metadata_default_def)

definition attr_inv :: "'m MetadataCache \<Rightarrow> bool" where
  "attr_inv c \<longleftrightarrow> (\<forall>u. attr_ok u (meta_or_new u c))"

lemma attr_inv_simps [simp]:
  "attr_inv (set_path p uo c) \<longleftrightarrow> attr_inv c"
  "attr_inv (insert_path p c) \<longleftrightarrow> attr_inv c"
  by (simp_all add: attr_inv_def)

lemma attr_ok_default [simp]: "attr_ok u Metadata_default"
  by (simp add: attr_ok_def)

lemma attr_inv_set: "attr_inv c \<Longrightarrow> attr_ok u md \<Longrightarrow> attr_inv (set_meta u (Some md) c)"
  by (simp add: attr_inv_def)

lemma attr_inv_erase: "attr_inv c \<Longrightarrow> attr_inv (set_meta u None c)"
  by (simp add: attr_inv_def)

lemma attr_ok_update [simp]:
  "attr_ok u (md\<lparr>md_path := po\<rparr>) \<longleftrightarrow> attr_ok u md"
  "attr_ok u (md\<lparr>md_locations := ls\<rparr>) \<longleftrightarrow> attr_ok u md"
  "attr_ok u (md\<lparr>md_state := st\<rparr>) \<longleftrightarrow> attr_ok u md"
  by (simp_all add: attr_ok_def)

lemma attr_invD: "attr_inv c \<Longrightarrow> attr_ok u (meta_or_new u c)"
  by (simp add: attr_inv_def)

lemmas attr_inv_intros = attr_inv_set attr_inv_erase attr_invD

lemma fetchAttr_size: "fetchAttr r = Inr a \<Longrightarrow> r = Inr a \<and> fa_size a \<noteq> None"
  by (auto simp: fetchAttr_def split: sum.splits if_splits)

lemma acc_getAttr_uuid_inv:
  assumes "attr_inv c" "honest S"
  shows "attr_inv (snd (acc_getAttr_uuid S u c))"
proof (cases "fetchAttr (pr_getFileAttr S u)")
  case (Inr a)
  then have "fa_uuid a = u" "fa_size a \<noteq> None"
    using fetchAttr_size [OF Inr] assms(2) by (auto simp: honest_def)
  then have "attr_ok u ((meta_or_new u c)\<lparr>md_attr := Some a\<rparr>)" by (simp add: attr_ok_def)
  then show ?thesis using assms(1) Inr by (simp add: acc_getAttr_uuid_def attr_inv_set)
qed (use assms(1) in \<open>simp add: acc_getAttr_uuid_def attr_inv_erase\<close>)

lemma acc_getAttr_path_inv:
  assumes "attr_inv c" "honest S"
  shows "attr_inv (snd (acc_getAttr_path S p c))"
proof (cases "m_pathToUuid c p")
  case None
  show ?thesis
  proof (cases "fetchAttr (pr_resolveGuid S p)")
    case (Inl x)
    then show ?thesis using None assms(1) by (simp add: acc_getAttr_path_def)
  next
    case (Inr a)
    have "attr_ok (fa_uuid a) (case m_metaCache c (fa_uuid a) of
        None \<Rightarrow> Metadata_default\<lparr>md_attr := Some a\<rparr> | Some md \<Rightarrow> md)"
    proof (cases "m_metaCache c (fa_uuid a)")
      case None
      then show ?thesis using fetchAttr_size [OF Inr] by (simp add: attr_ok_def)
    next
      case (Some md)
      then show ?thesis using attr_invD [OF assms(1), of "fa_uuid a"] by (simp add: meta_or_new_def)
    qed
    then show ?thesis using None Inr assms(1) by (simp add: acc_getAttr_path_def Let_def attr_inv_set)
  qed
next
  case (Some u)
  have inv: "attr_inv (snd (acc_getAttr_uuid S u c))" by (rule acc_getAttr_uuid_inv [OF assms])
  then show ?thesis
    using Some attr_invD [OF inv, of u]
    by (auto simp: acc_getAttr_path_def attr_inv_set split: prod.splits sum.splits)
qed

lemma remapFile_acc_inv:
  assumes "attr_inv c"
  shows "attr_inv (snd (remapFile_acc k oldUuid newUuid newPath c))"
proof -
  have "attr_ok newUuid (md\<lparr>md_attr := None\<rparr>)" for md :: "'a Metadata"
    by (simp add: attr_ok_def)
  moreover have "attr_ok newUuid (md\<lparr>md_attr := Some (a\<lparr>fa_uuid := newUuid\<rparr>), md_path := po\<rparr>)"
    if "md_attr (meta_or_new k c) = Some a" for md :: "'a Metadata" and po a
    using that attr_invD [OF assms, of k] by (simp add: attr_ok_def)
  ultimately show ?thesis
    using assms attr_invD [OF assms, of k]
    by (simp add: remapFile_acc_def Let_def attr_inv_set attr_inv_erase split: option.split)
qed

lemma remapFile_inv: "attr_inv c \<Longrightarrow> attr_inv (snd (remapFile u v p c))"
  by (simp add: remapFile_def Let_def remapFile_acc_inv)

lemma remap_children_inv: "attr_inv c \<Longrightarrow> attr_inv (snd (remap_children es c))"
proof (induction es arbitrary: c)
  case (Cons e es)
  have "attr_inv (snd (remapFile (fre_oldUuid e) (fre_newUuid e) (fre_newPath e) c))"
    using Cons.prems by (rule remapFile_inv)
  then show ?case
    using Cons.IH by (fastforce split: prod.split sum.split)
qed simp

lemma rename_answered_inv:
  assumes "attr_inv c"
  shows "attr_inv (snd (rename_answered k u cur p fr c))"
proof -
  let ?c1 = "if cur \<noteq> [] then set_meta cur None c else c"
  have 1: "attr_inv ?c1" using assms by (simp add: attr_inv_erase)
  have 2: "attr_inv (snd (remapFile_acc k u (fr_newUuid fr) p ?c1))" by (rule remapFile_acc_inv [OF 1])
  have 3: "attr_inv (snd (remap_children (fr_childEntries fr) (snd (remapFile_acc k u (fr_newUuid fr) p ?c1))))"
    by (rule remap_children_inv [OF 2])
  show ?thesis
    using assms 2 3
    by (cases "remapFile_acc k u (fr_newUuid fr) p ?c1";
        cases "remap_children (fr_childEntries fr) (snd (remapFile_acc k u (fr_newUuid fr) p ?c1))")
       (auto simp: rename_answered_def Let_def split: sum.splits)
qed

lemma rename_inv:
  assumes "attr_inv c" "honest S"
  shows "attr_inv (snd (rename S p q c))"
proof -
  obtain r c2 where a: "acc_getAttr_path S p (insert_path q c) = (r, c2)" by fastforce
  have inv: "attr_inv c2"
    using acc_getAttr_path_inv [of "insert_path q c" S p] assms a by simp
  show ?thesis
    using assms(1) inv attr_invD [OF inv]
    by (auto simp: rename_def a Let_def attr_inv_set rename_answered_inv
        split: sum.split option.split FileState.split)
qed

text \<open>How the lookups change the cache, whatever they return.\<close>

lemma getAttr_uuid_state:
  "snd (getAttr_uuid S u c) =
     (case md_attr (meta_or_new u c) of Some a \<Rightarrow> c | None \<Rightarrow> snd (acc_getAttr_uuid S u c))"
  by (cases "acc_getAttr_uuid S u c") (simp add: getAttr_uuid_def split: option.split sum.split)

lemma getAttr_path_state:
  "snd (getAttr_path S p c) =
     (case m_pathToUuid c p of Some u \<Rightarrow> snd (getAttr_uuid S u c) | None \<Rightarrow> snd (acc_getAttr_path S p c))"
  by (cases "acc_getAttr_path S p c") (simp add: getAttr_path_def split: option.split sum.split)

lemma getLocation_state:
  "snd (getLocation S u flags c) =
     (case md_locations (meta_or_new u c) (filterFlagsForLocation flags) of
        Some l \<Rightarrow> c | None \<Rightarrow> snd (acc_getLocation S u flags c))"
  by (cases "acc_getLocation S u flags c") (simp add: getLocation_def split: option.split sum.split)

lemma cache_step_inv:
  assumes "attr_inv c" "honest S"
  shows "attr_inv (cache_step S op c)"
proof (cases op)
  case (GetAttrPath p)
  then show ?thesis
    using assms acc_getAttr_path_inv [OF assms] acc_getAttr_uuid_inv [OF assms]
    by (simp add: cache_step_def getAttr_path_state getAttr_uuid_state split: option.split)
next
  case (GetAttrUuid u)
  then show ?thesis
    using assms acc_getAttr_uuid_inv [OF assms]
    by (simp add: cache_step_def getAttr_uuid_state split: option.split)
next
  case (GetLocation u flags)
  have "attr_inv (snd (acc_getLocation S u flags c))"
    using assms(1) attr_invD [OF assms(1), of u]
    by (simp add: acc_getLocation_def attr_inv_set attr_inv_erase split: sum.split)
  then show ?thesis
    using GetLocation assms(1) by (simp add: cache_step_def getLocation_state split: option.split)
next
  case (Rename p q)
  then show ?thesis using rename_inv [OF assms] by (simp add: cache_step_def)
next
  case (RemapFile u v p)
  then show ?thesis using remapFile_inv [OF assms(1)] by (simp add: cache_step_def)
next
  case (MapUuid p u)
  then show ?thesis
    using assms(1) attr_invD [OF assms(1), of u] by (simp add: cache_step_def map_uuid_def attr_inv_set)
next
  case (MapLocation p l flags)
  then show ?thesis
    using assms(1) attr_invD [OF assms(1)] by (simp add: cache_step_def map_location_def Let_def attr_inv_set)
next
  case (Remove u)
  then show ?thesis
    using assms(1) by (simp add: cache_step_def remove_uuid_def remove_acc_def attr_inv_erase split: option.split)
next
  case (RemovePathMapping p)
  then show ?thesis using assms(1) by (simp add: cache_step_def removePathMapping_def)
qed

lemma reach_attr_inv: "cache_reach c \<Longrightarrow> attr_inv c"
proof (induction rule: cache_reach.induct)
  case cache_start
  show ?case by (simp add: attr_inv_def MetadataCache_init_def meta_or_new_def)
next
  case (cache_op c S op)
  then show ?case by (simp add: cache_step_inv)
next
  case (cache_write c u md)
  then show ?case by (simp add: attr_inv_set)
qed

section \<open>Properties\<close>


definition example_attr :: "uuid \<Rightarrow> FileAttr" where
  "example_attr u = \<lparr>fa_uuid = u, fa_name = u, fa_mode = 420, fa_uid = 0, fa_gid = 0, fa_atime = 0, fa_mtime = 0,
     fa_ctime = 0, fa_type = regular, fa_size = Some 10\<rparr>"

definition example_provider :: "point_map provider" where
  "example_provider =
     \<lparr>pr_resolveGuid = (\<lambda>p. Inr (example_attr p)),
      pr_getFileAttr = (\<lambda>u. if u = [] then Inl (SystemError 22) else Inr (example_attr u)),
      pr_getFileLocation = (\<lambda>u flags. Inr (FileLocation_default pm_icl)),
      pr_rename = (\<lambda>u p. Inr \<lparr>fr_newUuid = p, fr_childEntries =
        [\<lparr>fre_oldUuid = ''c'', fre_newUuid = ''d'', fre_newPath = ''new/c''\<rparr>]\<rparr>)\<rparr>"

definition example_cache :: "point_map MetadataCache" where
  "example_cache = cache_step example_provider (GetAttrPath ''old'') MetadataCache_init"

lemmas example_cache_defs = example_cache_def example_provider_def example_attr_def cache_step_def getAttr_path_def
  getAttr_uuid_def acc_getAttr_path_def acc_getAttr_uuid_def fetchAttr_def attr_of_def MetadataCache_init_def
  meta_or_new_def set_meta_def set_path_def insert_path_def Metadata_default_def Let_def

lemma example_cache_entries:
  "m_pathToUuid example_cache = [''old'' \<mapsto> ''old'']"
  "m_metaCache example_cache = [''old'' \<mapsto> \<lparr>md_path = Some ''old'', md_attr = Some (example_attr ''old''),
     md_locations = Map.empty, md_state = normal\<rparr>]"
  by (simp_all add: example_cache_defs)


text \<open>
  A lookup by path that succeeded is answered from the cache afterwards: the same lookup returns
  the same attributes, changes nothing and does not depend on the provider any more.
\<close>

lemma lookup_is_cached:
  assumes "getAttr_path S p c = (Inr a, c')"
  shows "getAttr_path S' p c' = (Inr a, c')"
proof -
  have uuid: "getAttr_uuid S' u d = (Inr a, d)" if "md_attr (meta_or_new u d) = Some a" for u d
    using that by (simp add: getAttr_uuid_def)
  show ?thesis
  proof (cases "m_pathToUuid c p")
    case None
    obtain r d where acc: "acc_getAttr_path S p c = (r, d)" by fastforce
    with assms None obtain u where u: "r = Inr u" "d = c'" "md_attr (meta_or_new u c') = Some a"
      by (auto simp: getAttr_path_def attr_of_def split: sum.splits option.splits)
    have "m_pathToUuid c' p = Some u"
      using acc None u(1,2) by (auto simp: acc_getAttr_path_def Let_def split: sum.splits)
    then show ?thesis using uuid [OF u(3)] by (simp add: getAttr_path_def)
  next
    case (Some u)
    have g: "getAttr_uuid S u c = (Inr a, c')" using assms Some by (simp add: getAttr_path_def)
    have path: "m_pathToUuid (snd (acc_getAttr_uuid S u c)) = m_pathToUuid c"
      by (simp add: acc_getAttr_uuid_def split: sum.split)
    obtain r d where acc: "acc_getAttr_uuid S u c = (r, d)" by fastforce
    have "m_pathToUuid c' = m_pathToUuid c \<and> md_attr (meta_or_new u c') = Some a"
      using g path acc by (auto simp: getAttr_uuid_def attr_of_def split: option.splits sum.splits)
    then show ?thesis using Some uuid by (simp add: getAttr_path_def)
  qed
qed

lemma lookup_is_cached_witness:
  "getAttr_path (example_provider\<lparr>pr_getFileAttr := (\<lambda>u. Inl (SystemError 5))\<rparr>) ''old'' example_cache =
     (Inr (example_attr ''old''), example_cache)"
proof -
  have "getAttr_path example_provider ''old'' MetadataCache_init = (Inr (example_attr ''old''), example_cache)"
    by (simp add: example_cache_defs)
  then show ?thesis by (rule lookup_is_cached)
qed



text \<open>
  A rename that the provider refuses raises its error, but the cache has already forgotten the old
  path, and it also forgets the new one, even if that led to an existing file; the entries themselves
  stay. (The mappings are fetched again when they are next used.)
\<close>

lemma failed_rename_forgets_paths:
  assumes ne: "oldPath \<noteq> newPath" and p: "m_pathToUuid c oldPath = Some u" and md: "m_metaCache c u = Some md"
    and a: "md_attr md = Some a" and st: "md_state md = normal"
    and answer: "pr_rename S (fa_uuid a) newPath = Inl x"
  shows "\<exists>c'. rename S oldPath newPath c = (Inl x, c') \<and>
    m_pathToUuid c' = (m_pathToUuid c)(oldPath := None, newPath := None) \<and>
    m_metaCache c' = (m_metaCache c)(u \<mapsto> md\<lparr>md_path := Some oldPath\<rparr>)"
  using assms
  by (simp add: rename_def acc_getAttr_path_def acc_getAttr_uuid_def insert_path_def meta_or_new_def Let_def
      fun_upd_twist)

lemma failed_rename_forgets_paths_witness:
  "\<exists>c'. rename (example_provider\<lparr>pr_rename := (\<lambda>u p. Inl (SystemError 13))\<rparr>) ''old'' ''new'' example_cache =
     (Inl (SystemError 13), c') \<and> m_pathToUuid c' = Map.empty"
proof -
  have "\<exists>c'. rename (example_provider\<lparr>pr_rename := (\<lambda>u p. Inl (SystemError 13))\<rparr>) ''old'' ''new'' example_cache =
     (Inl (SystemError 13), c') \<and> m_pathToUuid c' = (m_pathToUuid example_cache)(''old'' := None, ''new'' := None) \<and>
     m_metaCache c' = (m_metaCache example_cache)(''old'' \<mapsto> (the (m_metaCache example_cache ''old''))\<lparr>md_path := Some ''old''\<rparr>)"
    by (rule failed_rename_forgets_paths) (simp_all add: example_cache_entries)
  then show ?thesis by (auto simp: example_cache_entries)
qed

text \<open>
  After a directory was renamed, the new path of each child that the provider reports but the cache
  does not hold leads to the empty file id. A lookup of that path then asks the provider about the
  empty id instead of resolving the path, and while that request fails the wrong mapping stays.
\<close>

lemma rename_poisons_uncached_child:
  assumes child: "m_metaCache c (fre_oldUuid e) = None" and path: "m_pathToUuid c (fre_newPath e) = None"
    and empty: "m_metaCache c [] = None" and err: "pr_getFileAttr S [] = Inl x"
    and entry: "remapFile (fre_oldUuid e) (fre_newUuid e) (fre_newPath e) c = (r, c1)"
  shows "r = Inr () \<and> m_pathToUuid c1 (fre_newPath e) = Some [] \<and>
    (\<exists>c2. getAttr_path S (fre_newPath e) c1 = (Inl x, c2) \<and> m_pathToUuid c2 = m_pathToUuid c1 \<and>
       getAttr_path S (fre_newPath e) c2 = (Inl x, c2))"
  using assms
  by (auto simp: remapFile_def insert_path_def getAttr_path_def getAttr_uuid_def acc_getAttr_uuid_def fetchAttr_def
      meta_or_new_def set_meta_def set_path_def Let_def fun_upd_idem)

lemma rename_poisons_uncached_child_witness:
  "\<exists>r c1. remapFile ''c'' ''d'' ''new/c'' example_cache = (r, c1) \<and> m_pathToUuid c1 ''new/c'' = Some []"
proof -
  let ?e = "\<lparr>fre_oldUuid = ''c'', fre_newUuid = ''d'', fre_newPath = ''new/c''\<rparr>"
  obtain r c1 where e: "remapFile (fre_oldUuid ?e) (fre_newUuid ?e) (fre_newPath ?e) example_cache = (r, c1)" by fastforce
  have "m_pathToUuid c1 (fre_newPath ?e) = Some []"
    using rename_poisons_uncached_child [OF _ _ _ _ e, of example_provider "SystemError 22"]
    by (simp add: example_cache_entries) (simp add: example_provider_def)
  with e show ?thesis by auto
qed

text \<open>
  Asking for the location of a file that is not cached leaves an entry without attributes. A later
  lookup by a path that is not cached either, but which the provider resolves to this file, keeps that
  entry as it is and then reads the missing attributes: an assertion failure.
\<close>

lemma location_only_entry_breaks_lookup:
  assumes "m_metaCache c u = None" and "m_pathToUuid c p = None"
    and "pr_getFileLocation S u flags = Inr l"
    and "pr_resolveGuid S p = Inr a" "fa_uuid a = u" "fa_size a \<noteq> None"
  shows "\<exists>c1 c2. getLocation S u flags c = (Inr l, c1) \<and> getAttr_path S p c1 = (Inl AssertionFailure, c2)"
  using assms
  by (auto simp: getLocation_def acc_getLocation_def getAttr_path_def acc_getAttr_path_def fetchAttr_def attr_of_def
      meta_or_new_def set_meta_def set_path_def Let_def)

lemma location_only_entry_breaks_lookup_witness:
  "\<exists>c1 c2. getLocation example_provider ''f'' [RDONLY] MetadataCache_init = (Inr (FileLocation_default pm_icl), c1) \<and>
     getAttr_path example_provider ''f'' c1 = (Inl AssertionFailure, c2)"
  by (rule location_only_entry_breaks_lookup [where a = "example_attr ''f''"])
     (simp_all add: MetadataCache_init_def example_provider_def example_attr_def)

end
