(* ===== verification/OC_FsSubscriptions.thy ===== *)
theory OC_FsSubscriptions
  imports OC_EventManager
begin

text \<open>
  The subscriptions of the file system (\<open>src/fsSubscriptions.cc\<close>): for each kind of event, the files
  with a subscription and its id. The cache of files whose input and output is forced through the
  provider (\<open>src/cache/forceProxyIOCache.cc\<close>) keeps a permission subscription for each of them.
\<close>

section \<open>State\<close>

record FsSubscriptions =
  m_fileAttrSubscriptions :: "uuid \<rightharpoonup> int64"
  m_fileLocationSubscriptions :: "uuid \<rightharpoonup> int64"
  m_permissionChangedSubscriptions :: "uuid \<rightharpoonup> int64"
  m_fileRemovalSubscriptions :: "uuid \<rightharpoonup> int64"
  m_fileRenamedSubscriptions :: "uuid \<rightharpoonup> int64"
  m_quotaSubscription :: int64

definition FsSubscriptions_init :: FsSubscriptions where
  "FsSubscriptions_init =
     \<lparr>m_fileAttrSubscriptions = Map.empty, m_fileLocationSubscriptions = Map.empty,
      m_permissionChangedSubscriptions = Map.empty, m_fileRemovalSubscriptions = Map.empty,
      m_fileRenamedSubscriptions = Map.empty, m_quotaSubscription = 0\<rparr>"

text \<open>The subscriptions and the event manager they refer to.\<close>

type_synonym 'm fs_subs = "FsSubscriptions \<times> 'm EventManager"

section \<open>Requests to the event manager\<close>

definition sendFileAttrSubscription :: "uuid \<Rightarrow> 'm EventManager \<Rightarrow> int64 \<times> 'm EventManager" where
  "sendFileAttrSubscription u =
     subscribe_FileAttr (FileAttrSubscription_new u (Some 1) None) (FileAttrSubscription_new u (Some 1) None)"

definition sendFileLocationSubscription :: "uuid \<Rightarrow> 'm EventManager \<Rightarrow> int64 \<times> 'm EventManager" where
  "sendFileLocationSubscription u =
     subscribe_FileLocation (FileLocationSubscription_new u (Some 1) None) (FileLocationSubscription_new u (Some 1) None)"

definition sendPermissionChangedSubscription :: "uuid \<Rightarrow> 'm EventManager \<Rightarrow> int64 \<times> 'm EventManager" where
  "sendPermissionChangedSubscription u =
     subscribe_PermissionChanged (PermissionChangedSubscription_new u) (PermissionChangedSubscription_new u)"

definition sendFileRemovalSubscription :: "uuid \<Rightarrow> 'm EventManager \<Rightarrow> int64 \<times> 'm EventManager" where
  "sendFileRemovalSubscription u =
     subscribe_FileRemoval (FileRemovalSubscription_new u) (FileRemovalSubscription_new u)"

definition sendQuotaSubscription :: "'m EventManager \<Rightarrow> int64 \<times> 'm EventManager" where
  "sendQuotaSubscription = subscribe_Quota QuotaSubscription_new QuotaSubscription_new"

definition sendFileRenamedSubscription :: "uuid \<Rightarrow> 'm EventManager \<Rightarrow> int64 \<times> 'm EventManager" where
  "sendFileRenamedSubscription u =
     subscribe_FileRenamed (FileRenamedSubscription_new u) (FileRenamedSubscription_new u)"

definition sendSubscriptionCancellation :: "int64 \<Rightarrow> 'm EventManager \<Rightarrow> 'm EventManager" where
  "sendSubscriptionCancellation i M = snd (manager_unsubscribe i M)"

section \<open>Operations\<close>

definition addFileLocationSubscription :: "uuid \<Rightarrow> 'm fs_subs \<Rightarrow> 'm fs_subs" where
  "addFileLocationSubscription u = (\<lambda>(f, M).
     if m_fileLocationSubscriptions f u = None then
       (case sendFileLocationSubscription u M of
          (i, M') \<Rightarrow> (f\<lparr>m_fileLocationSubscriptions := (m_fileLocationSubscriptions f)(u \<mapsto> i)\<rparr>, M'))
     else (f, M))"

definition removeFileLocationSubscription :: "uuid \<Rightarrow> 'm fs_subs \<Rightarrow> 'm fs_subs" where
  "removeFileLocationSubscription u = (\<lambda>(f, M).
     case m_fileLocationSubscriptions f u of
       None \<Rightarrow> (f, M)
     | Some i \<Rightarrow> (f\<lparr>m_fileLocationSubscriptions := (m_fileLocationSubscriptions f)(u := None)\<rparr>,
                  sendSubscriptionCancellation i M))"

definition addPermissionChangedSubscription :: "uuid \<Rightarrow> 'm fs_subs \<Rightarrow> 'm fs_subs" where
  "addPermissionChangedSubscription u = (\<lambda>(f, M).
     if m_permissionChangedSubscriptions f u = None then
       (case sendPermissionChangedSubscription u M of
          (i, M') \<Rightarrow> (f\<lparr>m_permissionChangedSubscriptions := (m_permissionChangedSubscriptions f)(u \<mapsto> i)\<rparr>, M'))
     else (f, M))"

definition removePermissionChangedSubscription :: "uuid \<Rightarrow> 'm fs_subs \<Rightarrow> 'm fs_subs" where
  "removePermissionChangedSubscription u = (\<lambda>(f, M).
     case m_permissionChangedSubscriptions f u of
       None \<Rightarrow> (f, M)
     | Some i \<Rightarrow> (f\<lparr>m_permissionChangedSubscriptions := (m_permissionChangedSubscriptions f)(u := None)\<rparr>,
                  sendSubscriptionCancellation i M))"

definition addFileRemovalSubscription :: "uuid \<Rightarrow> 'm fs_subs \<Rightarrow> 'm fs_subs" where
  "addFileRemovalSubscription u = (\<lambda>(f, M).
     if m_fileRemovalSubscriptions f u = None then
       (case sendFileRemovalSubscription u M of
          (i, M') \<Rightarrow> (f\<lparr>m_fileRemovalSubscriptions := (m_fileRemovalSubscriptions f)(u \<mapsto> i)\<rparr>, M'))
     else (f, M))"

definition removeFileRemovalSubscription :: "uuid \<Rightarrow> 'm fs_subs \<Rightarrow> 'm fs_subs" where
  "removeFileRemovalSubscription u = (\<lambda>(f, M).
     case m_fileRemovalSubscriptions f u of
       None \<Rightarrow> (f, M)
     | Some i \<Rightarrow> (f\<lparr>m_fileRemovalSubscriptions := (m_fileRemovalSubscriptions f)(u := None)\<rparr>,
                  sendSubscriptionCancellation i M))"

definition addFileRenamedSubscription :: "uuid \<Rightarrow> 'm fs_subs \<Rightarrow> 'm fs_subs" where
  "addFileRenamedSubscription u = (\<lambda>(f, M).
     if m_fileRenamedSubscriptions f u = None then
       (case sendFileRenamedSubscription u M of
          (i, M') \<Rightarrow> (f\<lparr>m_fileRenamedSubscriptions := (m_fileRenamedSubscriptions f)(u \<mapsto> i)\<rparr>, M'))
     else (f, M))"

definition removeFileRenamedSubscription :: "uuid \<Rightarrow> 'm fs_subs \<Rightarrow> 'm fs_subs" where
  "removeFileRenamedSubscription u = (\<lambda>(f, M).
     case m_fileRenamedSubscriptions f u of
       None \<Rightarrow> (f, M)
     | Some i \<Rightarrow> (f\<lparr>m_fileRenamedSubscriptions := (m_fileRenamedSubscriptions f)(u := None)\<rparr>,
                  sendSubscriptionCancellation i M))"

definition addFileAttrSubscription :: "uuid \<Rightarrow> 'm fs_subs \<Rightarrow> 'm fs_subs" where
  "addFileAttrSubscription u = (\<lambda>(f, M).
     if m_fileAttrSubscriptions f u = None then
       (case sendFileAttrSubscription u M of
          (i, M') \<Rightarrow> (f\<lparr>m_fileAttrSubscriptions := (m_fileAttrSubscriptions f)(u \<mapsto> i)\<rparr>, M'))
     else (f, M))"

definition removeFileAttrSubscription :: "uuid \<Rightarrow> 'm fs_subs \<Rightarrow> 'm fs_subs" where
  "removeFileAttrSubscription u = (\<lambda>(f, M).
     case m_fileAttrSubscriptions f u of
       None \<Rightarrow> (f, M)
     | Some i \<Rightarrow> (f\<lparr>m_fileAttrSubscriptions := (m_fileAttrSubscriptions f)(u := None)\<rparr>,
                  sendSubscriptionCancellation i M))"

definition addQuotaSubscription :: "'m fs_subs \<Rightarrow> 'm fs_subs" where
  "addQuotaSubscription = (\<lambda>(f, M).
     case sendQuotaSubscription M of (i, M') \<Rightarrow> (f\<lparr>m_quotaSubscription := i\<rparr>, M'))"

definition removeQuotaSubscription :: "'m fs_subs \<Rightarrow> 'm fs_subs" where
  "removeQuotaSubscription = (\<lambda>(f, M).
     if m_quotaSubscription f \<noteq> 0 then
       (f\<lparr>m_quotaSubscription := 0\<rparr>, sendSubscriptionCancellation (m_quotaSubscription f) M)
     else (f, M))"

subsection \<open>Forced proxy input and output\<close>

type_synonym ForceProxyIOCache = "uuid set"

definition force_contains :: "uuid \<Rightarrow> ForceProxyIOCache \<Rightarrow> bool" where
  "force_contains u c \<longleftrightarrow> u \<in> c"

definition force_insert :: "uuid \<Rightarrow> ForceProxyIOCache \<times> 'm fs_subs \<Rightarrow> ForceProxyIOCache \<times> 'm fs_subs" where
  "force_insert u = (\<lambda>(c, fs). (insert u c, addPermissionChangedSubscription u fs))"

definition force_erase :: "uuid \<Rightarrow> ForceProxyIOCache \<times> 'm fs_subs \<Rightarrow> ForceProxyIOCache \<times> 'm fs_subs" where
  "force_erase u = (\<lambda>(c, fs). (c - {u}, removePermissionChangedSubscription u fs))"

section \<open>Runs\<close>

datatype fs_op =
    AddLocation uuid | RemoveLocation uuid | AddRemoval uuid | RemoveRemoval uuid | AddRenamed uuid
  | RemoveRenamed uuid | AddAttr uuid | RemoveAttr uuid | AddQuota | RemoveQuota | ForceInsert uuid | ForceErase uuid

definition fs_step :: "fs_op \<Rightarrow> ForceProxyIOCache \<times> 'm fs_subs \<Rightarrow> ForceProxyIOCache \<times> 'm fs_subs" where
  "fs_step op = (\<lambda>(c, fs).
     case op of
       AddLocation u \<Rightarrow> (c, addFileLocationSubscription u fs)
     | RemoveLocation u \<Rightarrow> (c, removeFileLocationSubscription u fs)
     | AddRemoval u \<Rightarrow> (c, addFileRemovalSubscription u fs)
     | RemoveRemoval u \<Rightarrow> (c, removeFileRemovalSubscription u fs)
     | AddRenamed u \<Rightarrow> (c, addFileRenamedSubscription u fs)
     | RemoveRenamed u \<Rightarrow> (c, removeFileRenamedSubscription u fs)
     | AddAttr u \<Rightarrow> (c, addFileAttrSubscription u fs)
     | RemoveAttr u \<Rightarrow> (c, removeFileAttrSubscription u fs)
     | AddQuota \<Rightarrow> (c, addQuotaSubscription fs)
     | RemoveQuota \<Rightarrow> (c, removeQuotaSubscription fs)
     | ForceInsert u \<Rightarrow> force_insert u (c, fs)
     | ForceErase u \<Rightarrow> force_erase u (c, fs))"

text \<open>In between, everything else may happen to the event manager.\<close>

inductive fs_reach :: "'m icl \<Rightarrow> ForceProxyIOCache \<times> 'm fs_subs \<Rightarrow> bool" for I where
  fs_start: "fs_reach I ({}, (FsSubscriptions_init, EventManager_init))"
| fs_op: "fs_reach I cfs \<Longrightarrow> fs_reach I (fs_step op cfs)"
| fs_call: "fs_reach I (c, (f, M)) \<Longrightarrow> do_call I call M = (x, M') \<Longrightarrow> fs_reach I (c, (f, M'))"

section \<open>Lemmas\<close>

text \<open>The id that the next client subscription gets, negated.\<close>

abbreviation next_id :: "'m EventManager \<Rightarrow> int64" where
  "next_id M \<equiv> m_subscriptionId (m_registry M)"

lemma subscribe_both_id:
  "fst (worker_subscribe_both c s (w, r)) = - m_subscriptionId r"
  "m_subscriptionId (snd (snd (worker_subscribe_both c s (w, r)))) = m_subscriptionId r + 1"
  by (simp_all add: worker_subscribe_both_def nextSubscriptionId_def Let_def)

lemmas subscribe_defs = subscribe_FileAttr_def subscribe_FileLocation_def subscribe_PermissionChanged_def
  subscribe_FileRemoval_def subscribe_Quota_def subscribe_FileRenamed_def

lemmas send_defs = sendFileAttrSubscription_def sendFileLocationSubscription_def
  sendPermissionChangedSubscription_def sendFileRemovalSubscription_def sendFileRenamedSubscription_def
  sendQuotaSubscription_def

lemma send_id:
  "sendFileAttrSubscription u M = (i, M') \<Longrightarrow> i = - next_id M \<and> next_id M' = next_id M + 1"
  "sendFileLocationSubscription u M = (i, M') \<Longrightarrow> i = - next_id M \<and> next_id M' = next_id M + 1"
  "sendPermissionChangedSubscription u M = (i, M') \<Longrightarrow> i = - next_id M \<and> next_id M' = next_id M + 1"
  "sendFileRemovalSubscription u M = (i, M') \<Longrightarrow> i = - next_id M \<and> next_id M' = next_id M + 1"
  "sendFileRenamedSubscription u M = (i, M') \<Longrightarrow> i = - next_id M \<and> next_id M' = next_id M + 1"
  "sendQuotaSubscription M = (i, M') \<Longrightarrow> i = - next_id M \<and> next_id M' = next_id M + 1"
  by (auto simp: send_defs subscribe_defs subscribe_both_id case_prod_beta)

lemma execute_handler_id [simp]: "next_id (execute_handler nh M) = next_id M"
  by (simp add: execute_handler_def split: prod.split stream_name.split)

lemma manager_unsubscribe_id [simp]: "next_id (snd (manager_unsubscribe i M)) = next_id M"
  by (simp add: manager_unsubscribe_def removeSubscription_def split: option.split)

lemma cancellation_id [simp]: "next_id (sendSubscriptionCancellation i M) = next_id M"
  by (simp add: sendSubscriptionCancellation_def)

lemma run_one_id: "m_subscriptionId (snd (snd (run_one E n (w, r)))) = m_subscriptionId r"
  by (auto simp: run_one_def run_subscribe_def addUnsubscribeHandler_def case_prod_beta Let_def
      split: list.split task.split sum.split option.split)

lemma handle_events_id: "next_id (snd (handle_events I es M)) = next_id M"
proof (induction es arbitrary: M)
  case (Cons e es)
  have "next_id (snd (handle_event I e M)) = next_id M"
    by (simp add: handle_event_def split: server_event.split sum.split)
  then show ?case using Cons.IH by (auto simp: bindA_def split: prod.split sum.split)
qed simp

lemma run_worker_id: "next_id (snd (run_worker I n M)) = next_id M"
  by (simp add: run_worker_def case_prod_beta run_one_id split: stream_name.split)

lemma subscribe_client_id: "next_id M \<le> next_id (subscribe_client n c s M)"
  by (simp add: subscribe_client_def subscribe_defs case_prod_beta subscribe_both_id split: stream_name.split)

lemma do_call_id: "next_id M \<le> next_id (snd (do_call I c M))"
proof (cases c)
  case (Receive m)
  then show ?thesis
    by (cases m) (simp_all add: do_call_def manager_callback_def handle_events_id handle_cancellation_def
        handle_subscription_def split: proto_subscription.split)
qed (simp_all add: do_call_def emitReadEvent_def emitWriteEvent_def emitTruncateEvent_def emitFileRemovalEvent_def
    emitFileOpenedEvent_def emitFileReleasedEvent_def subscribe_container_def subscribe_client_id run_worker_id
    fire_def split: stream_name.split)

text \<open>All subscriptions of the file system as one map.\<close>

datatype fs_kind = KAttr | KLocation | KPermission | KRemoval | KRenamed

fun fs_ids :: "FsSubscriptions \<Rightarrow> fs_kind \<times> uuid \<rightharpoonup> int64" where
  "fs_ids f (KAttr, u) = m_fileAttrSubscriptions f u"
| "fs_ids f (KLocation, u) = m_fileLocationSubscriptions f u"
| "fs_ids f (KPermission, u) = m_permissionChangedSubscriptions f u"
| "fs_ids f (KRemoval, u) = m_fileRemovalSubscriptions f u"
| "fs_ids f (KRenamed, u) = m_fileRenamedSubscriptions f u"

definition ids_inv :: "FsSubscriptions \<Rightarrow> 'm EventManager \<Rightarrow> bool" where
  "ids_inv f M \<longleftrightarrow>
     0 < next_id M \<and>
     (\<forall>x i. fs_ids f x = Some i \<longrightarrow> - next_id M < i \<and> i < 0) \<and>
     (\<forall>x y i. fs_ids f x = Some i \<longrightarrow> fs_ids f y = Some i \<longrightarrow> x = y)"

lemma ids_inv_add:
  assumes "ids_inv f M" "fs_ids f' = (fs_ids f)(x \<mapsto> - next_id M)" "next_id M' = next_id M + 1"
  shows "ids_inv f' M'"
  using assms unfolding ids_inv_def by (auto; fastforce)

lemma ids_inv_remove:
  assumes "ids_inv f M" "fs_ids f' = (fs_ids f)(x := None)" "next_id M \<le> next_id M'"
  shows "ids_inv f' M'"
  using assms unfolding ids_inv_def by (auto; fastforce)

lemma ids_inv_mono: "ids_inv f M \<Longrightarrow> fs_ids f' = fs_ids f \<Longrightarrow> next_id M \<le> next_id M' \<Longrightarrow> ids_inv f' M'"
  unfolding ids_inv_def by (auto; fastforce)

lemma fs_ids_cases:
  "fs_ids f x = (case fst x of KAttr \<Rightarrow> m_fileAttrSubscriptions f (snd x) | KLocation \<Rightarrow> m_fileLocationSubscriptions f (snd x)
     | KPermission \<Rightarrow> m_permissionChangedSubscriptions f (snd x) | KRemoval \<Rightarrow> m_fileRemovalSubscriptions f (snd x)
     | KRenamed \<Rightarrow> m_fileRenamedSubscriptions f (snd x))"
  by (cases x; cases "fst x") simp_all

lemma fs_ids_update:
  "fs_ids (f\<lparr>m_fileAttrSubscriptions := (m_fileAttrSubscriptions f)(u := io)\<rparr>) = (fs_ids f)((KAttr, u) := io)"
  "fs_ids (f\<lparr>m_fileLocationSubscriptions := (m_fileLocationSubscriptions f)(u := io)\<rparr>) = (fs_ids f)((KLocation, u) := io)"
  "fs_ids (f\<lparr>m_permissionChangedSubscriptions := (m_permissionChangedSubscriptions f)(u := io)\<rparr>) = (fs_ids f)((KPermission, u) := io)"
  "fs_ids (f\<lparr>m_fileRemovalSubscriptions := (m_fileRemovalSubscriptions f)(u := io)\<rparr>) = (fs_ids f)((KRemoval, u) := io)"
  "fs_ids (f\<lparr>m_fileRenamedSubscriptions := (m_fileRenamedSubscriptions f)(u := io)\<rparr>) = (fs_ids f)((KRenamed, u) := io)"
  "fs_ids (f\<lparr>m_quotaSubscription := q\<rparr>) = fs_ids f"
  by (rule ext, auto simp: fs_ids_cases prod_eq_iff split: fs_kind.split)+

definition fs_inv :: "ForceProxyIOCache \<times> 'm fs_subs \<Rightarrow> bool" where
  "fs_inv = (\<lambda>(c, (f, M)). ids_inv f M \<and> (\<forall>u. u \<in> c \<longleftrightarrow> m_permissionChangedSubscriptions f u \<noteq> None))"

lemmas add_defs = addFileAttrSubscription_def addFileLocationSubscription_def addPermissionChangedSubscription_def
  addFileRemovalSubscription_def addFileRenamedSubscription_def addQuotaSubscription_def
lemmas remove_defs = removeFileAttrSubscription_def removeFileLocationSubscription_def
  removePermissionChangedSubscription_def removeFileRemovalSubscription_def removeFileRenamedSubscription_def
  removeQuotaSubscription_def

lemma fs_step_inv:
  assumes "fs_inv (c, (f, M))"
  shows "fs_inv (fs_step op (c, (f, M)))"
proof -
  have inv: "ids_inv f M" using assms by (simp add: fs_inv_def)
  note add = ids_inv_add [OF inv] and rem = ids_inv_remove [OF inv] and mono = ids_inv_mono [OF inv]
  show ?thesis
    using assms
    by (cases op)
       (auto simp: fs_step_def fs_inv_def add_defs remove_defs force_insert_def force_erase_def
         split: option.splits prod.split dest!: send_id
         intro: add [OF fs_ids_update(1)] add [OF fs_ids_update(2)] add [OF fs_ids_update(3)]
           add [OF fs_ids_update(4)] add [OF fs_ids_update(5)] mono [OF fs_ids_update(6)]
           rem [OF fs_ids_update(1)] rem [OF fs_ids_update(2)] rem [OF fs_ids_update(3)]
           rem [OF fs_ids_update(4)] rem [OF fs_ids_update(5)])
qed

lemma fs_reach_inv: "fs_reach I cfs \<Longrightarrow> fs_inv cfs"
proof (induction rule: fs_reach.induct)
  case fs_start
  show ?case
    by (auto simp: fs_inv_def ids_inv_def FsSubscriptions_init_def EventManager_init_def
        SubscriptionRegistry_init_def fs_ids_cases split: fs_kind.splits)
next
  case (fs_op cfs op)
  then show ?case using fs_step_inv by (cases cfs) auto
next
  case (fs_call c f M call x M')
  then show ?case
    using do_call_id [of M I call] ids_inv_mono [of f M f M'] by (auto simp: fs_inv_def)
qed

section \<open>Properties\<close>



end
