(* ===== verification/OC_HelpersCache.thy ===== *)
theory OC_HelpersCache
  imports OC_Flags
begin

text \<open>
  How the client chooses the helper for a storage (\<open>src/cache/helpersCache.cc\<close>,
  \<open>src/storageAccessManager.cc\<close>): a storage is accessed through the provider until a test file that
  the provider created could be read and modified directly and the provider confirmed the change.
  Also the cache of open file contexts (\<open>src/cache/fileContextCache.cc\<close>).
\<close>

section \<open>Storage access manager\<close>

definition ENOENT :: errno where "ENOENT = 2"
definition EPERM :: errno where "EPERM = 1"
definition EACCES :: errno where "EACCES = 13"
definition ENOTDIR :: errno where "ENOTDIR = 20"
definition EINVAL :: errno where "EINVAL = 22"

record HelperParams =
  hp_name :: string
  hp_args :: "(string \<times> string) list"

record StorageTestFile =
  tf_helperParams :: HelperParams
  tf_spaceUuid :: uuid
  tf_fileId :: file_id
  tf_fileContent :: string

text \<open>
  The storage helpers and their factory, which do the input and output, are a parameter: what opening,
  reading (up to a number of bytes from offset 0), writing, syncing and releasing a file returns.
\<close>

record 'h storage =
  st_factory :: "string \<Rightarrow> (string \<times> string) list \<Rightarrow> 'h"
  st_open :: "'h \<Rightarrow> file_id \<Rightarrow> mask \<Rightarrow> unit res"
  st_read :: "'h \<Rightarrow> file_id \<Rightarrow> nat \<Rightarrow> string res"
  st_write :: "'h \<Rightarrow> file_id \<Rightarrow> string \<Rightarrow> unit res"
  st_fsync :: "'h \<Rightarrow> file_id \<Rightarrow> unit res"
  st_release :: "'h \<Rightarrow> file_id \<Rightarrow> unit res"

text \<open>Code that releases the file both after a throw, which it passes on, and after success.\<close>

definition with_release :: "'h storage \<Rightarrow> 'h \<Rightarrow> file_id \<Rightarrow> 'a res \<Rightarrow> 'a res" where
  "with_release st helper fileId r =
     (case st_release st helper fileId of Inl x \<Rightarrow> Inl x | Inr _ \<Rightarrow> r)"

definition check_test_file :: "'h storage \<Rightarrow> 'h \<Rightarrow> StorageTestFile \<Rightarrow> bool res" where
  "check_test_file st helper testFile =
     (case st_open st helper (tf_fileId testFile) 0 of
        Inl x \<Rightarrow> Inl x
      | Inr _ \<Rightarrow>
          (case with_release st helper (tf_fileId testFile)
                  (st_read st helper (tf_fileId testFile) (length (tf_fileContent testFile))) of
             Inl x \<Rightarrow> Inl x
           | Inr content \<Rightarrow>
               Inr (length content = length (tf_fileContent testFile) \<and> tf_fileContent testFile = content)))"

definition verify_helper :: "'h storage \<Rightarrow> 'h \<Rightarrow> StorageTestFile \<Rightarrow> bool res" where
  "verify_helper st helper testFile =
     (case check_test_file st helper testFile of
        Inl (SystemError code) \<Rightarrow>
          if code \<noteq> ENOENT \<and> code \<noteq> ENOTDIR \<and> code \<noteq> EPERM then Inl (SystemError code) else Inr False
      | r \<Rightarrow> r)"

text \<open>
  The mount points the client tries: the entries (type, directory) of the mount table, \<open>None\<close> when it
  cannot be opened, without FUSE file systems and system directories.
\<close>

definition getMountPoints :: "(string \<times> path) list option \<Rightarrow> path list" where
  "getMountPoints mounts =
     (case mounts of
        None \<Rightarrow> []
      | Some ents \<Rightarrow>
          [path. (type, path) \<leftarrow> ents,
             take 4 type \<noteq> ''fuse'' \<and> take 5 path \<noteq> ''/proc'' \<and> take 4 path \<noteq> ''/dev'' \<and>
             take 4 path \<noteq> ''/sys'' \<and> take 4 path \<noteq> ''/etc'' \<and> path \<noteq> ''/''])"

definition DIRECT_IO_HELPER_NAME :: string where "DIRECT_IO_HELPER_NAME = ''DirectIO''"
definition DIRECT_IO_HELPER_PATH_ARG :: string where "DIRECT_IO_HELPER_PATH_ARG = ''root_path''"

fun verify_mountPoints :: "'h storage \<Rightarrow> path list \<Rightarrow> StorageTestFile \<Rightarrow> 'h option res" where
  "verify_mountPoints st [] testFile = Inr None"
| "verify_mountPoints st (mountPoint # mountPoints) testFile =
     (let helper = st_factory st DIRECT_IO_HELPER_NAME [(DIRECT_IO_HELPER_PATH_ARG, mountPoint)] in
      case verify_helper st helper testFile of
        Inl x \<Rightarrow> Inl x
      | Inr True \<Rightarrow> Inr (Some helper)
      | Inr False \<Rightarrow> verify_mountPoints st mountPoints testFile)"

definition verifyStorageTestFile :: "'h storage \<Rightarrow> path list \<Rightarrow> StorageTestFile \<Rightarrow> 'h option res" where
  "verifyStorageTestFile st mountPoints testFile =
     (let params = tf_helperParams testFile in
      if hp_name params = DIRECT_IO_HELPER_NAME then verify_mountPoints st mountPoints testFile
      else
        let helper = st_factory st (hp_name params) (hp_args params) in
        case verify_helper st helper testFile of
          Inl x \<Rightarrow> Inl x
        | Inr True \<Rightarrow> Inr (Some helper)
        | Inr False \<Rightarrow> Inr None)"

text \<open>The characters of the new content are drawn at random; the \<open>i\<close>th draw is \<open>random i\<close>.\<close>

definition modifyStorageTestFile :: "'h storage \<Rightarrow> 'h \<Rightarrow> StorageTestFile \<Rightarrow> (nat \<Rightarrow> char) \<Rightarrow> string res" where
  "modifyStorageTestFile st helper testFile random =
     (let buffer = map random [0..<length (tf_fileContent testFile)] in
      case st_open st helper (tf_fileId testFile) 1 of
        Inl x \<Rightarrow> Inl x
      | Inr _ \<Rightarrow>
          with_release st helper (tf_fileId testFile)
            (case st_write st helper (tf_fileId testFile) buffer of
               Inl x \<Rightarrow> Inl x
             | Inr _ \<Rightarrow> (case st_fsync st helper (tf_fileId testFile) of Inl x \<Rightarrow> Inl x | Inr _ \<Rightarrow> Inr buffer)))"

section \<open>Helpers cache\<close>

datatype AccessType = DIRECT | PROXY

text \<open>
  Besides its two maps, what the cache waits for: the answer to \<open>CreateStorageTestFile\<close> with its file
  and storage, the next attempt to find a test file, or the answer to \<open>VerifyStorageTestFile\<close> with its
  storage, space, file and content.
\<close>

datatype pending_test =
    TestFileRequested uuid storage_id
  | AttemptScheduled StorageTestFile storage_id nat
  | VerificationRequested storage_id uuid file_id string

record 'h HelpersCache =
  m_accessType :: "storage_id \<rightharpoonup> AccessType"
  m_cache :: "storage_id \<times> bool \<rightharpoonup> 'h"
  hc_pending :: "pending_test list"

definition VERIFY_TEST_FILE_ATTEMPTS :: nat where "VERIFY_TEST_FILE_ATTEMPTS = 5"

definition HelpersCache_init :: "'h HelpersCache" where
  "HelpersCache_init = \<lparr>m_accessType = Map.empty, m_cache = Map.empty, hc_pending = []\<rparr>"

definition requestStorageTestFileCreation :: "uuid \<Rightarrow> storage_id \<Rightarrow> 'h HelpersCache \<Rightarrow> 'h HelpersCache" where
  "requestStorageTestFileCreation fileUuid storageId hc =
     hc\<lparr>hc_pending := hc_pending hc @ [TestFileRequested fileUuid storageId]\<rparr>"

definition requestStorageTestFileVerification :: "StorageTestFile \<Rightarrow> storage_id \<Rightarrow> string \<Rightarrow> 'h HelpersCache \<Rightarrow> 'h HelpersCache" where
  "requestStorageTestFileVerification testFile storageId fileContent hc =
     hc\<lparr>hc_pending := hc_pending hc @
       [VerificationRequested storageId (tf_spaceUuid testFile) (tf_fileId testFile) fileContent]\<rparr>"

text \<open>\<open>params\<close> is the answer to \<open>GetHelperParams\<close>.\<close>

definition helpers_get :: "'h storage \<Rightarrow> (storage_id \<Rightarrow> bool \<Rightarrow> HelperParams res) \<Rightarrow> uuid \<Rightarrow> storage_id \<Rightarrow> bool \<Rightarrow> ('h HelpersCache, 'h) act" where
  "helpers_get st params fileUuid storageId forceProxyIO hc =
     (let (force, hc1) =
            (if forceProxyIO then (True, hc)
             else case m_accessType hc storageId of
                    None \<Rightarrow> (True, requestStorageTestFileCreation fileUuid storageId
                               (hc\<lparr>m_accessType := (m_accessType hc)(storageId \<mapsto> PROXY)\<rparr>))
                  | Some t \<Rightarrow> (t = PROXY, hc))
      in case m_cache hc1 (storageId, force) of
           Some helper \<Rightarrow> (Inr helper, hc1)
         | None \<Rightarrow>
             (case params storageId force of
                Inl x \<Rightarrow> (Inl x, hc1)
              | Inr p \<Rightarrow>
                  (let helper = st_factory st (hp_name p) (hp_args p)
                   in (Inr helper, hc1\<lparr>m_cache := (m_cache hc1)((storageId, force) \<mapsto> helper)\<rparr>))))"

definition set_access :: "storage_id \<Rightarrow> AccessType option \<Rightarrow> 'h HelpersCache \<Rightarrow> 'h HelpersCache" where
  "set_access storageId t hc = hc\<lparr>m_accessType := (m_accessType hc)(storageId := t)\<rparr>"

definition handle_test_error :: "exn \<Rightarrow> storage_id \<Rightarrow> ('h HelpersCache, unit) act" where
  "handle_test_error x storageId hc =
     (case x of
        SystemError code \<Rightarrow>
          (Inr (), if code = ENOENT \<or> code = ENOTDIR \<or> code = EACCES then set_access storageId (Some PROXY) hc
                   else set_access storageId None hc)
      | _ \<Rightarrow> (Inl x, hc))"

definition handleStorageTestFile :: "'h storage \<Rightarrow> path list \<Rightarrow> (nat \<Rightarrow> char) \<Rightarrow> StorageTestFile \<Rightarrow> storage_id \<Rightarrow> nat \<Rightarrow> ('h HelpersCache, unit) act" where
  "handleStorageTestFile st mountPoints random testFile storageId attempts hc =
     (if attempts = 0 then (Inr (), set_access storageId (Some PROXY) hc)
      else
        case verifyStorageTestFile st mountPoints testFile of
          Inl x \<Rightarrow> handle_test_error x storageId hc
        | Inr None \<Rightarrow> (Inr (), hc\<lparr>hc_pending := hc_pending hc @ [AttemptScheduled testFile storageId (attempts - 1)]\<rparr>)
        | Inr (Some helper) \<Rightarrow>
            (case modifyStorageTestFile st helper testFile random of
               Inl x \<Rightarrow> handle_test_error x storageId hc
             | Inr fileContent \<Rightarrow>
                 (let hc1 = requestStorageTestFileVerification testFile storageId fileContent hc
                  in (Inr (), hc1\<lparr>m_cache := (m_cache hc1)((storageId, False) \<mapsto> helper)\<rparr>))))"

definition handleStorageTestFileVerification :: "errno option \<Rightarrow> storage_id \<Rightarrow> 'h HelpersCache \<Rightarrow> 'h HelpersCache" where
  "handleStorageTestFileVerification ec storageId hc =
     (case ec of
        None \<Rightarrow> set_access storageId (Some DIRECT) hc
      | Some code \<Rightarrow>
          if code = ENOENT \<or> code = EINVAL then set_access storageId (Some PROXY) hc
          else set_access storageId None hc)"

definition handle_test_file_response :: "'h storage \<Rightarrow> path list \<Rightarrow> (nat \<Rightarrow> char) \<Rightarrow> errno + StorageTestFile \<Rightarrow> storage_id \<Rightarrow> ('h HelpersCache, unit) act" where
  "handle_test_file_response st mountPoints random answer storageId hc =
     (case answer of
        Inr testFile \<Rightarrow> handleStorageTestFile st mountPoints random testFile storageId VERIFY_TEST_FILE_ATTEMPTS hc
      | Inl ec \<Rightarrow> (Inr (), set_access storageId None hc))"

section \<open>File context cache\<close>

text \<open>
  What \<open>create\<close> leaves null or uninitialised in a new entry is empty here; its caller sets every
  member while it still holds the entry. Copies of an entry share the handle and the helper
  contexts, so these are updated in the entry itself. A helper context is an object of the helper;
  the cache holds a pointer to it, which may be null.
\<close>

type_synonym CTXPtr = "nat option"

record FileContext =
  fc_uuid :: uuid
  fc_flags :: mask
  fc_handleId :: "string option"
  fc_helperCtxMap :: "((storage_id \<times> file_id) \<times> CTXPtr) list"

record FileContextCache =
  fcc_cache :: "uint64 \<rightharpoonup> FileContext"
  m_nextHandle :: uint64

definition FileContextCache_init :: FileContextCache where
  "FileContextCache_init = \<lparr>fcc_cache = Map.empty, m_nextHandle = 0\<rparr>"

definition FileContext_default :: FileContext where
  "FileContext_default = \<lparr>fc_uuid = [], fc_flags = 0, fc_handleId = None, fc_helperCtxMap = []\<rparr>"

definition context_get :: "uint64 \<Rightarrow> FileContextCache \<Rightarrow> FileContext res" where
  "context_get fh c = (case fcc_cache c fh of None \<Rightarrow> Inl OutOfRange | Some ctx \<Rightarrow> Inr ctx)"

text \<open>The loop of \<open>create\<close>: take the next handle until it is free.\<close>

partial_function (option) context_create :: "FileContextCache \<Rightarrow> (uint64 \<times> FileContextCache) option" where
  "context_create c =
     (let fh = m_nextHandle c; c' = c\<lparr>m_nextHandle := fh + 1\<rparr> in
      if fcc_cache c fh = None
      then Some (fh, c'\<lparr>fcc_cache := (fcc_cache c)(fh \<mapsto> FileContext_default)\<rparr>)
      else context_create c')"

definition context_erase :: "uint64 \<Rightarrow> FileContextCache \<Rightarrow> FileContextCache" where
  "context_erase fh c = c\<lparr>fcc_cache := (fcc_cache c)(fh := None)\<rparr>"

section \<open>Runs of the helpers cache\<close>

text \<open>
  The relation records for which storages the provider confirmed the modified test file, and which
  helpers had read and modified a test file of which storage. Input and output may behave differently
  at every step, so the storage parameter belongs to the step.
\<close>

inductive helpers_reach :: "storage_id set \<Rightarrow> (storage_id \<times> 'h) set \<Rightarrow> 'h HelpersCache \<Rightarrow> bool" where
  helpers_start: "helpers_reach {} {} HelpersCache_init"
| helpers_lookup: "helpers_reach V K hc \<Longrightarrow> helpers_reach V K (snd (helpers_get st params u s f hc))"
| helpers_test_file: "helpers_reach V K hc \<Longrightarrow> TestFileRequested u s \<in> set (hc_pending hc) \<Longrightarrow>
    handle_test_file_response st mps random answer s (hc\<lparr>hc_pending := remove1 (TestFileRequested u s) (hc_pending hc)\<rparr>) = (Inr (), hc') \<Longrightarrow>
    helpers_reach V (K \<union> {(s, h) | h tf. answer = Inr tf \<and> verifyStorageTestFile st mps tf = Inr (Some h) \<and>
      (\<exists>c. modifyStorageTestFile st h tf random = Inr c)}) hc'"
| helpers_attempt: "helpers_reach V K hc \<Longrightarrow> AttemptScheduled tf s n \<in> set (hc_pending hc) \<Longrightarrow>
    handleStorageTestFile st mps random tf s n (hc\<lparr>hc_pending := remove1 (AttemptScheduled tf s n) (hc_pending hc)\<rparr>) = (Inr (), hc') \<Longrightarrow>
    helpers_reach V (K \<union> {(s, h) | h. verifyStorageTestFile st mps tf = Inr (Some h) \<and>
      (\<exists>c. modifyStorageTestFile st h tf random = Inr c)}) hc'"
| helpers_verdict: "helpers_reach V K hc \<Longrightarrow> VerificationRequested s v w c \<in> set (hc_pending hc) \<Longrightarrow>
    helpers_reach (if ec = None then insert s V else V) K
      (handleStorageTestFileVerification ec s (hc\<lparr>hc_pending := remove1 (VerificationRequested s v w c) (hc_pending hc)\<rparr>))"

section \<open>Lemmas\<close>

definition helpers_inv :: "storage_id set \<Rightarrow> (storage_id \<times> 'h) set \<Rightarrow> 'h HelpersCache \<Rightarrow> bool" where
  "helpers_inv V K hc \<longleftrightarrow>
     (\<forall>s h. m_cache hc (s, False) = Some h \<longrightarrow> (s, h) \<in> K) \<and>
     (\<forall>s v w c. VerificationRequested s v w c \<in> set (hc_pending hc) \<longrightarrow> m_cache hc (s, False) \<noteq> None) \<and>
     (\<forall>s. m_accessType hc s = Some DIRECT \<longrightarrow> s \<in> V \<and> m_cache hc (s, False) \<noteq> None) \<and>
     (\<forall>tf s n. AttemptScheduled tf s n \<in> set (hc_pending hc) \<longrightarrow> n < VERIFY_TEST_FILE_ATTEMPTS)"

lemma in_set_remove1_D: "x \<in> set (remove1 y xs) \<Longrightarrow> x \<in> set xs"
  by (metis notin_set_remove1)

lemma helpers_inv_pending:
  "helpers_inv V K hc \<Longrightarrow> helpers_inv V K (hc\<lparr>hc_pending := remove1 x (hc_pending hc)\<rparr>)"
  unfolding helpers_inv_def by (simp, meson in_set_remove1_D)

lemma helpers_inv_access:
  assumes "helpers_inv V K hc" "t \<noteq> Some DIRECT"
  shows "helpers_inv V K (set_access s t hc)"
  using assms unfolding helpers_inv_def set_access_def by (auto split: if_splits)

lemma helpers_inv_mono: "helpers_inv V K hc \<Longrightarrow> V \<subseteq> V' \<Longrightarrow> K \<subseteq> K' \<Longrightarrow> helpers_inv V' K' hc"
  unfolding helpers_inv_def by blast

lemma helpers_inv_get:
  assumes "helpers_inv V K hc"
  shows "helpers_inv V K (snd (helpers_get st params u s f hc))"
proof -
  have req: "helpers_inv V K (requestStorageTestFileCreation u s (hc\<lparr>m_accessType := (m_accessType hc)(s \<mapsto> PROXY)\<rparr>))"
    using assms unfolding helpers_inv_def requestStorageTestFileCreation_def by auto
  have put: "helpers_inv V K (d\<lparr>m_cache := (m_cache d)((s, True) \<mapsto> h)\<rparr>)" if "helpers_inv V K d" for d h
    using that unfolding helpers_inv_def by auto
  have direct: "m_cache hc (s, False) \<noteq> None" if "m_accessType hc s = Some DIRECT"
    using that assms by (simp add: helpers_inv_def)
  consider "f" | "\<not> f" "m_accessType hc s = None" | "\<not> f" "m_accessType hc s = Some PROXY"
    | "\<not> f" "m_accessType hc s = Some DIRECT"
    by (cases f; cases "m_accessType hc s") (auto intro: AccessType.exhaust)
  then show ?thesis
  proof cases
    case 4
    then show ?thesis using direct assms by (auto simp: helpers_get_def Let_def split: option.split)
  qed (use assms req put in \<open>auto simp: helpers_get_def Let_def split: option.split sum.split\<close>)
qed

lemma handle_test_error_inv:
  "helpers_inv V K hc \<Longrightarrow> helpers_inv V K (snd (handle_test_error x s hc))"
  by (cases x) (simp_all add: handle_test_error_def helpers_inv_access)

lemma handleStorageTestFile_inv:
  assumes inv: "helpers_inv V K hc" and n: "n \<le> VERIFY_TEST_FILE_ATTEMPTS"
    and K': "K' = K \<union> {(s, h) | h. verifyStorageTestFile st mps tf = Inr (Some h) \<and> (\<exists>c. modifyStorageTestFile st h tf random = Inr c)}"
  shows "helpers_inv V K' (snd (handleStorageTestFile st mps random tf s n hc))"
proof -
  have inv': "helpers_inv V K' hc" using inv K' by (blast intro: helpers_inv_mono)
  show ?thesis
  proof (cases "verifyStorageTestFile st mps tf")
    case (Inl x)
    then show ?thesis
      using inv' by (simp add: handleStorageTestFile_def helpers_inv_access handle_test_error_inv)
  next
    case (Inr ho)
    show ?thesis
    proof (cases ho)
      case None
      have "helpers_inv V K' (hc\<lparr>hc_pending := hc_pending hc @ [AttemptScheduled tf s (n - 1)]\<rparr>)" if "n \<noteq> 0"
        using inv' n that unfolding helpers_inv_def by auto
      then show ?thesis using None Inr inv' by (simp add: handleStorageTestFile_def helpers_inv_access)
    next
      case (Some h)
      have "helpers_inv V K' (hc\<lparr>hc_pending := hc_pending hc @ [VerificationRequested s v w c],
          m_cache := (m_cache hc)((s, False) \<mapsto> h)\<rparr>)" if "modifyStorageTestFile st h tf random = Inr c" for c v w
        using inv' Some Inr that K' unfolding helpers_inv_def by auto
      then show ?thesis
        using Some Inr inv'
        by (simp add: handleStorageTestFile_def requestStorageTestFileVerification_def Let_def helpers_inv_access
            handle_test_error_inv split: sum.split)
    qed
  qed
qed

lemma helpers_reach_inv: "helpers_reach V K hc \<Longrightarrow> helpers_inv V K hc"
proof (induction rule: helpers_reach.induct)
  case helpers_start
  show ?case by (simp add: helpers_inv_def HelpersCache_init_def)
next
  case (helpers_lookup V K hc st params u s f)
  then show ?case by (simp add: helpers_inv_get)
next
  case (helpers_test_file V K hc u s st mps random answer hc')
  let ?hc = "hc\<lparr>hc_pending := remove1 (TestFileRequested u s) (hc_pending hc)\<rparr>"
  have inv: "helpers_inv V K ?hc" by (rule helpers_inv_pending [OF helpers_test_file.IH])
  show ?case
  proof (cases answer)
    case (Inl ec)
    then show ?thesis
      using helpers_test_file.hyps(3) helpers_inv_access [OF inv, of None s] by (auto simp: handle_test_file_response_def)
  next
    case (Inr tf)
    have r: "handleStorageTestFile st mps random tf s VERIFY_TEST_FILE_ATTEMPTS ?hc = (Inr (), hc')"
      using helpers_test_file.hyps(3) Inr by (simp add: handle_test_file_response_def)
    show ?thesis
      using handleStorageTestFile_inv [OF inv order_refl refl, of s st mps tf random] r Inr by simp
  qed
next
  case (helpers_attempt V K hc tf s n st mps random hc')
  let ?hc = "hc\<lparr>hc_pending := remove1 (AttemptScheduled tf s n) (hc_pending hc)\<rparr>"
  have inv: "helpers_inv V K ?hc" by (rule helpers_inv_pending [OF helpers_attempt.IH])
  have "n \<le> VERIFY_TEST_FILE_ATTEMPTS"
    using helpers_attempt.IH helpers_attempt.hyps(2) unfolding helpers_inv_def by (blast intro: less_imp_le)
  then show ?case
    using handleStorageTestFile_inv [OF inv _ refl, of n s st mps tf random] helpers_attempt.hyps(3) by simp
next
  case (helpers_verdict V K hc s v w c ec)
  let ?hc = "hc\<lparr>hc_pending := remove1 (VerificationRequested s v w c) (hc_pending hc)\<rparr>"
  have inv: "helpers_inv V K ?hc" by (rule helpers_inv_pending [OF helpers_verdict.IH])
  show ?case
  proof (cases ec)
    case None
    have "m_cache hc (s, False) \<noteq> None"
      using helpers_verdict.IH helpers_verdict.hyps(2) unfolding helpers_inv_def by blast
    then show ?thesis
      using inv None unfolding helpers_inv_def
      by (simp add: handleStorageTestFileVerification_def set_access_def)
  next
    case (Some code)
    then show ?thesis using inv by (simp add: handleStorageTestFileVerification_def helpers_inv_access)
  qed
qed

section \<open>Properties\<close>


definition posix_storage :: "string storage" where
  "posix_storage = \<lparr>st_factory = \<lambda>name args. name, st_open = \<lambda>h f m. Inr (), st_read = \<lambda>h f n. Inr ''abc'',
     st_write = \<lambda>h f c. Inr (), st_fsync = \<lambda>h f. Inr (), st_release = \<lambda>h f. Inr ()\<rparr>"

definition example_test_file :: StorageTestFile where
  "example_test_file = \<lparr>tf_helperParams = \<lparr>hp_name = ''S3'', hp_args = []\<rparr>, tf_spaceUuid = ''sp'', tf_fileId = ''f'',
     tf_fileContent = ''abc''\<rparr>"

definition example_helpers :: "string HelpersCache" where
  "example_helpers = \<lparr>m_accessType = [''s'' \<mapsto> DIRECT], m_cache = [(''s'', True) \<mapsto> ''ProxyIO'', (''s'', False) \<mapsto> ''S3''],
     hc_pending = []\<rparr>"

lemmas helpers_eval = HelpersCache_init_def helpers_get_def requestStorageTestFileCreation_def
  requestStorageTestFileVerification_def handle_test_file_response_def handleStorageTestFile_def
  handleStorageTestFileVerification_def verifyStorageTestFile_def verify_helper_def check_test_file_def
  with_release_def modifyStorageTestFile_def set_access_def posix_storage_def example_test_file_def
  VERIFY_TEST_FILE_ATTEMPTS_def DIRECT_IO_HELPER_NAME_def Let_def

lemma example_helpers_reach: "helpers_reach {''s''} {(''s'', ''S3'')} example_helpers"
proof -
  let ?p = "\<lambda>s b. Inr \<lparr>hp_name = ''ProxyIO'', hp_args = []\<rparr>"
  let ?a = "\<lparr>m_accessType = [''s'' \<mapsto> PROXY], m_cache = [(''s'', True) \<mapsto> ''ProxyIO''], hc_pending = [TestFileRequested ''u'' ''s'']\<rparr>"
  let ?b = "\<lparr>m_accessType = [''s'' \<mapsto> PROXY], m_cache = [(''s'', True) \<mapsto> ''ProxyIO'', (''s'', False) \<mapsto> ''S3''],
     hc_pending = [VerificationRequested ''s'' ''sp'' ''f'' ''xxx'']\<rparr>"
  have "helpers_reach {} {} ?a"
    using helpers_lookup [OF helpers_start, of posix_storage ?p "''u''" "''s''" False] by (simp add: helpers_eval)
  then have "helpers_reach {} ({} \<union> {(''s'', h) | h tf. Inr example_test_file = (Inr tf :: errno + _) \<and>
      verifyStorageTestFile posix_storage [] tf = Inr (Some h) \<and>
      (\<exists>c. modifyStorageTestFile posix_storage h tf (\<lambda>i. CHR ''x'') = Inr c)}) ?b"
    by (rule helpers_test_file [where u = "''u''"]) (simp_all add: helpers_eval upt_rec)
  then have "helpers_reach {} {(''s'', ''S3'')} ?b" by (simp add: helpers_eval)
  from helpers_verdict [OF this, of "''s''" "''sp''" "''f''" "''xxx''" None]
  show ?thesis by (simp add: helpers_eval example_helpers_def)
qed


text \<open>
  C29. The search of \<open>create\<close> for a free handle ends whenever there is one, wherever the counter
  stands and however it wraps; the handle was free, and nothing else in the cache changes.
\<close>

theorem context_create_finds_free_handle:
  assumes "fcc_cache c free = None"
  shows "\<exists>fh c'. context_create c = Some (fh, c') \<and> fcc_cache c fh = None \<and>
    fcc_cache c' = (fcc_cache c)(fh \<mapsto> FileContext_default)"
  using assms
proof (induction "unat (free - m_nextHandle c)" arbitrary: c rule: less_induct)
  case less
  let ?fh = "m_nextHandle c" and ?c = "c\<lparr>m_nextHandle := m_nextHandle c + 1\<rparr>"
  show ?case
  proof (cases "fcc_cache c ?fh = None")
    case True
    then show ?thesis by (subst context_create.simps) (simp add: Let_def)
  next
    case False
    then have "free - ?fh \<noteq> 0" using less.prems by auto
    then have "unat (free - ?fh - 1) < unat (free - ?fh)"
      by (simp add: unat_minus_one unat_gt_0)
    then have "\<exists>fh c'. context_create ?c = Some (fh, c') \<and> fcc_cache ?c fh = None \<and>
        fcc_cache c' = (fcc_cache ?c)(fh \<mapsto> FileContext_default)"
      by (intro less.hyps) (use less.prems in \<open>simp_all add: diff_diff_add [symmetric]\<close>)
    then show ?thesis using False by (subst context_create.simps) (simp add: Let_def)
  qed
qed

theorem context_create_finds_free_handle_witness:
  "\<exists>fh c'. context_create \<lparr>fcc_cache = [18446744073709551615 \<mapsto> FileContext_default], m_nextHandle = 18446744073709551615\<rparr> = Some (fh, c')"
  using context_create_finds_free_handle [of "\<lparr>fcc_cache = [18446744073709551615 \<mapsto> FileContext_default], m_nextHandle = 18446744073709551615\<rparr>" 3]
  by auto

end
