(* ===== verification/OC_FsLogic.thy ===== *)
theory OC_FsLogic
  imports OC_FsSubscriptions OC_HelpersCache OC_MetadataCache OC_Expiration
    "HOL-Library.List_Lexorder" "HOL-Library.Char_ord"
begin

text \<open>
  The file system (\<open>src/fsLogic.cc\<close>): the operations FUSE calls and the handlers of the events the
  provider pushes, over the event manager, the caches of metadata, helpers, file contexts and forced
  proxy access, and the two expiration helpers. Each operation is one step; it returns or throws, and
  the state survives the throw.
\<close>

section \<open>State and environment\<close>

record ('w, 'm, 'h) FsLogic =
  m_eventManager :: "'m EventManager"
  m_fileContextCache :: FileContextCache
  m_helpersCache :: "'h HelpersCache"
  m_metadataCache :: "'m MetadataCache"
  m_fsSubscriptions :: FsSubscriptions
  m_forceProxyIOCache :: ForceProxyIOCache
  m_locExpirationHelper :: "uuid CacheExpirationHelper"
  m_attrExpirationHelper :: "uuid CacheExpirationHelper"
  m_disabledSpaces :: "string list"
  world :: 'w

text \<open>Requests that the provider only acknowledges.\<close>

datatype fuse_request =
    CreateDir uuid string mask
  | ChangeMode uuid mask
  | Truncate uuid off_t
  | UpdateTimes uuid time_point time_point time_point
  | DeleteFile uuid
  | Release uuid string

text \<open>
  What surrounds the client is a parameter, with a state of its own in \<open>world\<close>: the provider, the
  storage helpers, the options, the clock, MD4, and the kernel, which answers the calls that two of
  the handlers make on the mount point. \<open>env_wait\<close> are the ticks that pass until the synchronisation
  timeout, with what other threads do to the metadata cache meanwhile.
\<close>

record ('w, 'm, 'h) fs_env =
  env_icl :: "'m icl"
  env_provider :: "'w \<Rightarrow> 'm provider"
  env_request :: "fuse_request \<Rightarrow> ('w, unit) act"
  env_getNewFileLocation :: "string \<Rightarrow> uuid \<Rightarrow> mask \<Rightarrow> FlagsSet \<Rightarrow> ('w, 'm FileLocation) act"
  env_getFileChildren :: "uuid \<Rightarrow> off_t \<Rightarrow> nat \<Rightarrow> ('w, (uuid \<times> string) list) act"
  env_synchronize :: "uuid \<Rightarrow> interval \<Rightarrow> ('w, string) act"
  env_wait :: "'w \<Rightarrow> (bool \<times> ('m MetadataCache \<Rightarrow> 'm MetadataCache)) list"
  env_helperParams :: "'w \<Rightarrow> storage_id \<Rightarrow> bool \<Rightarrow> HelperParams res"
  env_storage :: "'h storage"
  env_createCTX :: "'h \<Rightarrow> (string \<times> string) list \<Rightarrow> ('w, CTXPtr) act"
  env_open :: "'h \<Rightarrow> CTXPtr \<Rightarrow> file_id \<Rightarrow> mask \<Rightarrow> ('w, int) act"
  env_read :: "'h \<Rightarrow> CTXPtr \<Rightarrow> file_id \<Rightarrow> nat \<Rightarrow> off_t \<Rightarrow> ('w, string) act"
  env_write :: "'h \<Rightarrow> CTXPtr \<Rightarrow> file_id \<Rightarrow> string \<Rightarrow> off_t \<Rightarrow> ('w, nat) act"
  env_flush :: "'h \<Rightarrow> CTXPtr \<Rightarrow> file_id \<Rightarrow> ('w, unit) act"
  env_release :: "'h \<Rightarrow> CTXPtr \<Rightarrow> file_id \<Rightarrow> ('w, unit) act"
  env_needsDataConsistencyCheck :: "'h \<Rightarrow> bool"
  env_proxyio :: bool
  env_mountpoint :: path
  env_now :: "'w \<Rightarrow> time_point"
  env_md4 :: "string \<Rightarrow> string"
  env_remove :: "path \<Rightarrow> ('w, 'm, 'h) FsLogic \<Rightarrow> ('w, 'm, 'h) FsLogic"
  env_rename :: "path \<Rightarrow> path \<Rightarrow> ('w, 'm, 'h) FsLogic \<Rightarrow> ('w, 'm, 'h) FsLogic"

text \<open>Running an operation of one part on the whole state.\<close>

definition on_world :: "('w, 'a) act \<Rightarrow> (('w, 'm, 'h) FsLogic, 'a) act" where
  "on_world m s = (case m (world s) of (r, w) \<Rightarrow> (r, s\<lparr>world := w\<rparr>))"

definition on_meta :: "('w, 'm, 'h) fs_env \<Rightarrow> ('m provider \<Rightarrow> ('m MetadataCache, 'a) act) \<Rightarrow> (('w, 'm, 'h) FsLogic, 'a) act" where
  "on_meta env m s = (case m (env_provider env (world s)) (m_metadataCache s) of (r, c) \<Rightarrow> (r, s\<lparr>m_metadataCache := c\<rparr>))"

definition set_cache :: "('m MetadataCache \<Rightarrow> 'm MetadataCache) \<Rightarrow> (('w, 'm, 'h) FsLogic, unit) act" where
  "set_cache f = modifyA (\<lambda>s. s\<lparr>m_metadataCache := f (m_metadataCache s)\<rparr>)"

definition on_subs :: "('m fs_subs \<Rightarrow> 'm fs_subs) \<Rightarrow> ('w, 'm, 'h) FsLogic \<Rightarrow> ('w, 'm, 'h) FsLogic" where
  "on_subs f s = (case f (m_fsSubscriptions s, m_eventManager s) of
     (b, M) \<Rightarrow> s\<lparr>m_fsSubscriptions := b, m_eventManager := M\<rparr>)"

definition on_force :: "(ForceProxyIOCache \<times> 'm fs_subs \<Rightarrow> ForceProxyIOCache \<times> 'm fs_subs) \<Rightarrow> ('w, 'm, 'h) FsLogic \<Rightarrow> ('w, 'm, 'h) FsLogic" where
  "on_force f s = (case f (m_forceProxyIOCache s, (m_fsSubscriptions s, m_eventManager s)) of
     (c, (b, M)) \<Rightarrow> s\<lparr>m_forceProxyIOCache := c, m_fsSubscriptions := b, m_eventManager := M\<rparr>)"

definition on_events :: "('m EventManager \<Rightarrow> 'm EventManager) \<Rightarrow> ('w, 'm, 'h) FsLogic \<Rightarrow> ('w, 'm, 'h) FsLogic" where
  "on_events f s = s\<lparr>m_eventManager := f (m_eventManager s)\<rparr>"

text \<open>The callbacks of the expiration helpers run on the whole state.\<close>

definition on_loc :: "(uuid CacheExpirationHelper \<times> ('w, 'm, 'h) FsLogic, 'a) act \<Rightarrow> (('w, 'm, 'h) FsLogic, 'a) act" where
  "on_loc m s = (case m (m_locExpirationHelper s, s) of (r, (h, s')) \<Rightarrow> (r, s'\<lparr>m_locExpirationHelper := h\<rparr>))"

definition on_attr :: "(uuid CacheExpirationHelper \<times> ('w, 'm, 'h) FsLogic, 'a) act \<Rightarrow> (('w, 'm, 'h) FsLogic, 'a) act" where
  "on_attr m s = (case m (m_attrExpirationHelper s, s) of (r, (h, s')) \<Rightarrow> (r, s'\<lparr>m_attrExpirationHelper := h\<rparr>))"

definition loc_helper :: "(uuid CacheExpirationHelper, unit) act \<Rightarrow> (('w, 'm, 'h) FsLogic, unit) act" where
  "loc_helper m s = (case m (m_locExpirationHelper s) of (r, h) \<Rightarrow> (r, s\<lparr>m_locExpirationHelper := h\<rparr>))"

definition attr_helper :: "(uuid CacheExpirationHelper, unit) act \<Rightarrow> (('w, 'm, 'h) FsLogic, unit) act" where
  "attr_helper m s = (case m (m_attrExpirationHelper s) of (r, h) \<Rightarrow> (r, s\<lparr>m_attrExpirationHelper := h\<rparr>))"

definition liftA :: "'a res \<Rightarrow> ('s, 'a) act" where
  "liftA r s = (r, s)"

definition request :: "('w, 'm, 'h) fs_env \<Rightarrow> fuse_request \<Rightarrow> (('w, 'm, 'h) FsLogic, unit) act" where
  "request env r = on_world (env_request env r)"

section \<open>Paths\<close>

text \<open>
  \<open>boost::filesystem\<close> paths as FUSE gives them: absolute, no empty or dot components and no
  separator at the end.
\<close>

definition filename :: "path \<Rightarrow> string" where
  "filename p = (if p = ''/'' then p else rev (takeWhile (\<lambda>c. c \<noteq> CHR ''/'') (rev p)))"

definition parent_path :: "path \<Rightarrow> path" where
  "parent_path p =
     (if p = ''/'' then []
      else case rev (dropWhile (\<lambda>c. c \<noteq> CHR ''/'') (rev p)) of
             [] \<Rightarrow> []
           | q \<Rightarrow> if q = ''/'' then q else butlast q)"

definition path_append :: "path \<Rightarrow> path \<Rightarrow> path" where
  "path_append p q =
     (if q = [] then p
      else if hd q = CHR ''/'' \<or> p = [] \<or> last p = CHR ''/'' then p @ q
      else p @ ''/'' @ q)"

section \<open>Construction and the expiration tick\<close>

definition ENOSYS :: errno where "ENOSYS = 38"
definition ENOMEM :: errno where "ENOMEM = 12"
definition EAGAIN :: errno where "EAGAIN = 11"
definition ENOSPC :: errno where "ENOSPC = 28"

definition disableSpaces :: "string list \<Rightarrow> ('w, 'm, 'h) FsLogic \<Rightarrow> ('w, 'm, 'h) FsLogic" where
  "disableSpaces spaces s = s\<lparr>m_disabledSpaces := spaces\<rparr>"

text \<open>The configuration is the subscriptions and the disabled spaces the provider sent.\<close>

definition FsLogic_init :: "'w \<Rightarrow> SubscriptionContainer \<Rightarrow> string list \<Rightarrow> ('w, 'm, 'h) FsLogic" where
  "FsLogic_init w subscriptions spaces =
     disableSpaces spaces (on_subs addQuotaSubscription
       \<lparr>m_eventManager = subscribe_container subscriptions EventManager_init,
        m_fileContextCache = FileContextCache_init, m_helpersCache = HelpersCache_init,
        m_metadataCache = MetadataCache_init, m_fsSubscriptions = FsSubscriptions_init,
        m_forceProxyIOCache = {}, m_locExpirationHelper = CacheExpirationHelper_init 30,
        m_attrExpirationHelper = CacheExpirationHelper_init 30, m_disabledSpaces = [], world = w\<rparr>)"

definition purge_location :: "uuid \<Rightarrow> ('w, 'm, 'h) FsLogic \<Rightarrow> ('w, 'm, 'h) FsLogic" where
  "purge_location u s =
     on_subs (removeFileLocationSubscription u) (s\<lparr>m_metadataCache := remove_uuid u (m_metadataCache s)\<rparr>)"

definition remove_attr_subs :: "uuid \<Rightarrow> 'm fs_subs \<Rightarrow> 'm fs_subs" where
  "remove_attr_subs u =
     removeFileRenamedSubscription u \<circ> removeFileRemovalSubscription u \<circ> removeFileAttrSubscription u"

definition add_attr_subs :: "uuid \<Rightarrow> 'm fs_subs \<Rightarrow> 'm fs_subs" where
  "add_attr_subs u = addFileRenamedSubscription u \<circ> addFileRemovalSubscription u \<circ> addFileAttrSubscription u"

definition purge_attr :: "uuid \<Rightarrow> ('w, 'm, 'h) FsLogic \<Rightarrow> ('w, 'm, 'h) FsLogic" where
  "purge_attr u s = on_subs (remove_attr_subs u) (s\<lparr>m_metadataCache := remove_uuid u (m_metadataCache s)\<rparr>)"

definition cacheExpirationTick :: "('w, 'm, 'h) FsLogic \<Rightarrow> ('w, 'm, 'h) FsLogic" where
  "cacheExpirationTick s =
     (let (h, s1) = tick purge_location (m_locExpirationHelper s, s);
          s2 = s1\<lparr>m_locExpirationHelper := h\<rparr>;
          (g, s3) = tick purge_attr (m_attrExpirationHelper s2, s2)
      in s3\<lparr>m_attrExpirationHelper := g\<rparr>)"

section \<open>Helpers of the operations\<close>

text \<open>Write access to a cached entry through the accessor that holds it.\<close>

definition update_meta :: "uuid \<Rightarrow> ('m Metadata \<Rightarrow> 'm Metadata) \<Rightarrow> 'm MetadataCache \<Rightarrow> 'm MetadataCache" where
  "update_meta u f c = set_meta u (Some (f (meta_or_new u c))) c"

definition cached_attr :: "uuid \<Rightarrow> (('w, 'm, 'h) FsLogic, FileAttr) act" where
  "cached_attr u s =
     (case md_attr (meta_or_new u (m_metadataCache s)) of None \<Rightarrow> (Inl AssertionFailure, s) | Some a \<Rightarrow> (Inr a, s))"

definition update_attr :: "uuid \<Rightarrow> (FileAttr \<Rightarrow> FileAttr) \<Rightarrow> (('w, 'm, 'h) FsLogic, unit) act" where
  "update_attr u f = set_cache (update_meta u (\<lambda>md. md\<lparr>md_attr := map_option f (md_attr md)\<rparr>))"

definition update_location :: "uuid \<Rightarrow> Flag \<Rightarrow> ('m FileLocation \<Rightarrow> 'm FileLocation) \<Rightarrow> (('w, 'm, 'h) FsLogic, unit) act" where
  "update_location u k f = bindA (getA (\<lambda>s. md_locations (meta_or_new u (m_metadataCache s)) k)) (\<lambda>l.
     case l of
       None \<Rightarrow> throwA OutOfRange
     | Some l \<Rightarrow> set_cache (update_meta u (\<lambda>md. md\<lparr>md_locations := (md_locations md)(k \<mapsto> f l)\<rparr>)))"

definition update_context :: "uint64 \<Rightarrow> (FileContext \<Rightarrow> FileContext) \<Rightarrow> ('w, 'm, 'h) FsLogic \<Rightarrow> ('w, 'm, 'h) FsLogic" where
  "update_context fh f s =
     s\<lparr>m_fileContextCache := (m_fileContextCache s)\<lparr>fcc_cache :=
        (fcc_cache (m_fileContextCache s))(fh := map_option f (fcc_cache (m_fileContextCache s) fh))\<rparr>\<rparr>"

definition getHelper :: "('w, 'm, 'h) fs_env \<Rightarrow> uuid \<Rightarrow> storage_id \<Rightarrow> (('w, 'm, 'h) FsLogic, 'h) act" where
  "getHelper env fileUuid storageId s =
     (let forceProxyIO = (env_proxyio env \<or> force_contains fileUuid (m_forceProxyIOCache s)) in
      case helpers_get (env_storage env) (env_helperParams env (world s)) fileUuid storageId forceProxyIO (m_helpersCache s) of
        (r, hc) \<Rightarrow> (r, s\<lparr>m_helpersCache := hc\<rparr>))"

definition cache_attr :: "('w, 'm, 'h) fs_env \<Rightarrow> uuid \<Rightarrow> (('w, 'm, 'h) FsLogic, unit) act" where
  "cache_attr env u = bindA (on_meta env (\<lambda>p. getAttr_uuid p u)) (\<lambda>_. modifyA (on_subs (add_attr_subs u)))"

definition recache_attr :: "('w, 'm, 'h) fs_env \<Rightarrow> uuid \<Rightarrow> uuid \<Rightarrow> (('w, 'm, 'h) FsLogic, unit) act" where
  "recache_attr env old new = bindA (modifyA (on_subs (remove_attr_subs old))) (\<lambda>_. cache_attr env new)"

section \<open>Attributes and directories\<close>

record stat =
  st_atime :: int
  st_mtime :: int
  st_ctime :: int
  st_gid :: "32 word"
  st_uid :: "32 word"
  st_mode :: "32 word"
  st_size :: off_t
  st_nlink :: nat
  st_blocks :: nat

text \<open>\<open>to_time_t\<close> drops the fraction of a second, towards zero.\<close>

definition to_time_t :: "time_point \<Rightarrow> int" where
  "to_time_t t = (if t < 0 then - ((- t) div 1000000000) else t div 1000000000)"

definition S_ISVTX :: "32 word" where "S_ISVTX = 512"
definition S_IFDIR :: "32 word" where "S_IFDIR = 16384"
definition S_IFLNK :: "32 word" where "S_IFLNK = 40960"
definition S_IFREG :: "32 word" where "S_IFREG = 32768"
definition ALLPERMS :: "32 word" where "ALLPERMS = 4095"

definition stat_of :: "FileAttr \<Rightarrow> off_t \<Rightarrow> stat" where
  "stat_of attr sz =
     \<lparr>st_atime = to_time_t (fa_atime attr), st_mtime = to_time_t (fa_mtime attr), st_ctime = to_time_t (fa_ctime attr),
      st_gid = fa_gid attr, st_uid = fa_uid attr,
      st_mode = (case fa_type attr of
                   directory \<Rightarrow> (fa_mode attr OR S_IFDIR) AND NOT S_ISVTX
                 | link \<Rightarrow> fa_mode attr OR S_IFLNK
                 | regular \<Rightarrow> fa_mode attr OR S_IFREG),
      st_size = sz, st_nlink = 1, st_blocks = 0\<rparr>"

definition fs_access :: "path \<Rightarrow> mask \<Rightarrow> (('w, 'm, 'h) FsLogic, int) act" where
  "fs_access path mode = returnA 0"

definition fs_getattr :: "('w, 'm, 'h) fs_env \<Rightarrow> path \<Rightarrow> (('w, 'm, 'h) FsLogic, stat) act" where
  "fs_getattr env path =
     bindA (on_meta env (\<lambda>p. getAttr_path p path)) (\<lambda>attr.
     case fa_size attr of
       None \<Rightarrow> throwA AssertionFailure
     | Some sz \<Rightarrow>
         bindA (on_attr (markInteresting (fa_uuid attr) (cache_attr env (fa_uuid attr)))) (\<lambda>_.
         returnA (stat_of attr sz)))"

definition fs_readlink :: "path \<Rightarrow> (('w, 'm, 'h) FsLogic, string) act" where
  "fs_readlink path = throwA (Errc ENOSYS)"

definition parent_directory :: "('w, 'm, 'h) fs_env \<Rightarrow> path \<Rightarrow> (('w, 'm, 'h) FsLogic, FileAttr) act" where
  "parent_directory env path =
     bindA (on_meta env (\<lambda>p. getAttr_path p (parent_path path))) (\<lambda>parentAttr.
     if fa_type parentAttr \<noteq> directory then throwA (Errc ENOTDIR) else returnA parentAttr)"

definition createFile :: "('w, 'm, 'h) fs_env \<Rightarrow> path \<Rightarrow> mask \<Rightarrow> FlagsSet \<Rightarrow> (('w, 'm, 'h) FsLogic, uuid) act" where
  "createFile env path mode flags =
     bindA (parent_directory env path) (\<lambda>parentAttr.
     bindA (on_world (env_getNewFileLocation env (filename path) (fa_uuid parentAttr) mode flags)) (\<lambda>location.
     bindA (set_cache (map_location path location flags)) (\<lambda>_.
     returnA (fl_uuid location))))"

definition fs_mknod :: "('w, 'm, 'h) fs_env \<Rightarrow> path \<Rightarrow> mask \<Rightarrow> (('w, 'm, 'h) FsLogic, unit) act" where
  "fs_mknod env path mode = bindA (createFile env path mode [RDWR]) (\<lambda>_. returnA ())"

definition fs_mkdir :: "('w, 'm, 'h) fs_env \<Rightarrow> path \<Rightarrow> mask \<Rightarrow> (('w, 'm, 'h) FsLogic, unit) act" where
  "fs_mkdir env path mode =
     bindA (parent_directory env path) (\<lambda>parentAttr.
     request env (CreateDir (fa_uuid parentAttr) (filename path) mode))"

definition removeFile :: "('w, 'm, 'h) fs_env \<Rightarrow> path \<Rightarrow> (('w, 'm, 'h) FsLogic, unit) act" where
  "removeFile env path =
     bindA (on_meta env (\<lambda>p. acc_getAttr_path p path)) (\<lambda>u.
     bindA (getA (\<lambda>s. md_state (meta_or_new u (m_metadataCache s)))) (\<lambda>state.
     bindA (if state \<noteq> removedUpstream then request env (DeleteFile u) else returnA ()) (\<lambda>_.
     bindA (set_cache (update_meta u (\<lambda>md. md\<lparr>md_path := None\<rparr>) \<circ> removePathMapping path)) (\<lambda>_.
     bindA (loc_helper (expire u)) (\<lambda>_.
     attr_helper (expire u))))))"

definition fs_unlink :: "('w, 'm, 'h) fs_env \<Rightarrow> path \<Rightarrow> (('w, 'm, 'h) FsLogic, unit) act" where
  "fs_unlink env path = removeFile env path"

definition fs_rmdir :: "('w, 'm, 'h) fs_env \<Rightarrow> path \<Rightarrow> (('w, 'm, 'h) FsLogic, unit) act" where
  "fs_rmdir env path = removeFile env path"

definition fs_symlink :: "path \<Rightarrow> path \<Rightarrow> (('w, 'm, 'h) FsLogic, unit) act" where
  "fs_symlink target linkPath = throwA (Errc ENOSYS)"

fun rename_interests :: "('w, 'm, 'h) fs_env \<Rightarrow> (uuid \<times> uuid) list \<Rightarrow> (('w, 'm, 'h) FsLogic, unit) act" where
  "rename_interests env [] = returnA ()"
| "rename_interests env ((old, new) # changes) =
     bindA (on_attr (rename_key old new (recache_attr env old new))) (\<lambda>_. rename_interests env changes)"

definition fs_rename :: "('w, 'm, 'h) fs_env \<Rightarrow> path \<Rightarrow> path \<Rightarrow> (('w, 'm, 'h) FsLogic, unit) act" where
  "fs_rename env oldPath newPath =
     bindA (on_meta env (\<lambda>p. rename p oldPath newPath)) (rename_interests env)"

definition fs_chmod :: "('w, 'm, 'h) fs_env \<Rightarrow> path \<Rightarrow> mask \<Rightarrow> (('w, 'm, 'h) FsLogic, unit) act" where
  "fs_chmod env path mode =
     (let normalizedMode = mode AND ALLPERMS in
      bindA (on_meta env (\<lambda>p. acc_getAttr_path p path)) (\<lambda>u.
      bindA (request env (ChangeMode u normalizedMode)) (\<lambda>_.
      bindA (cached_attr u) (\<lambda>_.
      update_attr u (fa_mode_update (\<lambda>_. normalizedMode))))))"

definition fs_chown :: "path \<Rightarrow> mask \<Rightarrow> mask \<Rightarrow> (('w, 'm, 'h) FsLogic, unit) act" where
  "fs_chown path uid gid = throwA (Errc ENOSYS)"

definition fs_truncate :: "('w, 'm, 'h) fs_env \<Rightarrow> path \<Rightarrow> off_t \<Rightarrow> (('w, 'm, 'h) FsLogic, unit) act" where
  "fs_truncate env path newSize =
     bindA (on_meta env (\<lambda>p. acc_getAttr_path p path)) (\<lambda>u.
     bindA (cached_attr u) (\<lambda>attr.
     bindA (request env (Truncate (fa_uuid attr) newSize)) (\<lambda>_.
     bindA (update_attr u (fa_size_update (\<lambda>_. Some newSize))) (\<lambda>_.
     bindA (on_meta env (\<lambda>p. acc_getLocation p (fa_uuid attr) [WRONLY])) (\<lambda>_.
     bindA (update_location (fa_uuid attr) (filterFlagsForLocation [WRONLY])
              (fl_blocks_update (\<lambda>b. icl_meet (env_icl env) b (0, newSize)))) (\<lambda>_.
     modifyA (on_events (emitTruncateEvent (env_icl env) newSize (fa_uuid attr)))))))))"

text \<open>The last assignment of the source writes the change time into \<open>mtime\<close>.\<close>

definition fs_utime :: "('w, 'm, 'h) fs_env \<Rightarrow> path \<Rightarrow> int \<Rightarrow> int \<Rightarrow> (('w, 'm, 'h) FsLogic, unit) act" where
  "fs_utime env path actime modtime =
     bindA (on_meta env (\<lambda>p. acc_getAttr_path p path)) (\<lambda>u.
     bindA (getA (\<lambda>s. env_now env (world s))) (\<lambda>now.
     let atime = (if actime \<noteq> 0 then from_time_t actime else now);
         mtime = (if modtime \<noteq> 0 then from_time_t modtime else now);
         ctime = now
     in bindA (request env (UpdateTimes u atime mtime ctime)) (\<lambda>_.
        bindA (cached_attr u) (\<lambda>_.
        update_attr u (\<lambda>attr. attr\<lparr>fa_atime := atime, fa_mtime := mtime, fa_mtime := ctime\<rparr>)))))"

definition fs_statfs :: "nat \<Rightarrow> path \<Rightarrow> (('w, 'm, 'h) FsLogic, nat) act" where
  "fs_statfs fsid path = returnA fsid"

text \<open>
  The entries that \<open>filler\<close> was given so far; \<open>full\<close> tells when it refuses one. The directory
  listing goes on until the provider answers less than a full chunk.
\<close>

definition putEntry :: "(string list \<Rightarrow> bool) \<Rightarrow> string \<Rightarrow> string list \<Rightarrow> string list res" where
  "putEntry full name entries = (if full entries then Inl (Errc ENOMEM) else Inr (entries @ [name]))"

fun put_children :: "(string list \<Rightarrow> bool) \<Rightarrow> path \<Rightarrow> (uuid \<times> string) list \<Rightarrow> string list \<Rightarrow>
    ('m MetadataCache, string list) act" where
  "put_children full path [] entries c = (Inr entries, c)"
| "put_children full path ((u, name) # children) entries c =
     (let c1 = map_uuid (path_append path name) u c in
      case putEntry full name entries of
        Inl x \<Rightarrow> (Inl x, c1)
      | Inr entries' \<Rightarrow> put_children full path children entries' c1)"

definition chunkSize :: nat where "chunkSize = 1000"

definition readdir_chunk :: "('w, 'm, 'h) fs_env \<Rightarrow> (string list \<Rightarrow> bool) \<Rightarrow> path \<Rightarrow> uuid \<Rightarrow> off_t \<Rightarrow> string list \<Rightarrow>
    (('w, 'm, 'h) FsLogic, bool \<times> string list) act" where
  "readdir_chunk env full path u currentOffset entries =
     bindA (on_world (env_getFileChildren env u currentOffset chunkSize)) (\<lambda>children.
     bindA (on_meta env (\<lambda>_. put_children full path children entries)) (\<lambda>entries'.
     returnA (length children < chunkSize, entries')))"

partial_function (option) readdir_loop :: "('w, 'm, 'h) fs_env \<Rightarrow> (string list \<Rightarrow> bool) \<Rightarrow> path \<Rightarrow> uuid \<Rightarrow> off_t \<Rightarrow>
    string list \<Rightarrow> ('w, 'm, 'h) FsLogic \<Rightarrow> (string list res \<times> ('w, 'm, 'h) FsLogic) option" where
  "readdir_loop env full path u currentOffset entries s =
     (case readdir_chunk env full path u currentOffset entries s of
        (Inl x, s') \<Rightarrow> Some (Inl x, s')
      | (Inr (done, entries'), s') \<Rightarrow>
          if done then Some (Inr entries', s')
          else readdir_loop env full path u (currentOffset + int chunkSize) entries' s')"

definition readdir_start :: "('w, 'm, 'h) fs_env \<Rightarrow> (string list \<Rightarrow> bool) \<Rightarrow> path \<Rightarrow> (('w, 'm, 'h) FsLogic, uuid \<times> string list) act" where
  "readdir_start env full path =
     bindA (on_meta env (\<lambda>p. getAttr_path p path)) (\<lambda>attr.
     if fa_type attr \<noteq> directory then throwA (Errc ENOTDIR)
     else
       bindA (liftA (putEntry full ''.'' [])) (\<lambda>es.
       bindA (liftA (putEntry full ''..'' es)) (\<lambda>es.
       returnA (fa_uuid attr, es))))"

definition fs_readdir :: "('w, 'm, 'h) fs_env \<Rightarrow> (string list \<Rightarrow> bool) \<Rightarrow> path \<Rightarrow> ('w, 'm, 'h) FsLogic \<Rightarrow>
    (string list res \<times> ('w, 'm, 'h) FsLogic) option" where
  "fs_readdir env full path s =
     (case readdir_start env full path s of
        (Inl x, s') \<Rightarrow> Some (Inl x, s')
      | (Inr (u, es), s') \<Rightarrow> readdir_loop env full path u 0 es s')"

section \<open>Open files\<close>

record fuse_file_info =
  fi_flags :: mask
  fi_fh :: uint64
  fi_direct_io :: bool

definition O_CREAT :: mask where "O_CREAT = 64"
definition O_APPEND :: mask where "O_APPEND = 1024"

definition flags_of :: "mask \<Rightarrow> (('w, 'm, 'h) FsLogic, FlagsSet) act" where
  "flags_of flags = liftA (maskToFlags flags)"

definition context_new :: "(('w, 'm, 'h) FsLogic, uint64) act" where
  "context_new s =
     (case context_create (m_fileContextCache s) of
        None \<Rightarrow> (Inl Deadlock, s)
      | Some (fh, c) \<Rightarrow> (Inr fh, s\<lparr>m_fileContextCache := c\<rparr>))"

definition cache_location :: "('w, 'm, 'h) fs_env \<Rightarrow> uuid \<Rightarrow> mask \<Rightarrow> (('w, 'm, 'h) FsLogic, unit) act" where
  "cache_location env u flags =
     bindA (flags_of flags) (\<lambda>flagsSet.
     bindA (on_meta env (\<lambda>p. getLocation p u flagsSet)) (\<lambda>_.
     modifyA (on_subs (addFileLocationSubscription u))))"

definition openFile :: "('w, 'm, 'h) fs_env \<Rightarrow> uuid \<Rightarrow> fuse_file_info \<Rightarrow> (('w, 'm, 'h) FsLogic, fuse_file_info) act" where
  "openFile env fileUuid fileInfo =
     bindA context_new (\<lambda>fh.
     bindA (flags_of (fi_flags fileInfo)) (\<lambda>flagsSet.
     bindA (on_meta env (\<lambda>p. acc_getLocation p fileUuid flagsSet)) (\<lambda>_.
     bindA (getA (\<lambda>s. md_locations (meta_or_new fileUuid (m_metadataCache s)) (filterFlagsForLocation flagsSet))) (\<lambda>l.
     case l of
       None \<Rightarrow> throwA OutOfRange
     | Some location \<Rightarrow>
         bindA (modifyA (update_context fh (\<lambda>_.
           \<lparr>fc_uuid = fileUuid, fc_flags = fi_flags fileInfo AND NOT O_CREAT AND NOT O_APPEND,
            fc_handleId = fl_handleId location, fc_helperCtxMap = []\<rparr>))) (\<lambda>_.
         bindA (update_location fileUuid (filterFlagsForLocation flagsSet) (fl_handleId_update (\<lambda>_. None))) (\<lambda>_.
         bindA (modifyA (on_events (emitFileOpenedEvent fileUuid))) (\<lambda>_.
         bindA (on_loc (pin fileUuid (cache_location env fileUuid (fi_flags fileInfo)))) (\<lambda>_.
         bindA (on_attr (pin fileUuid (cache_attr env fileUuid))) (\<lambda>_.
         returnA (fileInfo\<lparr>fi_direct_io := True, fi_fh := fh\<rparr>))))))))))"

definition fs_open :: "('w, 'm, 'h) fs_env \<Rightarrow> path \<Rightarrow> fuse_file_info \<Rightarrow> (('w, 'm, 'h) FsLogic, fuse_file_info) act" where
  "fs_open env path fileInfo =
     bindA (on_meta env (\<lambda>p. getAttr_path p path)) (\<lambda>attr.
     bindA (flags_of (fi_flags fileInfo)) (\<lambda>flagsSet.
     bindA (on_meta env (\<lambda>p. getLocation p (fa_uuid attr) flagsSet)) (\<lambda>location.
     bindA (getHelper env (fa_uuid attr) (fl_storageId location)) (\<lambda>_.
     openFile env (fl_uuid location) fileInfo))))"

definition fs_create :: "('w, 'm, 'h) fs_env \<Rightarrow> path \<Rightarrow> mask \<Rightarrow> fuse_file_info \<Rightarrow> (('w, 'm, 'h) FsLogic, fuse_file_info) act" where
  "fs_create env path mode fileInfo =
     bindA (flags_of (fi_flags fileInfo)) (\<lambda>flagsSet.
     bindA (createFile env path mode flagsSet) (\<lambda>fileUuid.
     openFile env fileUuid fileInfo))"

definition makeParameters :: "FileContext \<Rightarrow> (string \<times> string) list" where
  "makeParameters fileCtx =
     (''file_uuid'', fc_uuid fileCtx) #
     (case fc_handleId fileCtx of None \<Rightarrow> [] | Some handle \<Rightarrow> [(''handle_id'', handle)])"

definition put_ctx :: "uint64 \<Rightarrow> storage_id \<times> file_id \<Rightarrow> CTXPtr \<Rightarrow> (('w, 'm, 'h) FsLogic, unit) act" where
  "put_ctx fh key ctx = modifyA (update_context fh (\<lambda>fileCtx.
     fileCtx\<lparr>fc_helperCtxMap := (key, ctx) # al_erase key (fc_helperCtxMap fileCtx)\<rparr>))"

text \<open>The function \<open>openFile\<close> of the unnamed namespace.\<close>

definition open_ctx :: "('w, 'm, 'h) fs_env \<Rightarrow> uint64 \<Rightarrow> FileContext \<Rightarrow> 'h \<Rightarrow> storage_id \<times> file_id \<Rightarrow> (('w, 'm, 'h) FsLogic, CTXPtr) act" where
  "open_ctx env fh fileCtx helper key =
     bindA (on_world (env_createCTX env helper (makeParameters fileCtx))) (\<lambda>ctx.
     bindA (put_ctx fh key ctx) (\<lambda>_.
     bindA (on_world (env_open env helper ctx (snd key) (fc_flags fileCtx))) (\<lambda>_.
     returnA ctx)))"

definition getHelperCtx :: "('w, 'm, 'h) fs_env \<Rightarrow> uint64 \<Rightarrow> 'h \<Rightarrow> storage_id \<Rightarrow> file_id \<Rightarrow> (('w, 'm, 'h) FsLogic, CTXPtr) act" where
  "getHelperCtx env fh helper storageId fileId =
     bindA (getA m_fileContextCache) (\<lambda>contexts.
     bindA (liftA (context_get fh contexts)) (\<lambda>fileCtx.
     case map_of (fc_helperCtxMap fileCtx) (storageId, fileId) of
       Some ctx \<Rightarrow> returnA ctx
     | None \<Rightarrow>
         bindA (put_ctx fh (storageId, fileId) None) (\<lambda>_.
         open_ctx env fh fileCtx helper (storageId, fileId))))"

subsection \<open>Reading\<close>

definition syncAndFetchChecksum :: "('w, 'm, 'h) fs_env \<Rightarrow> uuid \<Rightarrow> interval \<Rightarrow> (('w, 'm, 'h) FsLogic, string) act" where
  "syncAndFetchChecksum env u rng = on_world (env_synchronize env u rng)"

definition waitForBlockSynchronization :: "('w, 'm, 'h) fs_env \<Rightarrow> uuid \<Rightarrow> interval \<Rightarrow> FlagsSet \<Rightarrow> (('w, 'm, 'h) FsLogic, string) act" where
  "waitForBlockSynchronization env u rng flags =
     bindA (syncAndFetchChecksum env u rng) (\<lambda>checksum.
     bindA (getA (\<lambda>s. env_wait env (world s))) (\<lambda>ticks.
     bindA (on_meta env (\<lambda>p. waitForNewLocation (env_icl env) p u rng ticks flags)) (\<lambda>arrived.
     if \<not> arrived then throwA (Errc EAGAIN) else returnA checksum)))"

definition computeHash :: "('w, 'm, 'h) fs_env \<Rightarrow> string \<Rightarrow> string" where
  "computeHash env buf = env_md4 env buf"

definition dataCorrupted :: "('w, 'm, 'h) fs_env \<Rightarrow> uuid \<Rightarrow> string \<Rightarrow> string \<Rightarrow> interval \<Rightarrow> interval \<Rightarrow> (('w, 'm, 'h) FsLogic, bool) act" where
  "dataCorrupted env u buf serverChecksum availableRange wantedRange =
     bindA (if availableRange = wantedRange then returnA (computeHash env buf)
            else syncAndFetchChecksum env u availableRange) (\<lambda>checksum.
     returnA (serverChecksum \<noteq> checksum))"

text \<open>
  \<open>read\<close> up to its try block: what it is going to read, or nothing when the range is empty. The end
  iterator of the block map is a null pointer.
\<close>

record 'h read_job =
  rj_uuid :: uuid
  rj_helper :: 'h
  rj_ctx :: CTXPtr
  rj_block :: FileBlock
  rj_available :: interval
  rj_wanted :: interval
  rj_checksum :: "string option"
  rj_size :: nat

definition find_block :: "('w, 'm, 'h) fs_env \<Rightarrow> uuid \<Rightarrow> 'm FileLocation \<Rightarrow> FlagsSet \<Rightarrow> off_t \<Rightarrow> interval \<Rightarrow>
    (('w, 'm, 'h) FsLogic, segment \<times> string option) act" where
  "find_block env u location flags offset wantedRange =
     (case icl_find (env_icl env) (fl_blocks location) offset of
        Some seg \<Rightarrow> returnA (seg, None)
      | None \<Rightarrow>
          bindA (waitForBlockSynchronization env u wantedRange flags) (\<lambda>serverChecksum.
          bindA (on_meta env (\<lambda>p. getLocation p u flags)) (\<lambda>location'.
          case icl_find (env_icl env) (fl_blocks location') offset of
            None \<Rightarrow> throwA NullDereference
          | Some seg \<Rightarrow> returnA (seg, Some serverChecksum))))"

definition read_prepare :: "('w, 'm, 'h) fs_env \<Rightarrow> nat \<Rightarrow> off_t \<Rightarrow> fuse_file_info \<Rightarrow> (('w, 'm, 'h) FsLogic, 'h read_job option) act" where
  "read_prepare env bufSize offset fileInfo =
     bindA (getA m_fileContextCache) (\<lambda>contexts.
     bindA (liftA (context_get (fi_fh fileInfo) contexts)) (\<lambda>context.
     bindA (on_meta env (\<lambda>p. getAttr_uuid p (fc_uuid context))) (\<lambda>attr.
     bindA (flags_of (fi_flags fileInfo)) (\<lambda>flags.
     bindA (on_meta env (\<lambda>p. getLocation p (fc_uuid context) flags)) (\<lambda>location.
     case fa_size attr of
       None \<Rightarrow> throwA AssertionFailure
     | Some fileSize \<Rightarrow>
         (let wantedRange = interval_meet (offset, offset + int bufSize) (0, fileSize) in
          if interval_size wantedRange = 0 then returnA None
          else
            bindA (find_block env (fc_uuid context) location flags offset wantedRange) (\<lambda>((blockRange, fileBlock), serverChecksum).
            let availableRange = interval_meet blockRange wantedRange in
            bindA (getHelper env (fc_uuid context) (fb_storageId fileBlock)) (\<lambda>helper.
            bindA (getHelperCtx env (fi_fh fileInfo) helper (fb_storageId fileBlock) (fb_fileId fileBlock)) (\<lambda>helperCtx.
            returnA (Some \<lparr>rj_uuid = fc_uuid context, rj_helper = helper, rj_ctx = helperCtx, rj_block = fileBlock,
              rj_available = availableRange, rj_wanted = wantedRange, rj_checksum = serverChecksum,
              rj_size = min bufSize (nat (interval_size availableRange))\<rparr>))))))))))"

datatype read_outcome = Bytes string | Corrupted

definition read_try :: "('w, 'm, 'h) fs_env \<Rightarrow> off_t \<Rightarrow> 'h read_job \<Rightarrow> (('w, 'm, 'h) FsLogic, read_outcome) act" where
  "read_try env offset j =
     (let fileId = fb_fileId (rj_block j) in
      bindA (if rj_checksum j \<noteq> None then on_world (env_flush env (rj_helper j) (rj_ctx j) fileId) else returnA ()) (\<lambda>_.
      bindA (on_world (env_read env (rj_helper j) (rj_ctx j) fileId (rj_size j) offset)) (\<lambda>readBuffer.
      bindA (case rj_checksum j of
               Some serverChecksum \<Rightarrow>
                 if env_needsDataConsistencyCheck env (rj_helper j)
                 then dataCorrupted env (rj_uuid j) readBuffer serverChecksum (rj_available j) (rj_wanted j)
                 else returnA False
             | None \<Rightarrow> returnA False) (\<lambda>corrupted.
      if corrupted then bindA (on_world (env_release env (rj_helper j) (rj_ctx j) fileId)) (\<lambda>_. returnA Corrupted)
      else
        bindA (modifyA (on_events (emitReadEvent (env_icl env) offset (of_nat (length readBuffer)) (rj_uuid j)))) (\<lambda>_.
        returnA (Bytes readBuffer))))))"

text \<open>Whether the handler of the try block starts over through the provider.\<close>

definition falls_back :: "exn \<Rightarrow> uuid \<Rightarrow> ('w, 'm, 'h) FsLogic \<Rightarrow> bool" where
  "falls_back x u s \<longleftrightarrow> (x = SystemError EPERM \<or> x = SystemError EACCES) \<and> \<not> force_contains u (m_forceProxyIOCache s)"

partial_function (option) fs_read :: "('w, 'm, 'h) fs_env \<Rightarrow> nat \<Rightarrow> off_t \<Rightarrow> fuse_file_info \<Rightarrow> ('w, 'm, 'h) FsLogic \<Rightarrow>
    (string res \<times> ('w, 'm, 'h) FsLogic) option" where
  "fs_read env bufSize offset fileInfo s =
     (case read_prepare env bufSize offset fileInfo s of
        (Inl x, s1) \<Rightarrow> Some (Inl x, s1)
      | (Inr None, s1) \<Rightarrow> Some (Inr [], s1)
      | (Inr (Some j), s1) \<Rightarrow>
          (case read_try env offset j s1 of
             (Inr (Bytes data), s2) \<Rightarrow> Some (Inr data, s2)
           | (Inl x, s2) \<Rightarrow>
               if falls_back x (rj_uuid j) s2
               then fs_read env (rj_size j) offset fileInfo (on_force (force_insert (rj_uuid j)) s2)
               else Some (Inl x, s2)
           | (Inr Corrupted, s2) \<Rightarrow>
               Option.bind (fs_read env (rj_size j) offset fileInfo s2) (\<lambda>r.
                 case r of
                   (Inr data, s3) \<Rightarrow> Some (Inr data, s3)
                 | (Inl x, s3) \<Rightarrow>
                     if falls_back x (rj_uuid j) s3
                     then fs_read env (rj_size j) offset fileInfo (on_force (force_insert (rj_uuid j)) s3)
                     else Some (Inl x, s3))))"

subsection \<open>Writing\<close>

definition findWriteLocation :: "'m icl \<Rightarrow> 'm FileLocation \<Rightarrow> off_t \<Rightarrow> string \<Rightarrow> FileBlock \<times> string" where
  "findWriteLocation I fileLocation offset buf =
     (let wantedRange = (offset, offset + int (length buf));
          defaultBlock = \<lparr>fb_storageId = fl_storageId fileLocation, fb_fileId = fl_fileId fileLocation\<rparr>
      in case icl_lower_bound I (fl_blocks fileLocation) offset of
           None \<Rightarrow> (defaultBlock, buf)
         | Some (blockRange, fileBlock) \<Rightarrow>
             if interval_mem offset blockRange
             then (fileBlock, take (nat (interval_size (interval_meet blockRange wantedRange))) buf)
             else
               let blankRange = (offset, fst blockRange)
               in (defaultBlock, take (nat (interval_size (interval_meet blankRange wantedRange))) buf))"

text \<open>\<open>write\<close> up to its try block; \<open>None\<close> stands for the answer that the space is disabled.\<close>

record ('m, 'h) write_job =
  wj_uuid :: uuid
  wj_helper :: 'h
  wj_ctx :: CTXPtr
  wj_location :: "'m FileLocation"
  wj_block :: FileBlock
  wj_flags :: FlagsSet
  wj_buf :: string

definition write_prepare :: "('w, 'm, 'h) fs_env \<Rightarrow> string \<Rightarrow> off_t \<Rightarrow> fuse_file_info \<Rightarrow>
    (('w, 'm, 'h) FsLogic, ('m, 'h) write_job option) act" where
  "write_prepare env buf offset fileInfo =
     bindA (getA m_fileContextCache) (\<lambda>contexts.
     bindA (liftA (context_get (fi_fh fileInfo) contexts)) (\<lambda>context.
     bindA (on_meta env (\<lambda>p. getAttr_uuid p (fc_uuid context))) (\<lambda>_.
     bindA (flags_of (fi_flags fileInfo)) (\<lambda>flags.
     bindA (on_meta env (\<lambda>p. getLocation p (fc_uuid context) flags)) (\<lambda>location.
     bindA (getA m_disabledSpaces) (\<lambda>disabledSpaces.
     if fl_spaceId location \<in> set disabledSpaces then returnA None
     else
       let (fileBlock, buf') = findWriteLocation (env_icl env) location offset buf in
       bindA (getHelper env (fc_uuid context) (fl_storageId location)) (\<lambda>helper.
       bindA (getHelperCtx env (fi_fh fileInfo) helper (fb_storageId fileBlock) (fb_fileId fileBlock)) (\<lambda>helperCtx.
       returnA (Some \<lparr>wj_uuid = fc_uuid context, wj_helper = helper, wj_ctx = helperCtx, wj_location = location,
         wj_block = fileBlock, wj_flags = flags, wj_buf = buf'\<rparr>)))))))))"

definition write_finish :: "('w, 'm, 'h) fs_env \<Rightarrow> off_t \<Rightarrow> ('m, 'h) write_job \<Rightarrow> nat \<Rightarrow> (('w, 'm, 'h) FsLogic, int) act" where
  "write_finish env offset j bytesWritten =
     bindA (modifyA (on_events (emitWriteEvent (env_icl env) offset (of_nat bytesWritten) (wj_uuid j)
              (fl_storageId (wj_location j)) (fb_fileId (wj_block j))))) (\<lambda>_.
     bindA (on_meta env (\<lambda>p. acc_getAttr_uuid p (wj_uuid j))) (\<lambda>_.
     bindA (cached_attr (wj_uuid j)) (\<lambda>attr.
     case fa_size attr of
       None \<Rightarrow> throwA AssertionFailure
     | Some sz \<Rightarrow>
         bindA (update_attr (wj_uuid j) (fa_size_update (\<lambda>_. Some (max sz (offset + int bytesWritten))))) (\<lambda>_.
         bindA (on_meta env (\<lambda>p. acc_getLocation p (wj_uuid j) (wj_flags j))) (\<lambda>_.
         bindA (update_location (wj_uuid j) (filterFlagsForLocation (wj_flags j))
                  (fl_blocks_update (\<lambda>b. icl_add (env_icl env) b ((offset, offset + int bytesWritten), wj_block j)))) (\<lambda>_.
         returnA (int bytesWritten)))))))"

partial_function (option) fs_write :: "('w, 'm, 'h) fs_env \<Rightarrow> string \<Rightarrow> off_t \<Rightarrow> fuse_file_info \<Rightarrow> ('w, 'm, 'h) FsLogic \<Rightarrow>
    (int res \<times> ('w, 'm, 'h) FsLogic) option" where
  "fs_write env buf offset fileInfo s =
     (if buf = [] then Some (Inr 0, s)
      else
        case write_prepare env buf offset fileInfo s of
          (Inl x, s1) \<Rightarrow> Some (Inl x, s1)
        | (Inr None, s1) \<Rightarrow> Some (Inr (- ENOSPC), s1)
        | (Inr (Some j), s1) \<Rightarrow>
            (case on_world (env_write env (wj_helper j) (wj_ctx j) (fb_fileId (wj_block j)) (wj_buf j) offset) s1 of
               (Inr bytesWritten, s2) \<Rightarrow> Some (write_finish env offset j bytesWritten s2)
             | (Inl x, s2) \<Rightarrow>
                 if falls_back x (wj_uuid j) s2
                 then fs_write env (wj_buf j) offset fileInfo (on_force (force_insert (wj_uuid j)) s2)
                 else Some (Inl x, s2)))"

subsection \<open>Release and the calls without effect\<close>

fun release_contexts :: "('w, 'm, 'h) fs_env \<Rightarrow> uuid \<Rightarrow> ((storage_id \<times> file_id) \<times> CTXPtr) list \<Rightarrow> exn option \<Rightarrow>
    (('w, 'm, 'h) FsLogic, exn option) act" where
  "release_contexts env u [] lastReleaseException = returnA lastReleaseException"
| "release_contexts env u (((storageId, fileId), ctx) # ctxs) lastReleaseException =
     bindA (getHelper env u storageId) (\<lambda>helper.
     bindA (catchA (bindA (on_world (env_release env helper ctx fileId)) (\<lambda>_. returnA lastReleaseException))
              (\<lambda>x. case x of SystemError _ \<Rightarrow> returnA (Some x) | _ \<Rightarrow> throwA x))
       (release_contexts env u ctxs))"

definition fs_release :: "('w, 'm, 'h) fs_env \<Rightarrow> path \<Rightarrow> fuse_file_info \<Rightarrow> (('w, 'm, 'h) FsLogic, unit) act" where
  "fs_release env path fileInfo =
     bindA (on_meta env (\<lambda>p. getAttr_path p path)) (\<lambda>attr.
     bindA (loc_helper (unpin (fa_uuid attr))) (\<lambda>_.
     bindA (attr_helper (unpin (fa_uuid attr))) (\<lambda>_.
     bindA (getA m_fileContextCache) (\<lambda>contexts.
     bindA (liftA (context_get (fi_fh fileInfo) contexts)) (\<lambda>context.
     bindA (release_contexts env (fa_uuid attr) (fc_helperCtxMap context) None) (\<lambda>lastReleaseException.
     bindA (case fc_handleId context of
              None \<Rightarrow> returnA ()
            | Some handle \<Rightarrow>
                bindA (request env (Release (fa_uuid attr) handle)) (\<lambda>_.
                modifyA (update_context (fi_fh fileInfo) (fc_handleId_update (\<lambda>_. None))))) (\<lambda>_.
     bindA (modifyA (update_context (fi_fh fileInfo) (fc_helperCtxMap_update (\<lambda>_. [])))) (\<lambda>_.
     bindA (modifyA (on_events (emitFileReleasedEvent (fa_uuid attr)))) (\<lambda>_.
     case lastReleaseException of None \<Rightarrow> returnA () | Some x \<Rightarrow> throwA x)))))))))"

definition fs_flush :: "path \<Rightarrow> (('w, 'm, 'h) FsLogic, unit) act" where
  "fs_flush path = returnA ()"

definition fs_fsync :: "path \<Rightarrow> (('w, 'm, 'h) FsLogic, unit) act" where
  "fs_fsync path = throwA (Errc ENOSYS)"

definition fs_opendir :: "path \<Rightarrow> (('w, 'm, 'h) FsLogic, unit) act" where
  "fs_opendir path = returnA ()"

definition fs_releasedir :: "path \<Rightarrow> (('w, 'm, 'h) FsLogic, unit) act" where
  "fs_releasedir path = returnA ()"

definition fs_fsyncdir :: "path \<Rightarrow> (('w, 'm, 'h) FsLogic, unit) act" where
  "fs_fsyncdir path = returnA ()"

section \<open>Handlers of provider events\<close>

definition update_attributes :: "'m icl \<Rightarrow> FileAttr \<Rightarrow> 'm MetadataCache \<Rightarrow> 'm MetadataCache" where
  "update_attributes I newAttr c =
     (case m_metaCache c (fa_uuid newAttr) of
        None \<Rightarrow> c
      | Some md \<Rightarrow>
          (case md_attr md of
             None \<Rightarrow> c
           | Some attr \<Rightarrow>
               (let locations =
                      (case (fa_size newAttr, fa_size attr) of
                         (Some n, Some old) \<Rightarrow>
                           if n < old
                           then (\<lambda>k. map_option (fl_blocks_update (\<lambda>b. icl_meet I b (0, n))) (md_locations md k))
                           else md_locations md
                       | _ \<Rightarrow> md_locations md);
                    attr' = attr\<lparr>fa_atime := max (fa_atime attr) (fa_atime newAttr),
                                 fa_ctime := max (fa_ctime attr) (fa_ctime newAttr),
                                 fa_mtime := max (fa_mtime attr) (fa_mtime newAttr),
                                 fa_gid := fa_gid newAttr, fa_mode := fa_mode newAttr,
                                 fa_size := (if fa_size newAttr \<noteq> None then fa_size newAttr else fa_size attr),
                                 fa_uid := fa_uid newAttr\<rparr>
                in set_meta (fa_uuid newAttr) (Some (md\<lparr>md_attr := Some attr', md_locations := locations\<rparr>)) c)))"

definition fileAttrHandler :: "'m icl \<Rightarrow> FileAttr UpdateEvent list \<Rightarrow> (('w, 'm, 'h) FsLogic, unit) act" where
  "fileAttrHandler I events = set_cache (fold (\<lambda>e. update_attributes I (ue_wrapped e)) events)"

definition update_locations :: "'m FileLocation \<Rightarrow> 'm MetadataCache \<Rightarrow> 'm MetadataCache" where
  "update_locations newLocation c =
     (case m_metaCache c (fl_uuid newLocation) of
        None \<Rightarrow> c
      | Some md \<Rightarrow>
          if md_attr md = None then c
          else
            set_meta (fl_uuid newLocation) (Some (md\<lparr>md_locations := (\<lambda>k.
              map_option (\<lambda>l. l\<lparr>fl_storageId := fl_storageId newLocation, fl_fileId := fl_fileId newLocation,
                               fl_blocks := fl_blocks newLocation\<rparr>) (md_locations md k))\<rparr>)) c)"

definition fileLocationHandler :: "'m FileLocation UpdateEvent list \<Rightarrow> (('w, 'm, 'h) FsLogic, unit) act" where
  "fileLocationHandler events = set_cache (fold (\<lambda>e. update_locations (ue_wrapped e)) events)"

definition permissionChangedHandler :: "PermissionChangedEvent list \<Rightarrow> (('w, 'm, 'h) FsLogic, unit) act" where
  "permissionChangedHandler events = modifyA (fold (\<lambda>e. on_force (force_erase (pce_fileUuid e))) events)"

definition file_removed :: "('w, 'm, 'h) fs_env \<Rightarrow> uuid \<Rightarrow> (('w, 'm, 'h) FsLogic, unit) act" where
  "file_removed env u =
     bindA (getA (\<lambda>s. m_metaCache (m_metadataCache s) u)) (\<lambda>entry.
     case entry of
       None \<Rightarrow> returnA ()
     | Some md \<Rightarrow>
         bindA (set_cache (set_meta u (Some (md\<lparr>md_state := removedUpstream\<rparr>)))) (\<lambda>_.
         bindA (case md_path md of
                  None \<Rightarrow> returnA ()
                | Some path \<Rightarrow> modifyA (env_remove env (path_append (env_mountpoint env) path))) (\<lambda>_.
         bindA (loc_helper (expire u)) (\<lambda>_.
         attr_helper (expire u)))))"

fun fileRemovalHandler :: "('w, 'm, 'h) fs_env \<Rightarrow> FileRemovalEvent list \<Rightarrow> (('w, 'm, 'h) FsLogic, unit) act" where
  "fileRemovalHandler env [] = returnA ()"
| "fileRemovalHandler env (event # events) =
     bindA (file_removed env (fe_fileUuid event)) (\<lambda>_. fileRemovalHandler env events)"

definition quotaExeededHandler :: "QuotaExeededEvent list \<Rightarrow> (('w, 'm, 'h) FsLogic, unit) act" where
  "quotaExeededHandler events = modifyA (if events \<noteq> [] then disableSpaces (qe_spaces (last events)) else id)"

definition entry_renamed :: "('w, 'm, 'h) fs_env \<Rightarrow> FileRenamedEntry \<Rightarrow> (('w, 'm, 'h) FsLogic, unit) act" where
  "entry_renamed env e =
     bindA (on_meta env (\<lambda>_. remapFile (fre_oldUuid e) (fre_newUuid e) (fre_newPath e))) (\<lambda>_.
     on_attr (rename_key (fre_oldUuid e) (fre_newUuid e) (recache_attr env (fre_oldUuid e) (fre_newUuid e))))"

fun entries_renamed :: "('w, 'm, 'h) fs_env \<Rightarrow> FileRenamedEntry list \<Rightarrow> (('w, 'm, 'h) FsLogic, unit) act" where
  "entries_renamed env [] = returnA ()"
| "entries_renamed env (e # es) = bindA (entry_renamed env e) (\<lambda>_. entries_renamed env es)"

definition file_renamed :: "('w, 'm, 'h) fs_env \<Rightarrow> FileRenamedEvent \<Rightarrow> (('w, 'm, 'h) FsLogic, unit) act" where
  "file_renamed env event =
     (let topEntry = fne_topEntry event in
      bindA (getA (\<lambda>s. m_metaCache (m_metadataCache s) (fre_oldUuid topEntry))) (\<lambda>entry.
      case entry of
        None \<Rightarrow> returnA ()
      | Some md \<Rightarrow>
          bindA (set_cache (set_meta (fre_oldUuid topEntry) (Some (md\<lparr>md_state := renamedUpstream\<rparr>)))) (\<lambda>_.
          case md_path md of
            None \<Rightarrow> returnA ()
          | Some fromPath \<Rightarrow>
              bindA (modifyA (env_rename env (path_append (env_mountpoint env) fromPath)
                       (path_append (env_mountpoint env) (fre_newPath topEntry)))) (\<lambda>_.
              entries_renamed env (topEntry # fne_childEntries event)))))"

fun fileRenamedHandler :: "('w, 'm, 'h) fs_env \<Rightarrow> FileRenamedEvent list \<Rightarrow> (('w, 'm, 'h) FsLogic, unit) act" where
  "fileRenamedHandler env [] = returnA ()"
| "fileRenamedHandler env (event # events) =
     bindA (file_renamed env event) (\<lambda>_. fileRenamedHandler env events)"

end
