(* ===== verification/OC_FsInvariants.thy ===== *)
theory OC_FsInvariants
  imports OC_FsLogic
begin

text \<open>
  What the operations of the file system leave alone. A predicate that does not look at the metadata,
  the helpers and the world is kept by everything that only works on them; one that in addition looks
  neither at the event manager nor at the contexts of open helpers is kept by reading and writing.
\<close>

section \<open>Predicates kept by a computation\<close>

definition keeps :: "('s \<Rightarrow> bool) \<Rightarrow> ('s, 'a) act \<Rightarrow> bool" where
  "keeps P m \<longleftrightarrow> (\<forall>s. P s \<longrightarrow> P (snd (m s)))"

named_theorems keeps_intros \<open>rules for predicates kept by a computation\<close>

lemma keepsI: "(\<And>s. P s \<Longrightarrow> P (snd (m s))) \<Longrightarrow> keeps P m"
  by (simp add: keeps_def)

lemma keepsD: "keeps P m \<Longrightarrow> P s \<Longrightarrow> m s = (r, s') \<Longrightarrow> P s'"
  by (metis keeps_def snd_conv)

lemma keeps_returnA [keeps_intros]: "keeps P (returnA x)"
  by (simp add: keeps_def returnA_def)

lemma keeps_throwA [keeps_intros]: "keeps P (throwA x)"
  by (simp add: keeps_def throwA_def)

lemma keeps_liftA [keeps_intros]: "keeps P (liftA r)"
  by (simp add: keeps_def liftA_def)

lemma keeps_getA [keeps_intros]: "keeps P (getA f)"
  by (simp add: keeps_def getA_def)

lemma keeps_modifyA: "(\<And>s. P s \<Longrightarrow> P (f s)) \<Longrightarrow> keeps P (modifyA f)"
  by (simp add: keeps_def modifyA_def)

lemma keeps_bindA [keeps_intros]: "keeps P m \<Longrightarrow> (\<And>x. keeps P (f x)) \<Longrightarrow> keeps P (bindA m f)"
  unfolding keeps_def bindA_def by (auto split: prod.split sum.split)

lemma keeps_catchA [keeps_intros]: "keeps P m \<Longrightarrow> (\<And>x. keeps P (f x)) \<Longrightarrow> keeps P (catchA m f)"
  unfolding keeps_def catchA_def by (auto split: prod.split sum.split)

lemma keeps_if [keeps_intros]: "keeps P m \<Longrightarrow> keeps P n \<Longrightarrow> keeps P (if b then m else n)"
  by simp

lemma keeps_option [keeps_intros]:
  "keeps P m \<Longrightarrow> (\<And>x. keeps P (f x)) \<Longrightarrow> keeps P (case r of None \<Rightarrow> m | Some x \<Rightarrow> f x)"
  by (simp split: option.split)

lemma keeps_prod [keeps_intros]: "(\<And>x y. keeps P (f x y)) \<Longrightarrow> keeps P (case p of (x, y) \<Rightarrow> f x y)"
  by (simp split: prod.split)

lemma keeps_prod_fun [keeps_intros]:
  "(\<And>x y. keeps P (f x y z)) \<Longrightarrow> keeps P ((case p of (x, y) \<Rightarrow> f x y) z)"
  by (simp split: prod.split)

lemma keeps_exn [keeps_intros]:
  "(\<And>e. keeps P (f e)) \<Longrightarrow> keeps P m \<Longrightarrow> keeps P (case x of SystemError e \<Rightarrow> f e | _ \<Rightarrow> m)"
  by (cases x) simp_all

section \<open>Frames\<close>

locale fs_frame =
  fixes P :: "('w, 'm, 'h) FsLogic \<Rightarrow> bool"
  assumes world: "P (s\<lparr>world := w\<rparr>) \<longleftrightarrow> P s"
    and metadata: "P (s\<lparr>m_metadataCache := c\<rparr>) \<longleftrightarrow> P s"
    and helpers: "P (s\<lparr>m_helpersCache := hc\<rparr>) \<longleftrightarrow> P s"
begin

lemma on_world [keeps_intros]: "keeps P (on_world m)"
  by (rule keepsI) (simp add: on_world_def world split: prod.split)

lemma on_meta [keeps_intros]: "keeps P (on_meta env m)"
  by (rule keepsI) (simp add: on_meta_def metadata split: prod.split)

lemma set_cache [keeps_intros]: "keeps P (set_cache f)"
  unfolding set_cache_def by (rule keeps_modifyA) (simp add: metadata)

lemma request [keeps_intros]: "keeps P (request env r)"
  unfolding request_def by (rule on_world)

lemma cached_attr [keeps_intros]: "keeps P (cached_attr u)"
  by (rule keepsI) (simp add: cached_attr_def split: option.split)

lemma update_attr [keeps_intros]: "keeps P (update_attr u f)"
  unfolding update_attr_def by (rule set_cache)

lemma update_location [keeps_intros]: "keeps P (update_location u k f)"
  unfolding update_location_def by (intro keeps_intros)

lemma getHelper [keeps_intros]: "keeps P (getHelper env u sid)"
  by (rule keepsI) (simp add: getHelper_def helpers split: prod.split)

lemma flags_of [keeps_intros]: "keeps P (flags_of m)"
  unfolding flags_of_def by (rule keeps_liftA)

lemma parent_directory [keeps_intros]: "keeps P (parent_directory env p)"
  unfolding parent_directory_def by (intro keeps_intros)

lemma createFile [keeps_intros]: "keeps P (createFile env p mode flags)"
  unfolding createFile_def by (intro keeps_intros)

lemma fs_mknod [keeps_intros]: "keeps P (fs_mknod env p mode)"
  unfolding fs_mknod_def by (intro keeps_intros)

lemma fs_mkdir [keeps_intros]: "keeps P (fs_mkdir env p mode)"
  unfolding fs_mkdir_def by (intro keeps_intros)

lemma fs_chmod [keeps_intros]: "keeps P (fs_chmod env p mode)"
  unfolding fs_chmod_def Let_def by (intro keeps_intros)

lemma fs_utime [keeps_intros]: "keeps P (fs_utime env p a m)"
  unfolding fs_utime_def Let_def by (intro keeps_intros)

lemma readdir_start: "keeps P (readdir_start env full p)"
  unfolding readdir_start_def by (intro keeps_intros)

lemma readdir_chunk: "keeps P (readdir_chunk env full p u off es)"
  unfolding readdir_chunk_def by (intro keeps_intros)

lemma fileAttrHandler [keeps_intros]: "keeps P (fileAttrHandler I es)"
  unfolding fileAttrHandler_def by (rule set_cache)

lemma fileLocationHandler [keeps_intros]: "keeps P (fileLocationHandler es)"
  unfolding fileLocationHandler_def by (rule set_cache)

lemma syncAndFetchChecksum [keeps_intros]: "keeps P (syncAndFetchChecksum env u r)"
  unfolding syncAndFetchChecksum_def by (rule on_world)

lemma waitForBlockSynchronization [keeps_intros]: "keeps P (waitForBlockSynchronization env u r flags)"
  unfolding waitForBlockSynchronization_def by (intro keeps_intros)

lemma dataCorrupted [keeps_intros]: "keeps P (dataCorrupted env u buf cs a w)"
  unfolding dataCorrupted_def by (intro keeps_intros)

lemma find_block [keeps_intros]: "keeps P (find_block env u l flags off r)"
  unfolding find_block_def by (intro keeps_intros)

end

text \<open>Contexts of helpers may come and go, as long as the file of a handle stays.\<close>

locale fs_io_frame = fs_frame P for P :: "('w, 'm, 'h) FsLogic \<Rightarrow> bool" +
  assumes events: "P (s\<lparr>m_eventManager := M\<rparr>) \<longleftrightarrow> P s"
    and contexts: "(\<And>c. fc_uuid (f c) = fc_uuid c) \<Longrightarrow> P (update_context fh f s) \<longleftrightarrow> P s"
begin

lemma on_events [keeps_intros]: "keeps P (modifyA (on_events f))"
  by (rule keeps_modifyA) (simp add: on_events_def events)

lemma put_ctx [keeps_intros]: "keeps P (put_ctx fh key ctx)"
  unfolding put_ctx_def by (rule keeps_modifyA) (simp add: contexts)

lemma open_ctx [keeps_intros]: "keeps P (open_ctx env fh c h key)"
  unfolding open_ctx_def by (intro keeps_intros)

lemma getHelperCtx [keeps_intros]: "keeps P (getHelperCtx env fh h sid fid)"
  unfolding getHelperCtx_def by (intro keeps_intros)

lemma read_prepare: "keeps P (read_prepare env n off fi)"
  unfolding read_prepare_def Let_def by (intro keeps_intros)

lemma read_try: "keeps P (read_try env off j)"
  unfolding read_try_def Let_def by (intro keeps_intros)

lemma write_prepare: "keeps P (write_prepare env buf off fi)"
  unfolding write_prepare_def Let_def by (intro keeps_intros)

lemma write_finish: "keeps P (write_finish env off j n)"
  unfolding write_finish_def by (intro keeps_intros)

lemma fs_truncate [keeps_intros]: "keeps P (fs_truncate env p n)"
  unfolding fs_truncate_def by (intro keeps_intros)

lemma release_contexts [keeps_intros]: "keeps P (release_contexts env u cs x)"
  by (induction env u cs x rule: release_contexts.induct) (simp_all, (intro keeps_intros | assumption)+)

end

section \<open>Reading and writing end\<close>

definition handle_of :: "uint64 \<Rightarrow> uuid \<Rightarrow> ('w, 'm, 'h) FsLogic \<Rightarrow> bool" where
  "handle_of fh u s \<longleftrightarrow> map_option fc_uuid (fcc_cache (m_fileContextCache s) fh) = Some u"

definition forced_for :: "uint64 \<Rightarrow> uuid \<Rightarrow> ('w, 'm, 'h) FsLogic \<Rightarrow> bool" where
  "forced_for fh u s \<longleftrightarrow> handle_of fh u s \<and> force_contains u (m_forceProxyIOCache s)"

lemma handle_of_context:
  "(\<And>c. fc_uuid (f c) = fc_uuid c) \<Longrightarrow> handle_of fh u (update_context fh' f s) \<longleftrightarrow> handle_of fh u s"
  by (auto simp: handle_of_def update_context_def option.map_comp o_def)

interpretation handle: fs_io_frame "handle_of fh u" for fh u
proof
  show "handle_of fh u (update_context fh' f s) \<longleftrightarrow> handle_of fh u s" if "\<And>c. fc_uuid (f c) = fc_uuid c" for f fh' s
    using that by (rule handle_of_context)
qed (simp_all add: handle_of_def)

interpretation forced: fs_io_frame "forced_for fh u" for fh u
proof
  show "forced_for fh u (update_context fh' f s) \<longleftrightarrow> forced_for fh u s" if "\<And>c. fc_uuid (f c) = fc_uuid c" for f fh' s
  proof -
    have "m_forceProxyIOCache (update_context fh' f s) = m_forceProxyIOCache s" by (simp add: update_context_def)
    then show ?thesis by (simp add: forced_for_def handle_of_context [OF that])
  qed
qed (simp_all add: forced_for_def handle_of_def)

lemma bindA_Inr: "bindA m f s = (Inr x, s') \<longleftrightarrow> (\<exists>y t. m s = (Inr y, t) \<and> f y t = (Inr x, s'))"
  by (auto simp: bindA_def split: prod.splits sum.splits)

lemma read_prepare_uuid:
  assumes "read_prepare env n off fi s = (Inr (Some j), s')"
  shows "handle_of (fi_fh fi) (rj_uuid j) s"
  using assms
  by (auto simp: read_prepare_def bindA_Inr getA_def liftA_def context_get_def returnA_def throwA_def handle_of_def Let_def
      split: option.splits prod.splits if_splits)

lemma write_prepare_uuid:
  assumes "write_prepare env buf off fi s = (Inr (Some j), s')"
  shows "handle_of (fi_fh fi) (wj_uuid j) s"
  using assms
  by (auto simp: write_prepare_def bindA_Inr getA_def liftA_def context_get_def returnA_def throwA_def handle_of_def Let_def
      split: option.splits prod.splits if_splits)

lemma read_try_nocheck:
  assumes "\<not> env_needsDataConsistencyCheck env (rj_helper j)"
  shows "read_try env off j s \<noteq> (Inr Corrupted, s')"
  using assms
  by (auto simp: read_try_def bindA_Inr modifyA_def returnA_def Let_def split: option.splits if_splits)

lemma handle_of_inject: "handle_of fh u s \<Longrightarrow> handle_of fh v s \<Longrightarrow> u = v"
  by (auto simp: handle_of_def)

lemma forced_insert: "handle_of fh u s \<Longrightarrow> forced_for fh u (on_force (force_insert u) s)"
  by (auto simp: forced_for_def handle_of_def on_force_def force_insert_def force_contains_def split: prod.split)

lemma read_forced:
  assumes nocheck: "\<And>h. \<not> env_needsDataConsistencyCheck env h" and f: "forced_for (fi_fh fi) u s"
  shows "\<exists>r. fs_read env n off fi s = Some r"
proof (cases "read_prepare env n off fi s")
  case (Pair r s1)
  have f1: "forced_for (fi_fh fi) u s1" by (rule keepsD [OF forced.read_prepare f Pair])
  show ?thesis
  proof (cases "\<exists>j. r = Inr (Some j)")
    case True
    then obtain j where j: "r = Inr (Some j)" by blast
    have u: "rj_uuid j = u"
      using read_prepare_uuid Pair j f by (metis forced_for_def handle_of_inject)
    obtain r2 s2 where t: "read_try env off j s1 = (r2, s2)" by force
    have f2: "forced_for (fi_fh fi) u s2" by (rule keepsD [OF forced.read_try f1 t])
    have "r2 \<noteq> Inr Corrupted" using read_try_nocheck [OF nocheck] t by blast
    then show ?thesis
      using Pair j t u f2
      by (subst fs_read.simps) (auto simp: falls_back_def forced_for_def split: sum.split read_outcome.split)
  next
    case False
    then show ?thesis using Pair by (subst fs_read.simps) (auto split: sum.split option.split)
  qed
qed

lemma write_forced:
  assumes f: "forced_for (fi_fh fi) u s"
  shows "\<exists>r. fs_write env buf off fi s = Some r"
proof (cases "write_prepare env buf off fi s")
  case (Pair r s1)
  have f1: "forced_for (fi_fh fi) u s1" by (rule keepsD [OF forced.write_prepare f Pair])
  show ?thesis
  proof (cases "\<exists>j. r = Inr (Some j)")
    case True
    then obtain j where j: "r = Inr (Some j)" by blast
    have u: "wj_uuid j = u"
      using write_prepare_uuid Pair j f by (metis forced_for_def handle_of_inject)
    obtain r2 s2 where t: "on_world (env_write env (wj_helper j) (wj_ctx j) (fb_fileId (wj_block j)) (wj_buf j) off) s1 = (r2, s2)"
      by force
    have f2: "forced_for (fi_fh fi) u s2" by (rule keepsD [OF forced.on_world f1 t])
    then show ?thesis
      using Pair j t u
      by (subst fs_write.simps) (auto simp: falls_back_def forced_for_def split: sum.split)
  next
    case False
    then show ?thesis using Pair by (subst fs_write.simps) (auto split: sum.split option.split)
  qed
qed

text \<open>
  C22. Writing always returns, and reading returns unless a helper asks for the check of the data it
  read: a permission error makes them start over at most once, as the file is then forced to the
  provider. (With the check, a provider whose checksum never matches keeps \<open>read\<close> busy.)
\<close>

theorem read_and_write_return:
  "(\<exists>r. fs_write env buf off fi s = Some r) \<and>
   ((\<forall>h. \<not> env_needsDataConsistencyCheck env h) \<longrightarrow> (\<exists>r. fs_read env n off fi s = Some r))"
proof (intro conjI impI)
  show "\<exists>r. fs_write env buf off fi s = Some r"
  proof (cases "write_prepare env buf off fi s")
    case (Pair r s1)
    show ?thesis
    proof (cases "\<exists>j. r = Inr (Some j)")
      case True
      then obtain j where j: "r = Inr (Some j)" by blast
      obtain r2 s2 where t: "on_world (env_write env (wj_helper j) (wj_ctx j) (fb_fileId (wj_block j)) (wj_buf j) off) s1 = (r2, s2)"
        by force
      have "handle_of (fi_fh fi) (wj_uuid j) s2"
        using write_prepare_uuid Pair j keepsD [OF handle.write_prepare _ Pair] keepsD [OF handle.on_world _ t] by blast
      then show ?thesis
        using Pair j t write_forced [OF forced_insert]
        by (subst fs_write.simps) (auto split: sum.split)
    next
      case False
      then show ?thesis using Pair by (subst fs_write.simps) (auto split: sum.split option.split)
    qed
  qed
next
  assume nocheck: "\<forall>h. \<not> env_needsDataConsistencyCheck env h"
  show "\<exists>r. fs_read env n off fi s = Some r"
  proof (cases "read_prepare env n off fi s")
    case (Pair r s1)
    show ?thesis
    proof (cases "\<exists>j. r = Inr (Some j)")
      case True
      then obtain j where j: "r = Inr (Some j)" by blast
      obtain r2 s2 where t: "read_try env off j s1 = (r2, s2)" by force
      have "handle_of (fi_fh fi) (rj_uuid j) s2"
        using read_prepare_uuid Pair j keepsD [OF handle.read_prepare _ Pair] keepsD [OF handle.read_try _ t] by blast
      then have "\<exists>r. fs_read env (rj_size j) off fi (on_force (force_insert (rj_uuid j)) s2) = Some r"
        using nocheck by (intro read_forced [OF _ forced_insert]) auto
      moreover have "r2 \<noteq> Inr Corrupted" using read_try_nocheck nocheck t by blast
      ultimately show ?thesis
        using Pair j t
        by (subst fs_read.simps) (auto split: sum.split read_outcome.split)
    next
      case False
      then show ?thesis using Pair by (subst fs_read.simps) (auto split: sum.split option.split)
    qed
  qed
qed

text \<open>A provider that knows every file and keeps its first byte on one storage; no forced access, no checks.\<close>

definition example_location :: "point_map FileLocation" where
  "example_location = \<lparr>fl_uuid = ''u'', fl_spaceId = ''sp'', fl_storageId = ''st'', fl_fileId = ''f'',
     fl_blocks = [(0, \<lparr>fb_storageId = ''st'', fb_fileId = ''f''\<rparr>)], fl_handleId = Some ''h''\<rparr>"

definition example_env :: "(nat, point_map, string) fs_env" where
  "example_env =
     \<lparr>env_icl = pm_icl,
      env_provider = (\<lambda>_. example_provider\<lparr>pr_getFileLocation := \<lambda>u f. Inr example_location\<rparr>),
      env_request = (\<lambda>r w. (Inr (), Suc w)),
      env_getNewFileLocation = (\<lambda>n u m f w. (Inr example_location, Suc w)),
      env_getFileChildren = (\<lambda>u off n w. (Inr [(''c'', ''child'')], w)),
      env_synchronize = (\<lambda>u r w. (Inr [], w)), env_wait = (\<lambda>_. []),
      env_helperParams = (\<lambda>w s f. Inr \<lparr>hp_name = ''ProxyIO'', hp_args = []\<rparr>), env_storage = posix_storage,
      env_createCTX = (\<lambda>h ps w. (Inr (Some w), Suc w)), env_open = (\<lambda>h c f m w. (Inr 0, w)),
      env_read = (\<lambda>h c f n off w. (Inr (replicate n CHR ''a''), w)), env_write = (\<lambda>h c f b off w. (Inr (length b), w)),
      env_flush = (\<lambda>h c f w. (Inr (), w)), env_release = (\<lambda>h c f w. (Inr (), w)),
      env_needsDataConsistencyCheck = (\<lambda>h. False), env_proxyio = False, env_mountpoint = ''/mnt'',
      env_now = (\<lambda>w. 5000000000), env_md4 = (\<lambda>b. b), env_remove = (\<lambda>p s. s), env_rename = (\<lambda>p q s. s)\<rparr>"

abbreviation no_subscriptions :: SubscriptionContainer where
  "no_subscriptions \<equiv> \<lparr>m_readSubscriptions = [], m_writeSubscriptions = [], m_fileAccessedSubscription = []\<rparr>"

definition example_info :: fuse_file_info where
  "example_info = \<lparr>fi_flags = 2, fi_fh = 0, fi_direct_io = False\<rparr>"

theorem read_and_write_return_witness:
  "\<exists>r. fs_read example_env 3 0 example_info (FsLogic_init 0 no_subscriptions []) = Some r"
  using read_and_write_return [of example_env "''x''" 0 example_info "FsLogic_init 0 no_subscriptions []" 3]
  by (simp add: example_env_def)

end
