(* ===== verification/OC_FsTracking.thy ===== *)
theory OC_FsTracking
  imports OC_FsInvariants
begin

text \<open>
  The subscriptions of the file system belong to files that an expiration helper tracks, so that they
  are cancelled when the file is no longer interesting; and what happens to them in a rename.
\<close>

section \<open>Tracked keys\<close>

definition tracked :: "'k CacheExpirationHelper \<Rightarrow> 'k set" where
  "tracked h = dom (m_expDetails h)"

lemma tracked_simps [simp]:
  "tracked (put_details k d h) = insert k (tracked h)"
  "tracked (drop_details k h) = tracked h - {k}"
  "tracked (set_erase b k h) = tracked h"
  "tracked (erase_from bo k h) = tracked h"
  "tracked (snd (set_insert b k h)) = tracked h"
  "tracked (snd (assert_inserted r)) = tracked (snd r)"
  by (auto simp: tracked_def put_details_def drop_details_def set_erase_def erase_from_def set_insert_def
      assert_inserted_def split: option.split)

lemma tracked_None: "k \<in> tracked h \<longleftrightarrow> m_expDetails h k \<noteq> None"
  by (auto simp: tracked_def)

lemma tracked_unpin: "tracked (snd (unpin k h)) = tracked h"
  by (auto simp: unpin_def tracked_None Let_def split: option.split)

lemma tracked_expire: "tracked (snd (expire k h)) = tracked h"
  by (auto simp: expire_def tracked_None Let_def split: option.split)

lemma track_effect:
  assumes "track k c (h, s) = (r, (h', s'))"
  shows "tracked h' = insert k (tracked h)" "s' = s \<or> s' = snd (c s)"
  using assms by (auto simp: track_def tracked_None split: option.splits prod.splits)

lemma tracked_assert_inserted: "assert_inserted (set_insert b k h) = (r, h') \<Longrightarrow> tracked h' = tracked h"
  by (metis snd_conv tracked_simps(5,6))

lemma mark_effect:
  assumes "markInteresting k c (h, s) = (r, (h', s'))"
  shows "tracked h' = insert k (tracked h) \<and> (s' = s \<or> s' = snd (c s))"
proof -
  obtain r1 h1 s1 where t: "track k c (h, s) = (r1, (h1, s1))" by (metis prod.exhaust)
  have "tracked h' = insert k (tracked h1) \<and> s' = s1"
  proof (cases r1)
    case (Inl x)
    then show ?thesis using assms t track_effect(1) [OF t] by (simp add: markInteresting_def bindA_def insert_absorb)
  next
    case (Inr x)
    then have "(if b then (case assert_inserted (set_insert bk k (put_details k d (erase_from bo k h1))) of (r, h') \<Rightarrow> (r, (h', s1)))
        else (Inr (), (h1, s1))) = (r, (h', s')) \<Longrightarrow> ?thesis" for b d bo bk
      using track_effect(1) [OF t] by (auto simp: insert_absorb split: if_splits prod.splits dest!: tracked_assert_inserted)
    then show ?thesis using assms t Inr by (simp add: markInteresting_def bindA_def Let_def)
  qed
  then show ?thesis using track_effect [OF t] by simp
qed

lemma pin_effect:
  assumes "pin k c (h, s) = (r, (h', s'))"
  shows "tracked h' = insert k (tracked h) \<and> (s' = s \<or> s' = snd (c s))"
proof -
  obtain r1 h1 s1 where t: "track k c (h, s) = (r1, (h1, s1))" by (metis prod.exhaust)
  have "tracked h' = insert k (tracked h1) \<and> s' = s1"
    using assms t track_effect(1) [OF t]
    by (cases r1) (simp_all add: pin_def bindA_def Let_def insert_absorb, (elim conjE, hypsubst, simp)?)
  then show ?thesis using track_effect [OF t] by simp
qed

text \<open>A rename to a key that is not tracked: nothing happens, the callback fails, or it moves the key.\<close>


lemma tracked_rename_finish [simp]: "tracked (rename_finish k d h) = tracked h - {k}"
  by (simp add: rename_finish_def)

lemma rename_locked_effect:
  assumes e: "rename_locked old new False c (g, s) = (r, (g', s'))" and new: "new \<in> tracked g"
  shows "s' = snd (c s) \<and> (tracked g' = tracked g \<or> tracked g' = tracked g - {old} \<and> fst (c s) = Inr ())"
proof (cases "c s")
  case (Pair rc sc)
  have ins: "tracked h1 = tracked g" if "assert_inserted (set_insert b new (put_details new d g)) = (q, h1)" for b d q h1
    using tracked_assert_inserted [OF that] new by (simp add: insert_absorb)
  show ?thesis
  proof (cases rc)
    case (Inl x)
    then show ?thesis using e Pair by (simp add: rename_locked_def)
  next
    case (Inr x)
    let ?od = "the (m_expDetails g old)" and ?nd = "the (m_expDetails g new)"
    show ?thesis
    proof (cases "pinnedCount ?od = 0")
      case True
      show ?thesis
      proof (cases "bucket ?od")
        case None
        then show ?thesis using e Pair Inr True by (simp add: rename_locked_def)
      next
        case (Some b)
        obtain q h1 where a: "assert_inserted (set_insert b new (put_details new \<lparr>pinnedCount = 0, bucket = Some b\<rparr> g)) = (q, h1)"
          by force
        have "g' = (case q of Inl _ \<Rightarrow> h1 | Inr _ \<Rightarrow> rename_finish old ?od h1) \<and> s' = sc"
          using e by (cases q) (auto simp add: rename_locked_def Let_def Pair Inr True Some a)
        then show ?thesis using ins [OF a] Pair Inr by (cases q) simp_all
      qed
    next
      case False
      then have "g' = rename_finish old ?od (put_details new (?nd\<lparr>pinnedCount := pinnedCount ?od\<rparr>) g) \<and> s' = sc"
        using e by (simp add: rename_locked_def Let_def Pair Inr)
      then show ?thesis using new Pair Inr by (simp add: insert_absorb)
    qed
  qed
qed

lemma rename_effect:
  assumes e: "rename_key old new c (h, s) = (r, (h', s'))" and n: "old = new \<or> new \<notin> tracked h"
  shows "(tracked h' = tracked h \<and> s' = s) \<or> (tracked h' = insert new (tracked h) \<and> s' = snd (c s)) \<or>
    (tracked h' = insert new (tracked h) - {old} \<and> s' = snd (c s) \<and> fst (c s) = Inr ())"
proof (cases "old = new")
  case True
  then show ?thesis using e by (simp add: rename_key_def)
next
  case neq: False
  let ?g = "put_details new fresh_details h"
  have fresh: "m_expDetails h new = None" using n neq by (simp add: tracked_None)
  have g_old: "m_expDetails ?g old = m_expDetails h old" using neq by (simp add: put_details_def)
  show ?thesis
  proof (cases "m_expDetails h old")
    case None
    then have "tracked h' = tracked h" "s' = s"
      using e neq fresh g_old n by (cases "old < new"; simp add: rename_key_def Let_def; auto)+
    then show ?thesis by simp
  next
    case (Some d)
    then have "rename_locked old new False c (?g, s) = (r, (h', s'))"
      using e neq fresh g_old by (cases "old < new") (simp_all add: rename_key_def)
    from rename_locked_effect [OF this] show ?thesis by auto
  qed
qed

section \<open>Subscribed files\<close>

definition attr_subs :: "FsSubscriptions \<Rightarrow> uuid set" where
  "attr_subs f = dom (m_fileAttrSubscriptions f) \<union> dom (m_fileRemovalSubscriptions f) \<union> dom (m_fileRenamedSubscriptions f)"

definition subs_ok :: "uuid set \<Rightarrow> uuid set \<Rightarrow> ('w, 'm, 'h) FsLogic \<Rightarrow> bool" where
  "subs_ok A L s \<longleftrightarrow>
     attr_subs (m_fsSubscriptions s) \<subseteq> A \<and> dom (m_fileLocationSubscriptions (m_fsSubscriptions s)) \<subseteq> L \<and>
     m_forceProxyIOCache s = dom (m_permissionChangedSubscriptions (m_fsSubscriptions s))"

definition tracking_inv :: "('w, 'm, 'h) FsLogic \<Rightarrow> bool" where
  "tracking_inv s \<longleftrightarrow> subs_ok (tracked (m_attrExpirationHelper s)) (tracked (m_locExpirationHelper s)) s"

definition exps_are :: "uuid CacheExpirationHelper \<Rightarrow> uuid CacheExpirationHelper \<Rightarrow> ('w, 'm, 'h) FsLogic \<Rightarrow> bool" where
  "exps_are h g s \<longleftrightarrow> m_attrExpirationHelper s = h \<and> m_locExpirationHelper s = g"

lemma subs_ok_mono: "subs_ok A L s \<Longrightarrow> A \<subseteq> A' \<Longrightarrow> L \<subseteq> L' \<Longrightarrow> subs_ok A' L' s"
  unfolding subs_ok_def by blast

interpretation subs: fs_io_frame "subs_ok A L" for A L
  by unfold_locales (simp_all add: subs_ok_def update_context_def)

interpretation tracking: fs_io_frame tracking_inv
  by unfold_locales (simp_all add: tracking_inv_def subs_ok_def update_context_def)

interpretation exps: fs_io_frame "exps_are h g" for h g
  by unfold_locales (simp_all add: exps_are_def update_context_def)

text \<open>The maps after adding and after removing a subscription.\<close>

lemma addFileAttrSubscription_maps [simp]:
  "dom (m_fileAttrSubscriptions (fst (addFileAttrSubscription u p))) = insert u (dom (m_fileAttrSubscriptions (fst p)))"
  "m_fileRemovalSubscriptions (fst (addFileAttrSubscription u p)) = m_fileRemovalSubscriptions (fst p)"
  "m_fileRenamedSubscriptions (fst (addFileAttrSubscription u p)) = m_fileRenamedSubscriptions (fst p)"
  "m_fileLocationSubscriptions (fst (addFileAttrSubscription u p)) = m_fileLocationSubscriptions (fst p)"
  "m_permissionChangedSubscriptions (fst (addFileAttrSubscription u p)) = m_permissionChangedSubscriptions (fst p)"
  by (cases p; auto simp: addFileAttrSubscription_def split: prod.splits option.splits)+

lemma removeFileAttrSubscription_maps [simp]:
  "dom (m_fileAttrSubscriptions (fst (removeFileAttrSubscription u p))) = dom (m_fileAttrSubscriptions (fst p)) - {u}"
  "m_fileRemovalSubscriptions (fst (removeFileAttrSubscription u p)) = m_fileRemovalSubscriptions (fst p)"
  "m_fileRenamedSubscriptions (fst (removeFileAttrSubscription u p)) = m_fileRenamedSubscriptions (fst p)"
  "m_fileLocationSubscriptions (fst (removeFileAttrSubscription u p)) = m_fileLocationSubscriptions (fst p)"
  "m_permissionChangedSubscriptions (fst (removeFileAttrSubscription u p)) = m_permissionChangedSubscriptions (fst p)"
  by (cases p; auto simp: removeFileAttrSubscription_def split: prod.splits option.splits)+

lemma addFileRemovalSubscription_maps [simp]:
  "dom (m_fileRemovalSubscriptions (fst (addFileRemovalSubscription u p))) = insert u (dom (m_fileRemovalSubscriptions (fst p)))"
  "m_fileAttrSubscriptions (fst (addFileRemovalSubscription u p)) = m_fileAttrSubscriptions (fst p)"
  "m_fileRenamedSubscriptions (fst (addFileRemovalSubscription u p)) = m_fileRenamedSubscriptions (fst p)"
  "m_fileLocationSubscriptions (fst (addFileRemovalSubscription u p)) = m_fileLocationSubscriptions (fst p)"
  "m_permissionChangedSubscriptions (fst (addFileRemovalSubscription u p)) = m_permissionChangedSubscriptions (fst p)"
  by (cases p; auto simp: addFileRemovalSubscription_def split: prod.splits option.splits)+

lemma removeFileRemovalSubscription_maps [simp]:
  "dom (m_fileRemovalSubscriptions (fst (removeFileRemovalSubscription u p))) = dom (m_fileRemovalSubscriptions (fst p)) - {u}"
  "m_fileAttrSubscriptions (fst (removeFileRemovalSubscription u p)) = m_fileAttrSubscriptions (fst p)"
  "m_fileRenamedSubscriptions (fst (removeFileRemovalSubscription u p)) = m_fileRenamedSubscriptions (fst p)"
  "m_fileLocationSubscriptions (fst (removeFileRemovalSubscription u p)) = m_fileLocationSubscriptions (fst p)"
  "m_permissionChangedSubscriptions (fst (removeFileRemovalSubscription u p)) = m_permissionChangedSubscriptions (fst p)"
  by (cases p; auto simp: removeFileRemovalSubscription_def split: prod.splits option.splits)+

lemma addFileRenamedSubscription_maps [simp]:
  "dom (m_fileRenamedSubscriptions (fst (addFileRenamedSubscription u p))) = insert u (dom (m_fileRenamedSubscriptions (fst p)))"
  "m_fileAttrSubscriptions (fst (addFileRenamedSubscription u p)) = m_fileAttrSubscriptions (fst p)"
  "m_fileRemovalSubscriptions (fst (addFileRenamedSubscription u p)) = m_fileRemovalSubscriptions (fst p)"
  "m_fileLocationSubscriptions (fst (addFileRenamedSubscription u p)) = m_fileLocationSubscriptions (fst p)"
  "m_permissionChangedSubscriptions (fst (addFileRenamedSubscription u p)) = m_permissionChangedSubscriptions (fst p)"
  by (cases p; auto simp: addFileRenamedSubscription_def split: prod.splits option.splits)+

lemma removeFileRenamedSubscription_maps [simp]:
  "dom (m_fileRenamedSubscriptions (fst (removeFileRenamedSubscription u p))) = dom (m_fileRenamedSubscriptions (fst p)) - {u}"
  "m_fileAttrSubscriptions (fst (removeFileRenamedSubscription u p)) = m_fileAttrSubscriptions (fst p)"
  "m_fileRemovalSubscriptions (fst (removeFileRenamedSubscription u p)) = m_fileRemovalSubscriptions (fst p)"
  "m_fileLocationSubscriptions (fst (removeFileRenamedSubscription u p)) = m_fileLocationSubscriptions (fst p)"
  "m_permissionChangedSubscriptions (fst (removeFileRenamedSubscription u p)) = m_permissionChangedSubscriptions (fst p)"
  by (cases p; auto simp: removeFileRenamedSubscription_def split: prod.splits option.splits)+

lemma addFileLocationSubscription_maps [simp]:
  "dom (m_fileLocationSubscriptions (fst (addFileLocationSubscription u p))) = insert u (dom (m_fileLocationSubscriptions (fst p)))"
  "m_fileAttrSubscriptions (fst (addFileLocationSubscription u p)) = m_fileAttrSubscriptions (fst p)"
  "m_fileRemovalSubscriptions (fst (addFileLocationSubscription u p)) = m_fileRemovalSubscriptions (fst p)"
  "m_fileRenamedSubscriptions (fst (addFileLocationSubscription u p)) = m_fileRenamedSubscriptions (fst p)"
  "m_permissionChangedSubscriptions (fst (addFileLocationSubscription u p)) = m_permissionChangedSubscriptions (fst p)"
  by (cases p; auto simp: addFileLocationSubscription_def split: prod.splits option.splits)+

lemma removeFileLocationSubscription_maps [simp]:
  "dom (m_fileLocationSubscriptions (fst (removeFileLocationSubscription u p))) = dom (m_fileLocationSubscriptions (fst p)) - {u}"
  "m_fileAttrSubscriptions (fst (removeFileLocationSubscription u p)) = m_fileAttrSubscriptions (fst p)"
  "m_fileRemovalSubscriptions (fst (removeFileLocationSubscription u p)) = m_fileRemovalSubscriptions (fst p)"
  "m_fileRenamedSubscriptions (fst (removeFileLocationSubscription u p)) = m_fileRenamedSubscriptions (fst p)"
  "m_permissionChangedSubscriptions (fst (removeFileLocationSubscription u p)) = m_permissionChangedSubscriptions (fst p)"
  by (cases p; auto simp: removeFileLocationSubscription_def split: prod.splits option.splits)+

lemma add_attr_subs_maps [simp]:
  "attr_subs (fst (add_attr_subs u p)) = insert u (attr_subs (fst p))"
  "m_fileLocationSubscriptions (fst (add_attr_subs u p)) = m_fileLocationSubscriptions (fst p)"
  "m_permissionChangedSubscriptions (fst (add_attr_subs u p)) = m_permissionChangedSubscriptions (fst p)"
  by (auto simp: add_attr_subs_def attr_subs_def)

lemma remove_attr_subs_maps [simp]:
  "attr_subs (fst (remove_attr_subs u p)) = attr_subs (fst p) - {u}"
  "m_fileLocationSubscriptions (fst (remove_attr_subs u p)) = m_fileLocationSubscriptions (fst p)"
  "m_permissionChangedSubscriptions (fst (remove_attr_subs u p)) = m_permissionChangedSubscriptions (fst p)"
  by (auto simp: remove_attr_subs_def attr_subs_def)

lemma location_attr_subs [simp]:
  "attr_subs (fst (addFileLocationSubscription u p)) = attr_subs (fst p)"
  "attr_subs (fst (removeFileLocationSubscription u p)) = attr_subs (fst p)"
  by (simp_all add: attr_subs_def)

lemma on_subs_simps [simp]:
  "m_fsSubscriptions (on_subs f s) = fst (f (m_fsSubscriptions s, m_eventManager s))"
  "m_forceProxyIOCache (on_subs f s) = m_forceProxyIOCache s"
  "m_attrExpirationHelper (on_subs f s) = m_attrExpirationHelper s"
  "m_locExpirationHelper (on_subs f s) = m_locExpirationHelper s"
  by (simp_all add: on_subs_def split: prod.split)

lemma subs_ok_add_attr: "subs_ok A L s \<Longrightarrow> subs_ok (insert u A) L (on_subs (add_attr_subs u) s)"
  by (auto simp: subs_ok_def)

lemma subs_ok_remove_attr: "subs_ok A L s \<Longrightarrow> subs_ok (A - {u}) L (on_subs (remove_attr_subs u) s)"
  by (auto simp: subs_ok_def)

lemma subs_ok_add_location: "subs_ok A L s \<Longrightarrow> subs_ok A (insert u L) (on_subs (addFileLocationSubscription u) s)"
  by (auto simp: subs_ok_def)

lemma subs_ok_remove_location: "subs_ok A L s \<Longrightarrow> subs_ok A (L - {u}) (on_subs (removeFileLocationSubscription u) s)"
  by (auto simp: subs_ok_def)

text \<open>The callbacks of the expiration helpers.\<close>

lemma exps_on_subs [keeps_intros]: "keeps (exps_are h g) (modifyA (on_subs f))"
  by (rule keeps_modifyA) (simp add: exps_are_def)

lemma exps_cache_attr [keeps_intros]: "keeps (exps_are h g) (cache_attr env u)"
  unfolding cache_attr_def by (intro keeps_intros exps.on_meta)

lemma exps_recache_attr: "keeps (exps_are h g) (recache_attr env u v)"
  unfolding recache_attr_def by (intro keeps_intros)

lemma exps_cache_location: "keeps (exps_are h g) (cache_location env u m)"
  unfolding cache_location_def by (intro keeps_intros exps.on_meta exps.flags_of)

lemma exps_eq:
  assumes "keeps (exps_are (m_attrExpirationHelper s) (m_locExpirationHelper s)) m"
  shows "m_attrExpirationHelper (snd (m s)) = m_attrExpirationHelper s" "m_locExpirationHelper (snd (m s)) = m_locExpirationHelper s"
  using assms by (auto simp: keeps_def exps_are_def)

lemma keeps_snd: "keeps P m \<Longrightarrow> P s \<Longrightarrow> P (snd (m s))"
  by (simp add: keeps_def)

lemma subs_bindA:
  assumes "subs_ok A L s" "keeps (subs_ok A L) m" and "\<And>x t. subs_ok A L t \<Longrightarrow> subs_ok A' L' (snd (f x t))"
    and "A \<subseteq> A'" "L \<subseteq> L'"
  shows "subs_ok A' L' (snd (bindA m f s))"
  using keeps_snd [OF assms(2,1)] assms(3) subs_ok_mono [OF _ assms(4,5)]
  by (auto simp: bindA_def split: prod.splits sum.splits)

lemma subs_cache_attr:
  assumes "subs_ok A L s"
  shows "subs_ok (insert u A) L (snd (cache_attr env u s))"
  unfolding cache_attr_def
  by (rule subs_bindA [OF assms subs.on_meta]) (auto simp: modifyA_def subs_ok_add_attr)

lemma subs_cache_location:
  assumes "subs_ok A L s"
  shows "subs_ok A (insert u L) (snd (cache_location env u m s))"
  unfolding cache_location_def
  by (rule subs_bindA [OF assms subs.flags_of], rule subs_bindA [OF _ subs.on_meta])
     (auto simp: modifyA_def subs_ok_add_location)

lemma subs_recache_attr:
  assumes "subs_ok A L s"
  shows "subs_ok (insert v (A - {u})) L (snd (recache_attr env u v s))"
  using subs_cache_attr [OF subs_ok_remove_attr [OF assms]] by (simp add: recache_attr_def bindA_def modifyA_def)

section \<open>The operations keep subscribed files tracked\<close>

lemma keeps_on_attr:
  fixes m :: "(uuid CacheExpirationHelper \<times> ('w, 'm, 'h) FsLogic, 'a) act"
  assumes "\<And>s r h s'. tracking_inv s \<Longrightarrow> m (m_attrExpirationHelper s, s) = (r, (h, s')) \<Longrightarrow>
      subs_ok (tracked h) (tracked (m_locExpirationHelper s)) s' \<and> m_locExpirationHelper s' = m_locExpirationHelper s"
  shows "keeps tracking_inv (on_attr m)"
proof (rule keepsI)
  fix s :: "('w, 'm, 'h) FsLogic" assume inv: "tracking_inv s"
  obtain r h s' where m: "m (m_attrExpirationHelper s, s) = (r, (h, s'))" by (metis prod.exhaust)
  show "tracking_inv (snd (on_attr m s))"
    using assms [OF inv m] m by (simp add: on_attr_def tracking_inv_def subs_ok_def)
qed

lemma keeps_on_loc:
  fixes m :: "(uuid CacheExpirationHelper \<times> ('w, 'm, 'h) FsLogic, 'a) act"
  assumes "\<And>s r h s'. tracking_inv s \<Longrightarrow> m (m_locExpirationHelper s, s) = (r, (h, s')) \<Longrightarrow>
      subs_ok (tracked (m_attrExpirationHelper s)) (tracked h) s' \<and> m_attrExpirationHelper s' = m_attrExpirationHelper s"
  shows "keeps tracking_inv (on_loc m)"
proof (rule keepsI)
  fix s :: "('w, 'm, 'h) FsLogic" assume inv: "tracking_inv s"
  obtain r h s' where m: "m (m_locExpirationHelper s, s) = (r, (h, s'))" by (metis prod.exhaust)
  show "tracking_inv (snd (on_loc m s))"
    using assms [OF inv m] m by (simp add: on_loc_def tracking_inv_def subs_ok_def)
qed

lemma interest_ok:
  assumes inv: "tracking_inv s" and h: "tracked h = insert u (tracked (m_attrExpirationHelper s))"
    and s': "s' = s \<or> s' = snd (cache_attr env u s)"
  shows "subs_ok (tracked h) (tracked (m_locExpirationHelper s)) s' \<and> m_locExpirationHelper s' = m_locExpirationHelper s"
  using s'
proof
  assume "s' = s"
  then show ?thesis using inv h by (auto simp: tracking_inv_def intro: subs_ok_mono)
next
  assume "s' = snd (cache_attr env u s)"
  then show ?thesis
    using subs_cache_attr [OF inv [unfolded tracking_inv_def], of u env] h exps_eq(2) [OF exps_cache_attr, of env u s] by simp
qed

lemma tracking_mark [keeps_intros]: "keeps tracking_inv (on_attr (markInteresting u (cache_attr env u)))"
  by (rule keeps_on_attr) (rule interest_ok, assumption, (drule mark_effect, blast)+)

lemma tracking_pin_attr [keeps_intros]: "keeps tracking_inv (on_attr (pin u (cache_attr env u)))"
  by (rule keeps_on_attr) (rule interest_ok, assumption, (drule pin_effect, blast)+)

lemma tracking_pin_loc [keeps_intros]: "keeps tracking_inv (on_loc (pin u (cache_location env u m)))"
proof (rule keeps_on_loc)
  fix s :: "('a, 'b, 'c) FsLogic" and r h s'
  assume inv: "tracking_inv s" and p: "pin u (cache_location env u m) (m_locExpirationHelper s, s) = (r, (h, s'))"
  note e = pin_effect [OF p]
  from e have "s' = s \<or> s' = snd (cache_location env u m s)" by blast
  then show "subs_ok (tracked (m_attrExpirationHelper s)) (tracked h) s' \<and> m_attrExpirationHelper s' = m_attrExpirationHelper s"
  proof
    assume "s' = s"
    then show ?thesis using inv e by (auto simp: tracking_inv_def intro: subs_ok_mono)
  next
    assume "s' = snd (cache_location env u m s)"
    then show ?thesis
      using subs_cache_location [OF inv [unfolded tracking_inv_def], of u env m] e
        exps_eq(1) [OF exps_cache_location, of env u m s] by simp
  qed
qed

lemma tracking_attr_helper: "(\<And>h. tracked (snd (m h)) = tracked h) \<Longrightarrow> keeps tracking_inv (attr_helper m)"
  by (rule keepsI) (simp add: attr_helper_def tracking_inv_def subs_ok_def split: prod.split, metis snd_conv)

lemma tracking_loc_helper: "(\<And>h. tracked (snd (m h)) = tracked h) \<Longrightarrow> keeps tracking_inv (loc_helper m)"
  by (rule keepsI) (simp add: loc_helper_def tracking_inv_def subs_ok_def split: prod.split, metis snd_conv)

lemmas tracking_helper [keeps_intros] =
  tracking_attr_helper [OF tracked_unpin] tracking_loc_helper [OF tracked_unpin]
  tracking_attr_helper [OF tracked_expire] tracking_loc_helper [OF tracked_expire]

lemma tracking_rename_key:
  assumes inv: "tracking_inv s" and n: "old = new \<or> new \<notin> tracked (m_attrExpirationHelper s)"
  shows "tracking_inv (snd (on_attr (rename_key old new (recache_attr env old new)) s))"
proof -
  let ?m = "rename_key old new (recache_attr env old new)"
  obtain r h s' where m: "?m (m_attrExpirationHelper s, s) = (r, (h, s'))" by (metis prod.exhaust)
  let ?A = "tracked (m_attrExpirationHelper s)"
  have loc: "m_locExpirationHelper (snd (recache_attr env old new s)) = m_locExpirationHelper s"
    by (rule exps_eq(2) [OF exps_recache_attr])
  have re: "subs_ok (insert new (?A - {old})) (tracked (m_locExpirationHelper s)) (snd (recache_attr env old new s))"
    using inv unfolding tracking_inv_def by (rule subs_recache_attr)
  have "subs_ok (tracked h) (tracked (m_locExpirationHelper s)) s' \<and> m_locExpirationHelper s' = m_locExpirationHelper s"
    using rename_effect [OF m n]
  proof (elim disjE)
    assume "tracked h = ?A \<and> s' = s"
    then show ?thesis using inv by (simp add: tracking_inv_def)
  next
    assume "tracked h = insert new ?A \<and> s' = snd (recache_attr env old new s)"
    then show ?thesis using re loc by (auto intro: subs_ok_mono)
  next
    assume e: "tracked h = insert new ?A - {old} \<and> s' = snd (recache_attr env old new s) \<and> fst (recache_attr env old new s) = Inr ()"
    then have "old \<noteq> new \<Longrightarrow> ?thesis" using re loc by (auto simp: insert_Diff_if)
    moreover have "old = new \<Longrightarrow> ?thesis"
      using m inv by (auto simp: rename_key_def tracking_inv_def)
    ultimately show ?thesis by blast
  qed
  then show ?thesis using m by (simp add: on_attr_def tracking_inv_def subs_ok_def)
qed

lemma tracked_rename_key:
  assumes n: "old = new \<or> new \<notin> tracked (m_attrExpirationHelper s)"
  shows "tracked (m_attrExpirationHelper (snd (on_attr (rename_key old new c) s))) \<subseteq> insert new (tracked (m_attrExpirationHelper s))"
proof -
  obtain r h s' where m: "rename_key old new c (m_attrExpirationHelper s, s) = (r, (h, s'))" by (metis prod.exhaust)
  show ?thesis using rename_effect [OF m n] m by (auto simp: on_attr_def)
qed

lemma force_effect:
  "m_forceProxyIOCache (on_force (force_insert u) s) = insert u (m_forceProxyIOCache s)"
  "m_forceProxyIOCache (on_force (force_erase u) s) = m_forceProxyIOCache s - {u}"
  "m_fsSubscriptions (on_force (force_insert u) s) = fst (addPermissionChangedSubscription u (m_fsSubscriptions s, m_eventManager s))"
  "m_fsSubscriptions (on_force (force_erase u) s) = fst (removePermissionChangedSubscription u (m_fsSubscriptions s, m_eventManager s))"
  "m_attrExpirationHelper (on_force g s) = m_attrExpirationHelper s" "m_locExpirationHelper (on_force g s) = m_locExpirationHelper s"
  by (simp_all add: on_force_def force_insert_def force_erase_def split: prod.split)

lemma permission_maps:
  "dom (m_permissionChangedSubscriptions (fst (addPermissionChangedSubscription u p))) = insert u (dom (m_permissionChangedSubscriptions (fst p)))"
  "dom (m_permissionChangedSubscriptions (fst (removePermissionChangedSubscription u p))) = dom (m_permissionChangedSubscriptions (fst p)) - {u}"
  "attr_subs (fst (addPermissionChangedSubscription u p)) = attr_subs (fst p)"
  "attr_subs (fst (removePermissionChangedSubscription u p)) = attr_subs (fst p)"
  "m_fileLocationSubscriptions (fst (addPermissionChangedSubscription u p)) = m_fileLocationSubscriptions (fst p)"
  "m_fileLocationSubscriptions (fst (removePermissionChangedSubscription u p)) = m_fileLocationSubscriptions (fst p)"
  by (cases p; auto simp: attr_subs_def addPermissionChangedSubscription_def removePermissionChangedSubscription_def
      split: prod.splits option.splits)+

lemma tracking_force_insert: "tracking_inv s \<Longrightarrow> tracking_inv (on_force (force_insert u) s)"
  by (simp add: tracking_inv_def subs_ok_def force_effect permission_maps)

lemma tracking_force_erase: "tracking_inv s \<Longrightarrow> tracking_inv (on_force (force_erase u) s)"
  by (simp add: tracking_inv_def subs_ok_def force_effect permission_maps)

subsection \<open>The expiration tick\<close>

lemma tick_keeps:
  assumes step: "\<And>k h s. Q (h, s) \<Longrightarrow> k \<in> tracked h \<Longrightarrow> Q (drop_details k h, purge k s)"
    and tracked: "\<And>h h' s. tracked h' = tracked h \<Longrightarrow> Q (h, s) \<Longrightarrow> Q (h', s)"
    and start: "Q (h, s)"
  shows "Q (tick purge (h, s))"
proof -
  have el: "Q (tick_elem purge e k p)" if "Q p" for e k p
    using that step [of "fst p" "snd p" k] by (cases p) (auto simp: tick_elem_def tracked_None split: option.split)
  have fold: "Q (fold (tick_elem purge e) ks p)" if "Q p" for e ks p
    using that by (induction ks arbitrary: p) (simp_all add: el)
  let ?h1 = "snd (shift h)" and ?e = "fst (shift h)"
  have "Q (?h1, s)" by (rule tracked [OF _ start]) (simp add: shift_def tracked_def)
  then have "Q (fold (tick_elem purge ?e) (m_sets ?h1 ?e) (?h1, s))" by (rule fold)
  then show ?thesis
    by (auto simp: tick_def tracked_def split: prod.split intro: tracked [rotated])
qed

lemma purge_location_ok:
  assumes "subs_ok A L s" shows "subs_ok A (L - {u}) (purge_location u s)"
  unfolding purge_location_def by (rule subs_ok_remove_location) (simp add: subs.metadata assms)

lemma purge_attr_ok:
  assumes "subs_ok A L s" shows "subs_ok (A - {u}) L (purge_attr u s)"
  unfolding purge_attr_def by (rule subs_ok_remove_attr) (simp add: subs.metadata assms)

lemma tracking_tick:
  fixes s :: "('w, 'm, 'h) FsLogic"
  assumes inv: "tracking_inv s"
  shows "tracking_inv (cacheExpirationTick s)"
proof -
  define Q :: "uuid CacheExpirationHelper \<times> ('w, 'm, 'h) FsLogic \<Rightarrow> bool" where "Q = (\<lambda>(h, t). subs_ok (tracked (m_attrExpirationHelper s)) (tracked h) t \<and>
    m_attrExpirationHelper t = m_attrExpirationHelper s)"
  obtain h s1 where t1: "tick purge_location (m_locExpirationHelper s, s) = (h, s1)" by force
  have "Q (tick purge_location (m_locExpirationHelper s, s))"
  proof (rule tick_keeps [where Q = Q])
    show "Q (m_locExpirationHelper s, s)" using inv by (simp add: Q_def tracking_inv_def)
    show "Q (drop_details k h, purge_location k t)" if "Q (h, t)" for k h t
      using that purge_location_ok [of _ "tracked h" t k] by (auto simp: Q_def) (simp add: purge_location_def)
  qed (simp add: Q_def)
  then have 1: "subs_ok (tracked (m_attrExpirationHelper s1)) (tracked h) s1" using t1 by (simp add: Q_def)
  define R :: "uuid CacheExpirationHelper \<times> ('w, 'm, 'h) FsLogic \<Rightarrow> bool" where "R = (\<lambda>(g, t). subs_ok (tracked g) (tracked h) t \<and> m_locExpirationHelper t = h)"
  let ?s2 = "s1\<lparr>m_locExpirationHelper := h\<rparr>"
  obtain g s3 where t3: "tick purge_attr (m_attrExpirationHelper ?s2, ?s2) = (g, s3)" by force
  have "R (tick purge_attr (m_attrExpirationHelper ?s2, ?s2))"
  proof (rule tick_keeps [where Q = R])
    show "R (m_attrExpirationHelper ?s2, ?s2)" using 1 by (simp add: R_def subs_ok_def)
    show "R (drop_details k g, purge_attr k t)" if "R (g, t)" for k g t
      using that purge_attr_ok [of "tracked g" _ t k] by (auto simp: R_def) (simp add: purge_attr_def)
  qed (simp add: R_def)
  then show ?thesis using t1 t3 by (simp add: R_def cacheExpirationTick_def tracking_inv_def subs_ok_def)
qed

subsection \<open>Operations\<close>

lemma tracking_contexts [keeps_intros]: "keeps tracking_inv context_new" "keeps tracking_inv (modifyA (update_context fh f))"
  by (auto simp: keeps_def modifyA_def context_new_def update_context_def tracking_inv_def subs_ok_def
      split: option.split)

lemma tracking_getattr [keeps_intros]: "keeps tracking_inv (fs_getattr env p)"
  unfolding fs_getattr_def by (intro keeps_intros)

lemma tracking_openFile [keeps_intros]: "keeps tracking_inv (openFile env u fi)"
  unfolding openFile_def by (intro keeps_intros)

lemma tracking_open [keeps_intros]: "keeps tracking_inv (fs_open env p fi)"
  unfolding fs_open_def by (intro keeps_intros)

lemma tracking_create [keeps_intros]: "keeps tracking_inv (fs_create env p mode fi)"
  unfolding fs_create_def by (intro keeps_intros)

lemma tracking_unlink [keeps_intros]: "keeps tracking_inv (fs_unlink env p)"
  unfolding fs_unlink_def removeFile_def by (intro keeps_intros)

lemma tracking_release [keeps_intros]: "keeps tracking_inv (fs_release env p fi)"
  unfolding fs_release_def by (intro keeps_intros)

lemma tracking_permissionChanged [keeps_intros]: "keeps tracking_inv (permissionChangedHandler es)"
proof -
  have "tracking_inv (fold (\<lambda>e. on_force (force_erase (pce_fileUuid e))) es s)" if "tracking_inv s" for s :: "('a, 'b, 'c) FsLogic"
    using that by (induction es arbitrary: s) (simp_all add: tracking_force_erase)
  then show ?thesis unfolding permissionChangedHandler_def by (rule keeps_modifyA)
qed

lemma tracking_quota [keeps_intros]: "keeps tracking_inv (quotaExeededHandler es)"
  unfolding quotaExeededHandler_def
  by (rule keeps_modifyA) (simp add: disableSpaces_def tracking_inv_def subs_ok_def)

lemma tracking_removed [keeps_intros]:
  assumes "\<And>p s. tracking_inv s \<Longrightarrow> tracking_inv (env_remove env p s)"
  shows "keeps tracking_inv (file_removed env u)"
  unfolding file_removed_def using assms by (intro keeps_intros keeps_modifyA)

lemma tracking_read:
  assumes "fs_read env n off fi s = Some y"
  shows "tracking_inv s \<longrightarrow> tracking_inv (snd y)"
  using _ assms
proof (rule fs_read.raw_induct, goal_cases)
  case (1 rd env n off fi s y)
  show ?case
  proof
    assume inv: "tracking_inv s"
    obtain r1 s1 where p: "read_prepare env n off fi s = (r1, s1)" by force
    have i1: "tracking_inv s1" by (rule keepsD [OF tracking.read_prepare inv p])
    show "tracking_inv (snd y)"
    proof (cases "\<exists>j. r1 = Inr (Some j)")
      case True
      then obtain j where j: "r1 = Inr (Some j)" by blast
      obtain r2 s2 where t: "read_try env off j s1 = (r2, s2)" by force
      have i2: "tracking_inv s2" by (rule keepsD [OF tracking.read_try i1 t])
      have IH: "tracking_inv s \<Longrightarrow> rd env k off fi s = Some y \<Longrightarrow> tracking_inv (snd y)" for k s y
        using 1(1) by blast
      have again: "tracking_inv (snd y)"
        if "(if falls_back x (rj_uuid j) s then rd env (rj_size j) off fi (on_force (force_insert (rj_uuid j)) s)
          else Some (Inl x, s)) = Some y" "tracking_inv s" for x s y
        using that IH [OF tracking_force_insert] by (cases "falls_back x (rj_uuid j) s") auto
      consider (bytes) d where "r2 = Inr (Bytes d)" | (corrupted) "r2 = Inr Corrupted" | (error) x where "r2 = Inl x"
        by (cases r2) (auto intro: read_outcome.exhaust)
      then show ?thesis
      proof cases
        case bytes
        then show ?thesis using 1(2) p j t i2 by auto
      next
        case corrupted
        then obtain r3 s3 where rd: "rd env (rj_size j) off fi s2 = Some (r3, s3)"
          using 1(2) p j t by (auto simp: bind_eq_Some_conv)
        have "tracking_inv s3" using IH [OF i2 rd] by simp
        then show ?thesis using 1(2) p j t corrupted rd again [of _ s3 y] by (cases r3) auto
      next
        case (error x)
        then show ?thesis using 1(2) p j t i2 again [of x s2 y] by simp
      qed
    next
      case False
      then show ?thesis using 1(2) p i1 by (auto split: sum.splits option.splits)
    qed
  qed
qed

lemma tracking_write:
  assumes "fs_write env buf off fi s = Some y"
  shows "tracking_inv s \<longrightarrow> tracking_inv (snd y)"
  using _ assms
proof (rule fs_write.raw_induct, goal_cases)
  case (1 wr env buf off fi s y)
  show ?case
  proof
    assume inv: "tracking_inv s"
    obtain r1 s1 where p: "write_prepare env buf off fi s = (r1, s1)" by force
    have i1: "tracking_inv s1" by (rule keepsD [OF tracking.write_prepare inv p])
    show "tracking_inv (snd y)"
    proof (cases "\<exists>j. r1 = Inr (Some j)")
      case True
      then obtain j where j: "r1 = Inr (Some j)" by blast
      obtain r2 s2 where t: "on_world (env_write env (wj_helper j) (wj_ctx j) (fb_fileId (wj_block j)) (wj_buf j) off) s1 = (r2, s2)"
        by force
      have i2: "tracking_inv s2" by (rule keepsD [OF tracking.on_world i1 t])
      have IH: "tracking_inv s \<Longrightarrow> wr env b off fi s = Some y \<Longrightarrow> tracking_inv (snd y)" for b s y
        using 1(1) by blast
      have fin: "tracking_inv (snd (write_finish env off j k s2))" for k
        by (rule keeps_snd [OF tracking.write_finish i2])
      show ?thesis
        using 1(2) p j t i2 inv fin IH [OF tracking_force_insert [OF i2, of "wj_uuid j"], of "wj_buf j" y]
        by (cases r2) (auto split: if_splits)
    next
      case False
      then show ?thesis using 1(2) p i1 inv by (auto split: sum.splits option.splits if_splits)
    qed
  qed
qed

lemma tracking_readdir_loop:
  assumes "readdir_loop env full p u off es s = Some y"
  shows "tracking_inv s \<longrightarrow> tracking_inv (snd y)"
  using _ assms
proof (rule readdir_loop.raw_induct, goal_cases)
  case (1 rd env full p u off es s y)
  show ?case
  proof
    assume inv: "tracking_inv s"
    obtain r1 s1 where c: "readdir_chunk env full p u off es s = (r1, s1)" by force
    have "tracking_inv s1" by (rule keepsD [OF tracking.readdir_chunk inv c])
    then have "rd env full p u off' es' s1 = Some y \<Longrightarrow> tracking_inv (snd y)" for off' es'
      using 1(1) by blast
    with \<open>tracking_inv s1\<close> show "tracking_inv (snd y)"
      using 1(2) c by (auto split: sum.splits if_splits)
  qed
qed

lemma tracking_readdir:
  assumes "fs_readdir env full p s = Some y" and inv: "tracking_inv s"
  shows "tracking_inv (snd y)"
proof -
  obtain r1 s1 where c: "readdir_start env full p s = (r1, s1)" by force
  have "tracking_inv s1" by (rule keepsD [OF tracking.readdir_start inv c])
  then show ?thesis
    using assms(1) c tracking_readdir_loop [of env full p _ 0 _ s1 y] by (auto simp: fs_readdir_def split: sum.splits)
qed

text \<open>Renames to file ids that are not tracked yet, all different from each other.\<close>

definition fresh_targets :: "(uuid \<times> uuid) list \<Rightarrow> ('w, 'm, 'h) FsLogic \<Rightarrow> bool" where
  "fresh_targets changes s \<longleftrightarrow> distinct (map snd changes) \<and>
     (\<forall>(old, new) \<in> set changes. new \<notin> tracked (m_attrExpirationHelper s))"

lemma fresh_targets_Cons:
  assumes "fresh_targets ((old, new) # changes) s"
    and "tracked (m_attrExpirationHelper s') \<subseteq> insert new (tracked (m_attrExpirationHelper s))"
  shows "fresh_targets changes s'"
  using assms by (force simp: fresh_targets_def)

lemma tracking_rename_interests:
  assumes "tracking_inv s" "fresh_targets changes s"
  shows "tracking_inv (snd (rename_interests env changes s))"
  using assms
proof (induction changes arbitrary: s)
  case (Cons ch changes)
  obtain old new where ch: "ch = (old, new)" by force
  let ?m = "on_attr (rename_key old new (recache_attr env old new))"
  have n: "old = new \<or> new \<notin> tracked (m_attrExpirationHelper s)"
    using Cons.prems(2) ch by (simp add: fresh_targets_def)
  have i: "tracking_inv (snd (?m s))" by (rule tracking_rename_key [OF Cons.prems(1) n])
  have f: "fresh_targets changes (snd (?m s))"
    by (rule fresh_targets_Cons [OF Cons.prems(2) [unfolded ch] tracked_rename_key [OF n]])
  show ?case using Cons.IH [OF i f] i ch by (auto simp: bindA_def split: prod.split sum.split)
qed (simp add: returnA_def)

lemma exps_remap:
  "m_attrExpirationHelper (snd (on_meta env m s)) = m_attrExpirationHelper s"
  by (simp add: on_meta_def split: prod.split)

lemma tracking_entries_renamed:
  assumes "tracking_inv s" "fresh_targets (map (\<lambda>e. (fre_oldUuid e, fre_newUuid e)) es) s"
  shows "tracking_inv (snd (entries_renamed env es s))"
  using assms
proof (induction es arbitrary: s)
  case (Cons e es)
  let ?old = "fre_oldUuid e" and ?new = "fre_newUuid e"
  let ?r = "on_meta env (\<lambda>_. remapFile ?old ?new (fre_newPath e))"
  let ?m = "on_attr (rename_key ?old ?new (recache_attr env ?old ?new))"
  define s1 where "s1 = snd (?r s)"
  have i1: "tracking_inv s1" unfolding s1_def by (rule keeps_snd [OF tracking.on_meta Cons.prems(1)])
  have a1: "m_attrExpirationHelper s1 = m_attrExpirationHelper s" by (simp add: s1_def exps_remap)
  have n: "?old = ?new \<or> ?new \<notin> tracked (m_attrExpirationHelper s1)"
    using Cons.prems(2) a1 by (simp add: fresh_targets_def)
  have i2: "tracking_inv (snd (?m s1))" by (rule tracking_rename_key [OF i1 n])
  have fs: "fresh_targets ((?old, ?new) # map (\<lambda>e. (fre_oldUuid e, fre_newUuid e)) es) s1"
    using Cons.prems(2) a1 by (simp add: fresh_targets_def)
  have "tracking_inv (snd (entries_renamed env es (snd (?m s1))))"
    by (rule Cons.IH [OF i2 fresh_targets_Cons [OF fs tracked_rename_key [OF n]]])
  then show ?case using i1 i2
    by (auto simp: entry_renamed_def bindA_def s1_def split: prod.split sum.split)
qed (simp add: returnA_def)

section \<open>Runs of the file system\<close>

datatype 'm fs_call =
    CallGetattr path
  | CallMknod path mask
  | CallMkdir path mask
  | CallUnlink path
  | CallChmod path mask
  | CallTruncate path off_t
  | CallUtime path int int
  | CallReaddir "string list \<Rightarrow> bool" path
  | CallOpen path fuse_file_info
  | CallCreate path mask fuse_file_info
  | CallRead nat off_t fuse_file_info
  | CallWrite string off_t fuse_file_info
  | CallRelease path fuse_file_info
  | CallTick
  | AttrEvents "FileAttr UpdateEvent list"
  | LocationEvents "'m FileLocation UpdateEvent list"
  | PermissionEvents "PermissionChangedEvent list"
  | QuotaEvents "QuotaExeededEvent list"
  | RemovalEvents "FileRemovalEvent list"

fun fs_do :: "('w, 'm, 'h) fs_env \<Rightarrow> 'm fs_call \<Rightarrow> ('w, 'm, 'h) FsLogic \<Rightarrow> ('w, 'm, 'h) FsLogic option" where
  "fs_do env (CallGetattr p) s = Some (snd (fs_getattr env p s))"
| "fs_do env (CallMknod p mode) s = Some (snd (fs_mknod env p mode s))"
| "fs_do env (CallMkdir p mode) s = Some (snd (fs_mkdir env p mode s))"
| "fs_do env (CallUnlink p) s = Some (snd (fs_unlink env p s))"
| "fs_do env (CallChmod p mode) s = Some (snd (fs_chmod env p mode s))"
| "fs_do env (CallTruncate p n) s = Some (snd (fs_truncate env p n s))"
| "fs_do env (CallUtime p a m) s = Some (snd (fs_utime env p a m s))"
| "fs_do env (CallReaddir full p) s = map_option snd (fs_readdir env full p s)"
| "fs_do env (CallOpen p fi) s = Some (snd (fs_open env p fi s))"
| "fs_do env (CallCreate p mode fi) s = Some (snd (fs_create env p mode fi s))"
| "fs_do env (CallRead n off fi) s = map_option snd (fs_read env n off fi s)"
| "fs_do env (CallWrite buf off fi) s = map_option snd (fs_write env buf off fi s)"
| "fs_do env (CallRelease p fi) s = Some (snd (fs_release env p fi s))"
| "fs_do env CallTick s = Some (cacheExpirationTick s)"
| "fs_do env (AttrEvents es) s = Some (snd (fileAttrHandler (env_icl env) es s))"
| "fs_do env (LocationEvents es) s = Some (snd (fileLocationHandler es s))"
| "fs_do env (PermissionEvents es) s = Some (snd (permissionChangedHandler es s))"
| "fs_do env (QuotaEvents es) s = Some (snd (quotaExeededHandler es s))"
| "fs_do env (RemovalEvents es) s = Some (snd (fileRemovalHandler env es s))"

text \<open>
  A run: calls, renames, and what other threads do to the event manager, the helpers cache and the
  metadata meanwhile. The handler of rename events is such a change of the metadata (it marks the
  entry), then a call of the kernel, then \<open>entries_renamed\<close>. Renames are to file ids that are not
  tracked yet; below it is shown what happens otherwise.
\<close>

inductive fs_run :: "('w, 'm, 'h) fs_env \<Rightarrow> ('w, 'm, 'h) FsLogic \<Rightarrow> bool" for env where
  run_start: "fs_run env (FsLogic_init w subscriptions spaces)"
| run_call: "fs_run env s \<Longrightarrow> fs_do env call s = Some s' \<Longrightarrow> fs_run env s'"
| run_rename: "fs_run env s \<Longrightarrow>
    (\<And>changes t. on_meta env (\<lambda>p. rename p old new) s = (Inr changes, t) \<Longrightarrow> fresh_targets changes s) \<Longrightarrow>
    fs_run env (snd (fs_rename env old new s))"
| run_entries_renamed: "fs_run env s \<Longrightarrow> fresh_targets (map (\<lambda>e. (fre_oldUuid e, fre_newUuid e)) es) s \<Longrightarrow>
    fs_run env (snd (entries_renamed env es s))"
| run_others: "fs_run env s \<Longrightarrow> fs_run env (s\<lparr>m_eventManager := M, m_helpersCache := hc, m_metadataCache := c\<rparr>)"

text \<open>What the kernel does with \<open>remove\<close> on the mount point: nothing, or it has the client unlink a path.\<close>

definition kernel_unlinks :: "('w, 'm, 'h) fs_env \<Rightarrow> bool" where
  "kernel_unlinks env \<longleftrightarrow> (\<forall>p s. env_remove env p s = s \<or> (\<exists>q. env_remove env p s = snd (fs_unlink env q s)))"

lemma tracking_removal_events:
  assumes "kernel_unlinks env"
  shows "keeps tracking_inv (fileRemovalHandler env es)"
proof -
  have "tracking_inv (env_remove env p s)" if "tracking_inv s" for p s
    using assms that keeps_snd [OF tracking_unlink] unfolding kernel_unlinks_def by metis
  then show ?thesis
    by (induction es) (auto intro!: keeps_intros)
qed

lemma tracking_do:
  assumes "kernel_unlinks env" "tracking_inv s" "fs_do env call s = Some s'"
  shows "tracking_inv s'"
proof -
  note k = tracking_getattr tracking.fs_mknod tracking.fs_mkdir tracking_unlink tracking.fs_chmod tracking.fs_truncate
    tracking.fs_utime tracking_open tracking_create tracking_release tracking.fileAttrHandler
    tracking.fileLocationHandler tracking_permissionChanged tracking_quota tracking_removal_events [OF assms(1)]
  note k' = k [THEN keeps_snd, OF assms(2)]
  show ?thesis
  proof (cases call)
    case (CallReaddir full p)
    then show ?thesis using assms(2,3) tracking_readdir by auto
  next
    case (CallRead n off fi)
    then show ?thesis using assms(2,3) tracking_read [of env n off fi s] by (cases "fs_read env n off fi s") auto
  next
    case (CallWrite buf off fi)
    then show ?thesis using assms(2,3) tracking_write [of env buf off fi s] by (cases "fs_write env buf off fi s") auto
  next
    case CallTick
    then show ?thesis using assms(2,3) tracking_tick by auto
  qed (use assms(3) k' in auto)
qed

lemma tracking_start: "tracking_inv (FsLogic_init w subscriptions spaces)"
  by (auto simp: FsLogic_init_def disableSpaces_def tracking_inv_def subs_ok_def attr_subs_def on_subs_def
      addQuotaSubscription_def FsSubscriptions_init_def split: prod.split)

lemma tracking_rename:
  assumes "tracking_inv s"
    and "\<And>changes t. on_meta env (\<lambda>p. rename p old new) s = (Inr changes, t) \<Longrightarrow> fresh_targets changes s"
  shows "tracking_inv (snd (fs_rename env old new s))"
proof -
  obtain r t where m: "on_meta env (\<lambda>p. rename p old new) s = (r, t)" by force
  have i: "tracking_inv t" by (rule keepsD [OF tracking.on_meta assms(1) m])
  have a: "m_attrExpirationHelper t = m_attrExpirationHelper s" using exps_remap [of env _ s] m by (metis snd_conv)
  show ?thesis
  proof (cases r)
    case (Inr changes)
    then have "fresh_targets changes t" using assms(2) m a by (simp add: fresh_targets_def)
    then show ?thesis using tracking_rename_interests [OF i] m Inr by (simp add: fs_rename_def bindA_def)
  qed (use m i in \<open>simp add: fs_rename_def bindA_def\<close>)
qed

lemma tracking_run:
  assumes "fs_run env s" "kernel_unlinks env"
  shows "tracking_inv s"
  using assms(1)
proof (induction rule: fs_run.induct)
  case (run_start w subscriptions spaces)
  show ?case by (rule tracking_start)
next
  case (run_call s call s')
  then show ?case using tracking_do [OF assms(2)] by blast
next
  case (run_rename s old new)
  then show ?case by (intro tracking_rename)
next
  case (run_entries_renamed s es)
  then show ?case by (intro tracking_entries_renamed)
next
  case (run_others s M hc c)
  then show ?case by (simp add: tracking_inv_def subs_ok_def)
qed


lemma example_kernel: "kernel_unlinks example_env"
  by (simp add: kernel_unlinks_def example_env_def)

text \<open>The state after a look at a file.\<close>

definition looked_up :: "path \<Rightarrow> (nat, point_map, string) FsLogic \<Rightarrow> (nat, point_map, string) FsLogic" where
  "looked_up p s = snd (fs_getattr example_env p s)"

abbreviation example_start :: "(nat, point_map, string) FsLogic" where
  "example_start \<equiv> FsLogic_init 0 no_subscriptions []"

lemma example_start_fields:
  "m_attrExpirationHelper example_start = CacheExpirationHelper_init 30"
  "m_metadataCache example_start = MetadataCache_init"
  "m_fileAttrSubscriptions (m_fsSubscriptions example_start) = Map.empty"
  by (simp_all add: FsLogic_init_def disableSpaces_def on_subs_def addQuotaSubscription_def FsSubscriptions_init_def split: prod.split)

lemma add_attr_subs_attr: "m_fileAttrSubscriptions (fst (add_attr_subs u p)) u \<noteq> None"
proof -
  have "u \<in> dom (m_fileAttrSubscriptions (fst (add_attr_subs u p)))" by (simp add: add_attr_subs_def)
  then show ?thesis by blast
qed

lemma getattr_subscribes:
  assumes meta: "getAttr_path (env_provider env (world s)) path (m_metadataCache s) = (Inr attr, c)"
    and sz: "fa_size attr \<noteq> None" and new: "m_expDetails (m_attrExpirationHelper s) (fa_uuid attr) = None"
    and again: "getAttr_uuid (env_provider env (world s)) (fa_uuid attr) c = (Inr a, c')"
  shows "m_fileAttrSubscriptions (m_fsSubscriptions (snd (fs_getattr env path s))) (fa_uuid attr) \<noteq> None"
proof -
  let ?u = "fa_uuid attr"
  let ?s1 = "s\<lparr>m_metadataCache := c\<rparr>"
  obtain n where n: "fa_size attr = Some n" using sz by blast
  have ca: "cache_attr env ?u ?s1 = (Inr (), on_subs (add_attr_subs ?u) (?s1\<lparr>m_metadataCache := c'\<rparr>))"
    using again by (simp add: cache_attr_def on_meta_def bindA_def modifyA_def)
  obtain r h s2 where m: "markInteresting ?u (cache_attr env ?u) (m_attrExpirationHelper ?s1, ?s1) = (r, (h, s2))"
    by (metis prod.exhaust)
  have "s2 = snd (cache_attr env ?u ?s1)"
    using m new ca by (auto simp: markInteresting_def track_def bindA_def Let_def split: if_splits prod.splits)
  then have "m_fileAttrSubscriptions (m_fsSubscriptions s2) ?u \<noteq> None" using ca add_attr_subs_attr by simp
  then show ?thesis
    using meta m n by (auto simp: fs_getattr_def on_meta_def on_attr_def bindA_def returnA_def split: sum.split)
qed


section \<open>A rename to a tracked file\<close>

lemma tick_keeps_untracked_subscription:
  fixes s :: "('w, 'm, 'h) FsLogic"
  assumes "old \<notin> tracked (m_attrExpirationHelper s)" "m_fileAttrSubscriptions (m_fsSubscriptions s) old = Some i"
  shows "old \<notin> tracked (m_attrExpirationHelper (cacheExpirationTick s)) \<and>
    m_fileAttrSubscriptions (m_fsSubscriptions (cacheExpirationTick s)) old = Some i"
proof -
  have remove: "m_fileAttrSubscriptions (fst (remove_attr_subs k p)) old = m_fileAttrSubscriptions (fst p) old" if "k \<noteq> old" for k and p :: "'m fs_subs"
    using that by (cases p) (auto simp: remove_attr_subs_def remove_defs split: option.split)
  define Q :: "uuid CacheExpirationHelper \<times> ('w, 'm, 'h) FsLogic \<Rightarrow> bool" where "Q = (\<lambda>(h, t). m_attrExpirationHelper t = m_attrExpirationHelper s \<and>
    m_fileAttrSubscriptions (m_fsSubscriptions t) old = Some i)"
  obtain h s1 where t1: "tick purge_location (m_locExpirationHelper s, s) = (h, s1)" by force
  have "Q (tick purge_location (m_locExpirationHelper s, s))"
    by (rule tick_keeps [where Q = Q]) (use assms(2) in \<open>auto simp: Q_def purge_location_def\<close>)
  then have 1: "m_attrExpirationHelper s1 = m_attrExpirationHelper s" "m_fileAttrSubscriptions (m_fsSubscriptions s1) old = Some i"
    using t1 by (simp_all add: Q_def)
  define R :: "uuid CacheExpirationHelper \<times> ('w, 'm, 'h) FsLogic \<Rightarrow> bool" where "R = (\<lambda>(g, t). old \<notin> tracked g \<and> m_fileAttrSubscriptions (m_fsSubscriptions t) old = Some i)"
  let ?s2 = "s1\<lparr>m_locExpirationHelper := h\<rparr>"
  obtain g s3 where t3: "tick purge_attr (m_attrExpirationHelper ?s2, ?s2) = (g, s3)" by force
  have "R (tick purge_attr (m_attrExpirationHelper ?s2, ?s2))"
  proof (rule tick_keeps [where Q = R])
    show "R (drop_details k g, purge_attr k t)" if "R (g, t)" "k \<in> tracked g" for k g t
      using that remove [of k "(m_fsSubscriptions t, m_eventManager t)"] by (auto simp: R_def purge_attr_def)
  qed (use assms(1) 1 in \<open>auto simp: R_def\<close>)
  then show ?thesis using t1 t3 by (simp add: R_def cacheExpirationTick_def)
qed

lemma ticks_keep_untracked_subscription:
  assumes "old \<notin> tracked (m_attrExpirationHelper s)" "m_fileAttrSubscriptions (m_fsSubscriptions s) old = Some i"
  shows "old \<notin> tracked (m_attrExpirationHelper ((cacheExpirationTick ^^ n) s)) \<and>
    m_fileAttrSubscriptions (m_fsSubscriptions ((cacheExpirationTick ^^ n) s)) old = Some i"
  using assms by (induction n) (simp_all add: tick_keeps_untracked_subscription)

lemma rename_key_tracked:
  assumes "old \<noteq> new" "m_expDetails h old \<noteq> None" "m_expDetails h new \<noteq> None"
  shows "\<exists>h'. rename_key old new c (h, s) = (Inr (), (h', s)) \<and> old \<notin> tracked h'"
proof -
  have "\<exists>h'. rename_locked old new True c (h, s) = (Inr (), (h', s)) \<and> old \<notin> tracked h'"
    using assms(1) by (simp add: rename_locked_def Let_def)
  moreover have "rename_key old new c (h, s) = rename_locked old new True c (h, s)"
    using assms by (auto simp: rename_key_def)
  ultimately show ?thesis by simp
qed

text \<open>
  C39. When a rename gives a file an id that is tracked already, the subscriptions of the old id are
  forgotten: the file is no longer tracked, its subscription is still there, and no number of ticks
  removes it.
\<close>

theorem rename_to_tracked_file_leaks:
  assumes meta: "on_meta env (\<lambda>p. rename p oldPath newPath) s = (Inr [(old, new)], t)"
    and "old \<noteq> new" "m_expDetails (m_attrExpirationHelper s) old \<noteq> None" "m_expDetails (m_attrExpirationHelper s) new \<noteq> None"
    and sub: "m_fileAttrSubscriptions (m_fsSubscriptions s) old = Some i"
  shows "\<exists>s'. fs_rename env oldPath newPath s = (Inr (), s') \<and> m_expDetails (m_attrExpirationHelper s') old = None \<and>
    (\<forall>n. m_fileAttrSubscriptions (m_fsSubscriptions ((cacheExpirationTick ^^ n) s')) old = Some i)"
proof -
  have t: "m_attrExpirationHelper t = m_attrExpirationHelper s" "m_fsSubscriptions t = m_fsSubscriptions s"
    using meta by (auto simp: on_meta_def split: prod.splits)
  obtain h where h: "rename_key old new (recache_attr env old new) (m_attrExpirationHelper t, t) = (Inr (), (h, t))" "old \<notin> tracked h"
    using rename_key_tracked assms(2-4) t(1) by metis
  let ?s' = "t\<lparr>m_attrExpirationHelper := h\<rparr>"
  have "fs_rename env oldPath newPath s = (Inr (), ?s')"
    using meta h(1) by (simp add: fs_rename_def bindA_def on_attr_def returnA_def)
  moreover have "m_fileAttrSubscriptions (m_fsSubscriptions ((cacheExpirationTick ^^ n) ?s')) old = Some i" for n
    using ticks_keep_untracked_subscription [of old ?s' i n] h(2) sub t(2) by simp
  ultimately show ?thesis using h(2) by (auto simp: tracked_None)
qed

definition leaky_state :: "(nat, point_map, string) FsLogic" where
  "leaky_state = example_start\<lparr>m_metadataCache := example_cache,
     m_attrExpirationHelper := put_details ''old'' \<lparr>pinnedCount = 0, bucket = Some 29\<rparr>
       (put_details ''new'' \<lparr>pinnedCount = 0, bucket = Some 29\<rparr> (CacheExpirationHelper_init 30)),
     m_fsSubscriptions := FsSubscriptions_init\<lparr>m_fileAttrSubscriptions := [''old'' \<mapsto> - 2]\<rparr>\<rparr>"

definition renaming_env :: "(nat, point_map, string) fs_env" where
  "renaming_env = example_env\<lparr>env_provider := \<lambda>_. example_provider\<lparr>pr_rename := \<lambda>u p.
     Inr \<lparr>fr_newUuid = p, fr_childEntries = []\<rparr>\<rparr>\<rparr>"

theorem rename_to_tracked_file_leaks_witness:
  "\<exists>s'. fs_rename renaming_env ''old'' ''new'' leaky_state = (Inr (), s') \<and>
     m_fileAttrSubscriptions (m_fsSubscriptions ((cacheExpirationTick ^^ 100) s')) ''old'' = Some (- 2)"
proof -
  have "\<exists>t. on_meta renaming_env (\<lambda>p. rename p ''old'' ''new'') leaky_state = (Inr [(''old'', ''new'')], t)"
    by (simp add: on_meta_def leaky_state_def renaming_env_def rename_def rename_answered_def remapFile_acc_def
        example_cache_entries acc_getAttr_path_def acc_getAttr_uuid_def insert_path_def set_path_def set_meta_def
        meta_or_new_def example_attr_def Let_def)
  then obtain t where "on_meta renaming_env (\<lambda>p. rename p ''old'' ''new'') leaky_state = (Inr [(''old'', ''new'')], t)" ..
  from rename_to_tracked_file_leaks [OF this, of "- 2"] show ?thesis
    by (force simp: leaky_state_def put_details_def)
qed

end
