(* ===== verification/OC_FsEffects.thy ===== *)
theory OC_FsEffects
  imports OC_FsInvariants
begin

text \<open>
  What writing, listing and changing times do: where the bytes of a write go and what the caches
  record of it, that a listing is complete, and which times are cached.
\<close>

section \<open>Where a write goes\<close>

lemma lower_bound_find: "icl_lower_bound I m x = find (\<lambda>s. x < snd (fst s)) (icl_segments I m)"
  by (simp add: icl_lower_bound_def case_prod_unfold)

context interval_map
begin

lemma lower_bound_Some:
  assumes "icl_lower_bound I m x = Some (i, v)"
  shows "(i, v) \<in> set (icl_segments I m)" "x < snd i" "\<And>y. x \<le> y \<Longrightarrow> y < fst i \<Longrightarrow> icl_at I m y = None"
proof -
  let ?ss = "icl_segments I m"
  have "find (\<lambda>s. x < snd (fst s)) ?ss = Some (i, v)" using assms by (simp only: lower_bound_find)
  then obtain k where k: "k < length ?ss" "?ss ! k = (i, v)" "x < snd i" "\<And>j. j < k \<Longrightarrow> snd (fst (?ss ! j)) \<le> x"
    unfolding find_Some_iff by (metis fst_conv not_less)
  show mem: "(i, v) \<in> set ?ss" using k(1,2) by (metis nth_mem)
  show "x < snd i" by (rule k(3))
  show "icl_at I m y = None" if y: "x \<le> y" "y < fst i" for y
  proof (rule ccontr)
    assume "icl_at I m y \<noteq> None"
    then obtain j w where jw: "(j, w) \<in> set ?ss" "interval_mem y j" using at_segment by fastforce
    then obtain n where n: "n < length ?ss" "?ss ! n = (j, w)" by (metis in_set_conv_nth)
    have sw: "sorted_wrt (\<lambda>s t. snd (fst s) \<le> fst (fst t)) ?ss" using segments_ok by (simp add: segments_ok_def)
    consider "n < k" | "n = k" | "k < n" by linarith
    then show False
    proof cases
      case 1
      then show False using k(4) n jw(2) y(1) by (fastforce simp: interval_mem_def)
    next
      case 2
      then show False using n k(2) jw(2) y(2) by (simp add: interval_mem_def)
    next
      case 3
      then have "snd i \<le> fst j" using sorted_wrt_nth_less [OF sw 3 n(1)] n k(2) by simp
      moreover have "fst i < snd i" using mem segments_ok [of m] by (auto simp: segments_ok_def)
      ultimately show False using jw(2) y(2) by (simp add: interval_mem_def)
    qed
  qed
qed

lemma lower_bound_None:
  assumes "icl_lower_bound I m x = None" "x \<le> y"
  shows "icl_at I m y = None"
proof (rule ccontr)
  assume "icl_at I m y \<noteq> None"
  then obtain j w where "(j, w) \<in> set (icl_segments I m)" "interval_mem y j" using at_segment by fastforce
  moreover have "\<not> x < snd (fst s)" if "s \<in> set (icl_segments I m)" for s
    using assms(1) that unfolding lower_bound_find find_None_iff by blast
  ultimately show False using assms(2) by (fastforce simp: interval_mem_def)
qed

end

lemma findWriteLocation_nonempty:
  assumes "buf \<noteq> []"
  shows "snd (findWriteLocation I l off buf) \<noteq> []"
proof (cases "icl_lower_bound I (fl_blocks l) off")
  case None
  then show ?thesis using assms by (simp add: findWriteLocation_def Let_def)
next
  case (Some s)
  obtain i v where s: "s = (i, v)" by (cases s)
  have "off < snd (fst s)"
    using Some unfolding lower_bound_find find_Some_iff by auto
  with s have iv: "s = (i, v)" "off < snd i" by simp_all
  show ?thesis
    using Some iv assms
    by (auto simp: findWriteLocation_def Let_def interval_mem_def interval_size_def interval_meet_def min_le_iff_disj)
qed

text \<open>
  C19. The bytes that \<open>write\<close> takes on in one go are a non-empty prefix of the buffer, and they all
  lie in one place: either every one of their offsets is in the block that is written to, or none
  of them is in any block and the default storage and file of the location are used.
\<close>

theorem write_stays_in_one_block:
  assumes "interval_map I" "buf \<noteq> []" "findWriteLocation I l off buf = (b, buf')"
  shows "buf' \<noteq> [] \<and> (\<exists>rest. buf = buf' @ rest) \<and>
    ((\<forall>x. off \<le> x \<and> x < off + int (length buf') \<longrightarrow> icl_at I (fl_blocks l) x = Some b) \<or>
     (\<forall>x. off \<le> x \<and> x < off + int (length buf') \<longrightarrow> icl_at I (fl_blocks l) x = None) \<and>
     b = \<lparr>fb_storageId = fl_storageId l, fb_fileId = fl_fileId l\<rparr>)"
proof -
  have ne: "buf' \<noteq> []" using findWriteLocation_nonempty [OF assms(2), of I l off] assms(3) by simp
  have pre: "\<exists>rest. buf = buf' @ rest"
    using assms(3)
    by (auto simp: findWriteLocation_def Let_def split: option.splits if_splits) (metis append_take_drop_id)+
  have "(\<forall>x. off \<le> x \<and> x < off + int (length buf') \<longrightarrow> icl_at I (fl_blocks l) x = Some b) \<or>
     (\<forall>x. off \<le> x \<and> x < off + int (length buf') \<longrightarrow> icl_at I (fl_blocks l) x = None) \<and>
     b = \<lparr>fb_storageId = fl_storageId l, fb_fileId = fl_fileId l\<rparr>"
  proof (cases "icl_lower_bound I (fl_blocks l) off")
    case None
    then show ?thesis
      using assms(3) interval_map.lower_bound_None [OF assms(1) None] by (simp add: findWriteLocation_def Let_def)
  next
    case (Some s)
    obtain i v where s: "s = (i, v)" by (cases s)
    note lb = interval_map.lower_bound_Some [OF assms(1) Some [unfolded s]]
    show ?thesis
    proof (cases "interval_mem off i")
      case True
      then have b: "b = v" and len: "off + int (length buf') \<le> snd i"
        using assms(3) Some s by (auto simp: findWriteLocation_def Let_def interval_mem_def interval_size_def interval_meet_def)
      have "icl_at I (fl_blocks l) x = Some b" if "off \<le> x" "x < off + int (length buf')" for x
      proof -
        have "interval_mem x i" using that len True by (simp add: interval_mem_def)
        then show ?thesis using interval_map.at_segment [OF assms(1)] lb(1) b by blast
      qed
      then show ?thesis by blast
    next
      case False
      then have "b = \<lparr>fb_storageId = fl_storageId l, fb_fileId = fl_fileId l\<rparr>" and "off + int (length buf') \<le> fst i"
        using assms(3) Some s lb(2)
        by (auto simp: findWriteLocation_def Let_def interval_mem_def interval_size_def interval_meet_def)
      then show ?thesis using lb(3) by auto
    qed
  qed
  then show ?thesis using ne pre by blast
qed

theorem write_stays_in_one_block_witness:
  "\<exists>b buf'. findWriteLocation pm_icl example_location 0 ''xy'' = (b, buf') \<and> buf' \<noteq> [] \<and> (\<exists>rest. ''xy'' = buf' @ rest)"
proof -
  obtain b buf' where "findWriteLocation pm_icl example_location 0 ''xy'' = (b, buf')" by force
  with write_stays_in_one_block [OF pm.interval_map_axioms, of "''xy''" example_location 0 b buf'] show ?thesis by blast
qed

section \<open>What a write leaves in the caches\<close>

lemma meta_or_new_set [simp]: "meta_or_new u (set_meta u (Some md) c) = md"
  by (simp add: meta_or_new_def set_meta_def)

lemma meta_or_new_update [simp]: "meta_or_new u (update_meta u f c) = f (meta_or_new u c)"
  by (simp add: update_meta_def)

lemma metaCache_update [simp]: "m_metaCache (update_meta u f c) u = Some (f (meta_or_new u c))"
  by (simp add: update_meta_def set_meta_def)

lemma acc_getLocation_attr:
  "acc_getLocation S u flags c = (Inr (), c') \<Longrightarrow> md_attr (meta_or_new u c') = md_attr (meta_or_new u c)"
  by (auto simp: acc_getLocation_def split: if_splits sum.splits)

text \<open>When a computation succeeds, and what the state is then.\<close>

lemma basic_Inr:
  "returnA x s = (Inr y, t) \<longleftrightarrow> y = x \<and> t = s"
  "throwA e s \<noteq> (Inr y, t)"
  "getA f s = (Inr z, t) \<longleftrightarrow> z = f s \<and> t = s"
  "modifyA g s = (Inr w, t) \<longleftrightarrow> t = g s"
  "liftA r s = (Inr v, t) \<longleftrightarrow> r = Inr v \<and> t = s"
  by (auto simp: act_defs liftA_def)

lemma on_meta_Inr:
  "on_meta env m s = (Inr x, t) \<longleftrightarrow>
     (\<exists>c. m (env_provider env (world s)) (m_metadataCache s) = (Inr x, c) \<and> t = s\<lparr>m_metadataCache := c\<rparr>)"
  by (auto simp: on_meta_def split: prod.splits)

lemma cached_attr_Inr:
  "cached_attr u s = (Inr a, t) \<longleftrightarrow> md_attr (meta_or_new u (m_metadataCache s)) = Some a \<and> t = s"
  by (auto simp: cached_attr_def split: option.splits)

lemma update_attr_Inr:
  "update_attr u f s = (Inr w, t) \<longleftrightarrow>
     t = s\<lparr>m_metadataCache := update_meta u (\<lambda>md. md\<lparr>md_attr := map_option f (md_attr md)\<rparr>) (m_metadataCache s)\<rparr>"
  by (auto simp: update_attr_def set_cache_def modifyA_def)

lemma update_location_Inr:
  "update_location u k f s = (Inr w, t) \<longleftrightarrow>
     (\<exists>l. md_locations (meta_or_new u (m_metadataCache s)) k = Some l \<and>
       t = s\<lparr>m_metadataCache := update_meta u (\<lambda>md. md\<lparr>md_locations := (md_locations md)(k \<mapsto> f l)\<rparr>) (m_metadataCache s)\<rparr>)"
  by (auto simp: update_location_def set_cache_def bindA_Inr basic_Inr split: option.splits)

lemmas act_Inr = bindA_Inr basic_Inr on_meta_Inr cached_attr_Inr update_attr_Inr update_location_Inr

definition write_recorded :: "'m icl \<Rightarrow> uuid \<Rightarrow> Flag \<Rightarrow> off_t \<Rightarrow> int \<Rightarrow> 'm MetadataCache \<Rightarrow> bool" where
  "write_recorded I u k off n c \<longleftrightarrow> (\<exists>md a sz l. m_metaCache c u = Some md \<and> md_attr md = Some a \<and> fa_size a = Some sz \<and>
     off + n \<le> sz \<and> md_locations md k = Some l \<and> (\<forall>x. off \<le> x \<and> x < off + n \<longrightarrow> icl_at I (fl_blocks l) x \<noteq> None))"

lemma write_finish_recorded:
  assumes I: "interval_map (env_icl env)" and w: "write_finish env off j n s = (Inr r, s')"
  shows "r = int n \<and> write_recorded (env_icl env) (wj_uuid j) (filterFlagsForLocation (wj_flags j)) off r (m_metadataCache s')"
proof -
  let ?u = "wj_uuid j" and ?k = "filterFlagsForLocation (wj_flags j)"
  let ?b = "\<lambda>b. icl_add (env_icl env) b ((off, off + int n), wj_block j)"
  from w obtain S c2 a sz s4 l where r: "r = int n"
    and a: "md_attr (meta_or_new ?u c2) = Some a" "fa_size a = Some sz"
    and loc: "acc_getLocation S ?u (wj_flags j)
        (update_meta ?u (\<lambda>md. md\<lparr>md_attr := map_option (fa_size_update (\<lambda>_. Some (max sz (off + int n)))) (md_attr md)\<rparr>) c2)
        = (Inr (), s4)"
    and l: "md_locations (meta_or_new ?u s4) ?k = Some l"
    and s': "m_metadataCache s' = update_meta ?u (\<lambda>md. md\<lparr>md_locations := (md_locations md)(?k \<mapsto> fl_blocks_update ?b l)\<rparr>) s4"
    by (auto simp: write_finish_def act_Inr split: option.splits)
  have at: "icl_at (env_icl env) (?b m) x \<noteq> None" if "off \<le> x" "x < off + int n" for m x
    using that interval_map.at_add [OF I, of m "(off, off + int n)" "wj_block j" x]
    by (auto simp: interval_mem_def combine_at_def split: option.splits)
  have "md_attr (meta_or_new ?u s4) = Some (fa_size_update (\<lambda>_. Some (max sz (off + int n))) a)"
    using acc_getLocation_attr [OF loc] a(1) by simp
  then show ?thesis
    using r s' at by (simp add: write_recorded_def)
qed

text \<open>
  C21. A write that reports \<open>n\<close> bytes is recorded, also when it had to fall back to the provider: the
  cached attributes have a size that covers the bytes, and the location that the flags of the file
  select has a block at each of their offsets.
\<close>

theorem successful_write_recorded:
  fixes env :: "('w, 'm, 'h) fs_env"
  assumes "interval_map (env_icl env)" "fs_write env buf off fi s = Some (Inr n, s')" "buf \<noteq> []" "0 \<le> n"
    and "handle_of (fi_fh fi) u s" "maskToFlags (fi_flags fi) = Inr flags"
  shows "\<exists>md a sz l. m_metaCache (m_metadataCache s') u = Some md \<and> md_attr md = Some a \<and> fa_size a = Some sz \<and>
    off + n \<le> sz \<and> md_locations md (filterFlagsForLocation flags) = Some l \<and>
    (\<forall>x. off \<le> x \<and> x < off + n \<longrightarrow> icl_at (env_icl env) (fl_blocks l) x \<noteq> None)"
proof -
  define P :: "('w, 'm, 'h) fs_env \<Rightarrow> string \<Rightarrow> off_t \<Rightarrow> fuse_file_info \<Rightarrow> ('w, 'm, 'h) FsLogic \<Rightarrow> int res \<times> ('w, 'm, 'h) FsLogic \<Rightarrow> bool"
    where "P = (\<lambda>env buf off fi s y. interval_map (env_icl env) \<longrightarrow> buf \<noteq> [] \<longrightarrow> handle_of (fi_fh fi) u s \<longrightarrow>
    maskToFlags (fi_flags fi) = Inr flags \<longrightarrow> (\<forall>n s'. y = (Inr n, s') \<longrightarrow> 0 \<le> n \<longrightarrow>
      write_recorded (env_icl env) u (filterFlagsForLocation flags) off n (m_metadataCache s')))"
  have "P env buf off fi s (Inr n, s')"
    using _ assms(2)
  proof (rule fs_write.raw_induct [where P = P], goal_cases)
    case (1 wr env buf off fi s y)
    show ?case
      unfolding P_def
    proof (intro impI allI)
      fix n s'
      assume I: "interval_map (env_icl env)" and buf: "buf \<noteq> []" and h: "handle_of (fi_fh fi) u s"
        and fl: "maskToFlags (fi_flags fi) = Inr flags" and y: "y = (Inr n, s')" and n: "0 \<le> n"
      obtain r1 s1 where p: "write_prepare env buf off fi s = (r1, s1)" by force
      have "\<exists>j. r1 = Inr (Some j)"
        using 1(2) p y buf n by (auto simp: ENOSPC_def split: sum.splits option.splits)
      then obtain j where j: "r1 = Inr (Some j)" by blast
      have ju: "wj_uuid j = u" using write_prepare_uuid p j h handle_of_inject by blast
      have ne: "findWriteLocation (env_icl env) l off buf \<noteq> (b, [])" for l b
        using findWriteLocation_nonempty [OF buf, of "env_icl env" l off] by auto
      have jf: "wj_flags j = flags" and jb: "wj_buf j \<noteq> []"
        using p [unfolded j] fl ne
        by (auto simp: write_prepare_def bindA_Inr flags_of_def liftA_def returnA_def Let_def
            split: if_splits prod.splits)
      obtain r2 s2 where t: "on_world (env_write env (wj_helper j) (wj_ctx j) (fb_fileId (wj_block j)) (wj_buf j) off) s1 = (r2, s2)"
        by force
      have h2: "handle_of (fi_fh fi) u s2"
        by (rule keepsD [OF handle.on_world keepsD [OF handle.write_prepare h p] t])
      show "write_recorded (env_icl env) u (filterFlagsForLocation flags) off n (m_metadataCache s')"
      proof (cases r2)
        case (Inr k)
        then have "write_finish env off j k s2 = (Inr n, s')" using 1(2) p j t y buf by simp
        from write_finish_recorded [OF I this] show ?thesis by (auto simp: ju jf)
      next
        case (Inl x)
        then have "wr env (wj_buf j) off fi (on_force (force_insert u) s2) = Some y"
          using 1(2) p j t y buf ju by (auto split: if_splits)
        from 1(1) [OF this] show ?thesis
          using I jb forced_insert [OF h2] fl y n by (simp add: P_def forced_for_def)
      qed
    qed
  qed
  then show ?thesis using assms unfolding P_def write_recorded_def by blast
qed

definition open_state :: "(nat, point_map, string) FsLogic" where
  "open_state = (FsLogic_init 0 no_subscriptions [])\<lparr>m_fileContextCache := \<lparr>fcc_cache =
     [0 \<mapsto> \<lparr>fc_uuid = ''u'', fc_flags = 2, fc_handleId = None, fc_helperCtxMap = []\<rparr>], m_nextHandle = 1\<rparr>\<rparr>"

lemma open_state_fields:
  "m_fileContextCache open_state = \<lparr>fcc_cache = [0 \<mapsto> \<lparr>fc_uuid = ''u'', fc_flags = 2, fc_handleId = None, fc_helperCtxMap = []\<rparr>], m_nextHandle = 1\<rparr>"
  "m_metadataCache open_state = MetadataCache_init" "m_helpersCache open_state = HelpersCache_init"
  "m_forceProxyIOCache open_state = {}" "m_disabledSpaces open_state = []" "world open_state = 0"
  by (simp_all add: open_state_def FsLogic_init_def disableSpaces_def on_subs_def split: prod.split)

lemma example_flags: "maskToFlags 2 = Inr (RDWR # [])"
  by code_simp

lemmas fs_eval = act_defs liftA_def on_meta_def on_world_def getHelper_def getHelperCtx_def open_ctx_def put_ctx_def
  update_context_def context_get_def flags_of_def set_cache_def cached_attr_def update_attr_def update_location_def
  update_meta_def makeParameters_def force_contains_def

lemma example_write: "\<exists>s'. fs_write example_env ''x'' 0 example_info open_state = Some (Inr 1, s')"
  by (subst fs_write.simps)
     (simp add: write_prepare_def write_finish_def fs_eval open_state_fields example_env_def example_info_def
       example_location_def example_flags example_cache_defs getLocation_def acc_getLocation_def filterFlagsForLocation_def
       findWriteLocation_def icl_lower_bound_def pm_icl_def interval_mem_def interval_size_def interval_meet_def
       helpers_get_def requestStorageTestFileCreation_def HelpersCache_init_def posix_storage_def on_events_def)

theorem successful_write_recorded_witness:
  "\<exists>s' md a sz. fs_write example_env ''x'' 0 example_info open_state = Some (Inr 1, s') \<and>
     m_metaCache (m_metadataCache s') ''u'' = Some md \<and> md_attr md = Some a \<and> fa_size a = Some sz \<and> 1 \<le> sz"
proof -
  obtain s' where w: "fs_write example_env ''x'' 0 example_info open_state = Some (Inr 1, s')" using example_write ..
  have I: "interval_map (env_icl example_env)" by (simp add: example_env_def pm.interval_map_axioms)
  from successful_write_recorded [OF I w, of "''u''" "[RDWR]"] show ?thesis
    using w by (auto simp: handle_of_def open_state_fields example_info_def example_flags)
qed

section \<open>Listing a directory\<close>

lemma put_children_all:
  assumes "\<And>es. \<not> full es"
  shows "put_children full path children entries c = (Inr (entries @ map snd children),
    fold (\<lambda>(u, name). map_uuid (path_append path name) u) children c)"
  using assms by (induction full path children entries c rule: put_children.induct) (simp_all add: putEntry_def)

text \<open>The provider of a directory that does not change: it answers the part of the listing it is asked for.\<close>

definition lists_children :: "('w, 'm, 'h) fs_env \<Rightarrow> uuid \<Rightarrow> (uuid \<times> string) list \<Rightarrow> bool" where
  "lists_children env u children \<longleftrightarrow>
     (\<forall>off n w. 0 \<le> off \<longrightarrow> fst (env_getFileChildren env u off n w) = Inr (take n (drop (nat off) children)))"

lemma readdir_loop_all:
  fixes env :: "('w, 'm, 'h) fs_env"
  assumes l: "lists_children env u children" and full: "\<And>es. \<not> full es"
  shows "\<exists>s'. readdir_loop env full path u (int k) es s = Some (Inr (es @ map snd (drop k children)), s') \<and>
    m_metadataCache s' = fold (\<lambda>(u, name). map_uuid (path_append path name) u) (drop k children) (m_metadataCache s)"
proof (induction "length children - k" arbitrary: k es s rule: less_induct)
  case less
  let ?chunk = "take chunkSize (drop k children)"
  obtain r w where w: "env_getFileChildren env u (int k) chunkSize (world s) = (r, w)" by force
  have r: "r = Inr ?chunk" using l w unfolding lists_children_def by (metis fst_conv nat_int of_nat_0_le_iff)
  define s1 where "s1 = s\<lparr>world := w, m_metadataCache := fold (\<lambda>(u, name). map_uuid (path_append path name) u) ?chunk (m_metadataCache s)\<rparr>"
  have c: "readdir_chunk env full path u (int k) es s = (Inr (length ?chunk < chunkSize, es @ map snd ?chunk), s1)"
    using w r full by (simp add: readdir_chunk_def on_world_def on_meta_def bindA_def returnA_def put_children_all s1_def)
  show ?case
  proof (cases "length ?chunk < chunkSize")
    case True
    then have "?chunk = drop k children" by auto
    then show ?thesis using c True by (subst readdir_loop.simps) (simp add: s1_def)
  next
    case False
    have pos: "0 < chunkSize" by (simp add: chunkSize_def)
    have "length children - (k + chunkSize) < length children - k" using False pos by auto
    from less.hyps [OF this, of "es @ map snd ?chunk" s1] obtain s' where
      s': "readdir_loop env full path u (int (k + chunkSize)) (es @ map snd ?chunk) s1 =
        Some (Inr ((es @ map snd ?chunk) @ map snd (drop (k + chunkSize) children)), s')"
      "m_metadataCache s' = fold (\<lambda>(u, name). map_uuid (path_append path name) u) (drop (k + chunkSize) children) (m_metadataCache s1)"
      by blast
    have split: "drop k children = ?chunk @ drop (k + chunkSize) children"
      by (metis add.commute append_take_drop_id drop_drop)
    have "readdir_loop env full path u (int k) es s = Some (Inr ((es @ map snd ?chunk) @ map snd (drop (k + chunkSize) children)), s')"
      using c False s'(1) by (subst readdir_loop.simps) simp
    moreover have "(es @ map snd ?chunk) @ map snd (drop (k + chunkSize) children) = es @ map snd (drop k children)"
      by (metis append.assoc map_append split)
    moreover have "fold f (drop (k + chunkSize) children) (fold f ?chunk m) = fold f (drop k children) m"
      for f :: "uuid \<times> string \<Rightarrow> 'm MetadataCache \<Rightarrow> 'm MetadataCache" and m
      by (metis comp_apply fold_append split)
    ultimately show ?thesis using s'(2) by (simp only: s1_def) simp
  qed
qed

lemma path_append_inject:
  assumes "path_append p q = path_append p r" "q \<noteq> []" "r \<noteq> []" "hd q \<noteq> CHR ''/''" "hd r \<noteq> CHR ''/''"
  shows "q = r"
  using assms by (auto simp: path_append_def split: if_splits)

lemma map_uuid_path: "m_pathToUuid (map_uuid p u c) q = (if q = p then Some u else m_pathToUuid c q)"
  by (simp add: map_uuid_def set_meta_def set_path_def)

lemma fold_map_uuid:
  assumes "distinct (map snd children)" "\<And>v n. (v, n) \<in> set children \<Longrightarrow> n \<noteq> [] \<and> hd n \<noteq> CHR ''/''" "(v, n) \<in> set children"
  shows "m_pathToUuid (fold (\<lambda>(u, name). map_uuid (path_append path name) u) children c) (path_append path n) = Some v"
  using assms
proof (induction children arbitrary: c rule: rev_induct)
  case (snoc x xs)
  obtain w m where x: "x = (w, m)" by force
  show ?case
  proof (cases "(v, n) = (w, m)")
    case True
    then show ?thesis using x by (simp add: map_uuid_path)
  next
    case False
    then have mem: "(v, n) \<in> set xs" using snoc.prems(3) x by auto
    have "m \<notin> snd ` set xs" using snoc.prems(1) x by simp
    moreover have "n \<in> snd ` set xs" using mem by (rule rev_image_eqI) simp
    ultimately have "n \<noteq> m" by blast
    moreover have "n \<noteq> [] \<and> hd n \<noteq> CHR ''/''" "m \<noteq> [] \<and> hd m \<noteq> CHR ''/''"
      using snoc.prems(2) [of v n] snoc.prems(2) [of w m] mem x by simp_all
    ultimately have "path_append path n \<noteq> path_append path m" using path_append_inject by metis
    moreover have "m_pathToUuid (fold (\<lambda>(u, name). map_uuid (path_append path name) u) xs c) (path_append path n) = Some v"
    proof (rule snoc.IH [OF _ _ mem])
      show "distinct (map snd xs)" using snoc.prems(1) by simp
      show "b \<noteq> [] \<and> hd b \<noteq> CHR ''/''" if "(a, b) \<in> set xs" for a b
        using snoc.prems(2) [of a b] that by simp
    qed
    ultimately show ?thesis using x by (simp add: map_uuid_path)
  qed
qed simp

text \<open>
  C24. Listing a directory whose listing does not change meanwhile ends, however many chunks it takes;
  it gives the two dot entries and then every child once and in order, and afterwards the cache maps
  the path of each child to its file.
\<close>

theorem readdir_lists_all_children:
  assumes "getAttr_path (env_provider env (world s)) path (m_metadataCache s) = (Inr attr, c)" "fa_type attr = directory"
    and "lists_children env (fa_uuid attr) children" "\<And>es. \<not> full es"
    and "distinct (map snd children)" "\<And>v n. (v, n) \<in> set children \<Longrightarrow> n \<noteq> [] \<and> hd n \<noteq> CHR ''/''"
  shows "\<exists>s'. fs_readdir env full path s = Some (Inr ([''.'', ''..''] @ map snd children), s') \<and>
    (\<forall>(v, n) \<in> set children. m_pathToUuid (m_metadataCache s') (path_append path n) = Some v)"
proof -
  let ?s1 = "s\<lparr>m_metadataCache := c\<rparr>"
  have start: "readdir_start env full path s = (Inr (fa_uuid attr, [''.'', ''..'']), ?s1)"
    using assms(1,2,4) by (simp add: readdir_start_def on_meta_def bindA_def liftA_def putEntry_def returnA_def)
  obtain s' where s': "readdir_loop env full path (fa_uuid attr) 0 [''.'', ''..''] ?s1 = Some (Inr ([''.'', ''..''] @ map snd children), s')"
    "m_metadataCache s' = fold (\<lambda>(u, name). map_uuid (path_append path name) u) children (m_metadataCache ?s1)"
    using readdir_loop_all [where full = full and path = path and k = 0 and es = "[''.'', ''..'']" and s = ?s1, OF assms(3,4)] by auto
  have "m_pathToUuid (m_metadataCache s') (path_append path n) = Some v" if "(v, n) \<in> set children" for v n
    using fold_map_uuid [OF assms(5,6) that] s'(2) by simp
  then show ?thesis using start s'(1) by (auto simp: fs_readdir_def)
qed

definition example_dir_env :: "(nat, point_map, string) fs_env" where
  "example_dir_env = example_env\<lparr>env_provider := \<lambda>_. example_provider\<lparr>pr_resolveGuid :=
       \<lambda>p. Inr ((example_attr p)\<lparr>fa_type := directory\<rparr>)\<rparr>,
     env_getFileChildren := \<lambda>u off n w. (Inr (take n (drop (nat off) [(''c'', ''child''), (''d'', ''other'')])), w)\<rparr>"

theorem readdir_lists_all_children_witness:
  "\<exists>s'. fs_readdir example_dir_env (\<lambda>_. False) ''/dir'' open_state = Some (Inr [''.'', ''..'', ''child'', ''other''], s') \<and>
     m_pathToUuid (m_metadataCache s') ''/dir/child'' = Some ''c''"
proof -
  let ?c = "snd (getAttr_path (env_provider example_dir_env 0) ''/dir'' MetadataCache_init)"
  have "\<exists>s'. fs_readdir example_dir_env (\<lambda>_. False) ''/dir'' open_state =
      Some (Inr ([''.'', ''..''] @ map snd [(''c'', ''child''), (''d'', ''other'')]), s') \<and>
    (\<forall>(v, n) \<in> set [(''c'', ''child''), (''d'', ''other'')]. m_pathToUuid (m_metadataCache s') (path_append ''/dir'' n) = Some v)"
    by (rule readdir_lists_all_children [where c = ?c and attr = "(example_attr ''/dir'')\<lparr>fa_type := directory\<rparr>"])
       (auto simp: open_state_fields example_dir_env_def example_cache_defs lists_children_def)
  then show ?thesis by (auto simp: path_append_def)
qed

section \<open>Where the code departs from what it means to do\<close>

text \<open>Setting the times of a file caches the current time as its modification time.\<close>

lemma utime_caches_wrong_mtime:
  assumes "fs_utime env path actime modtime s = (Inr (), s')"
  shows "\<exists>u a. md_attr (meta_or_new u (m_metadataCache s')) = Some a \<and> fa_mtime a = env_now env (world s)"
proof -
  obtain c t u a where m: "on_meta env (\<lambda>p. acc_getAttr_path p path) s = (Inr u, c)"
    and a: "cached_attr u t = (Inr a, t)"
    and up: "\<exists>atime. update_attr u (\<lambda>attr. attr\<lparr>fa_atime := atime, fa_mtime := env_now env (world c)\<rparr>) t = (Inr (), s')"
    using assms by (fastforce simp: fs_utime_def bindA_Inr basic_Inr Let_def cached_attr_Inr)
  have w: "world c = world s" using m by (auto simp: on_meta_Inr)
  from up obtain atime where "update_attr u (\<lambda>attr. attr\<lparr>fa_atime := atime, fa_mtime := env_now env (world s)\<rparr>) t = (Inr (), s')"
    unfolding w by blast
  then have "md_attr (meta_or_new u (m_metadataCache s')) = Some (a\<lparr>fa_atime := atime, fa_mtime := env_now env (world s)\<rparr>)"
    using a by (simp add: update_attr_Inr cached_attr_Inr)
  then show ?thesis by fastforce
qed

text \<open>When only a part of the wanted range is available, the check does not look at the data that was read.\<close>

lemma partial_check_ignores_data:
  "available \<noteq> wanted \<Longrightarrow>
     dataCorrupted env u buf checksum available wanted s = dataCorrupted env u buf' checksum available wanted s"
  by (simp add: dataCorrupted_def)

text \<open>The helper of a write is that of the location, also when the block lies on another storage.\<close>

lemma write_uses_location_storage:
  assumes "write_prepare env buf off fi s = (Inr (Some j), s')"
  shows "\<exists>t t'. getHelper env (wj_uuid j) (fl_storageId (wj_location j)) t = (Inr (wj_helper j), t')"
  using assms by (fastforce simp: write_prepare_def bindA_Inr basic_Inr Let_def split: if_splits prod.splits)

end
