(* ===== verification/OC_Buffers.thy ===== *)
theory OC_Buffers
  imports OC_HelpersCache
begin

text \<open>
  Buffered input and output (\<open>helpers/src/buffering\<close>): a buffer of writes that are sent in batches and
  confirmed later, a cache that reads ahead, and the agent that puts both in front of a storage
  helper. Also the default batch write of \<open>IStorageHelper\<close>.
\<close>

section \<open>Storage helpers\<close>

text \<open>
  The helper behind the buffers is a parameter. Its operations work on a state of the storage; one
  that was started runs when its result arrives.
\<close>

record 'w helper_ops =
  h_open :: "file_id \<Rightarrow> mask \<Rightarrow> ('w, int) act"
  h_read :: "file_id \<Rightarrow> nat \<Rightarrow> off_t \<Rightarrow> ('w, string) act"
  h_write :: "file_id \<Rightarrow> string \<Rightarrow> off_t \<Rightarrow> ('w, nat) act"
  h_multiwrite :: "file_id \<Rightarrow> (off_t \<times> string) list \<Rightarrow> ('w, nat) act"
  h_truncate :: "file_id \<Rightarrow> off_t \<Rightarrow> ('w, unit) act"
  h_flush :: "file_id \<Rightarrow> ('w, unit) act"
  h_fsync :: "file_id \<Rightarrow> ('w, unit) act"
  h_release :: "file_id \<Rightarrow> ('w, unit) act"

text \<open>
  The default \<open>ash_multiwrite\<close>: one write after the other. The arguments of the call that starts the
  next write read \<open>i\<close> and increment it; \<open>ltr\<close> tells whether the compiler evaluates them from left
  to right. Reading behind the end of the vector is a null dereference.
\<close>

function wrapCallback :: "bool \<Rightarrow> (file_id \<Rightarrow> string \<Rightarrow> off_t \<Rightarrow> ('w, nat) act) \<Rightarrow> file_id \<Rightarrow> (off_t \<times> string) list \<Rightarrow>
    nat \<Rightarrow> nat \<Rightarrow> nat res \<Rightarrow> ('w, nat) act" where
  "wrapCallback ltr wr p buffs i wroteSoFar r w =
     (if i \<ge> length buffs then (r, w)
      else
        case r of
          Inl x \<Rightarrow> (Inl x, w)
        | Inr wrote \<Rightarrow>
            (let wantedToWrite = length (snd (buffs ! (i - 1)));
                 wroteTotal = wroteSoFar + wrote;
                 k = (if ltr then i else i + 1)
             in if wrote < wantedToWrite then (Inr wroteTotal, w)
                else if k \<ge> length buffs then (Inl NullDereference, w)
                else
                  case wr p (snd (buffs ! k)) (fst (buffs ! k)) w of
                    (r', w') \<Rightarrow> wrapCallback ltr wr p buffs (i + 1) wroteTotal r' w'))"
  by pat_completeness auto
termination
  by (relation "measure (\<lambda>(ltr, wr, p, buffs, i, wroteSoFar, r, w). length buffs - i)") auto

declare wrapCallback.simps [simp del]

definition ash_multiwrite :: "bool \<Rightarrow> (file_id \<Rightarrow> string \<Rightarrow> off_t \<Rightarrow> ('w, nat) act) \<Rightarrow> file_id \<Rightarrow> (off_t \<times> string) list \<Rightarrow> ('w, nat) act" where
  "ash_multiwrite ltr wr p buffs w =
     (case buffs of
        [] \<Rightarrow> (Inl NullDereference, w)
      | (off, buf) # _ \<Rightarrow> (case wr p buf off w of (r, w') \<Rightarrow> wrapCallback ltr wr p buffs 1 0 r w'))"

section \<open>State\<close>

text \<open>The batches that were sent and not confirmed yet are part of the state: file, size and data.\<close>

record WriteBuffer =
  m_minWriteChunkSize :: nat
  m_maxWriteChunkSize :: nat
  m_lastPath :: file_id
  m_bufferedSize :: nat
  m_buffers :: "(off_t \<times> string) list"
  m_lastError :: "exn option"
  wb_bps :: nat
  m_pendingConfirmation :: nat
  wb_inFlight :: "(file_id \<times> nat \<times> (off_t \<times> string) list) list"

definition WriteBuffer_new :: "nat \<Rightarrow> nat \<Rightarrow> WriteBuffer" where
  "WriteBuffer_new minWriteChunkSize maxWriteChunkSize =
     \<lparr>m_minWriteChunkSize = minWriteChunkSize, m_maxWriteChunkSize = maxWriteChunkSize, m_lastPath = [],
      m_bufferedSize = 0, m_buffers = [], m_lastError = None, wb_bps = 0, m_pendingConfirmation = 0, wb_inFlight = []\<rparr>"

text \<open>A download that has not arrived yet, or its result.\<close>

datatype read_future = Requested file_id off_t nat | Arrived "string res"

record ReadCache =
  m_minReadChunkSize :: nat
  m_maxReadChunkSize :: nat
  m_readAheadFor :: nat
  rc_bps :: nat
  m_lastReadOffset :: off_t
  m_lastRead :: string
  m_pendingReadOffset :: off_t
  m_pendingRead :: "read_future option"
  m_clear :: bool
  m_lastCacheRefresh :: int

definition ReadCache_new :: "nat \<Rightarrow> nat \<Rightarrow> nat \<Rightarrow> ReadCache" where
  "ReadCache_new minReadChunkSize maxReadChunkSize readAheadFor =
     \<lparr>m_minReadChunkSize = minReadChunkSize, m_maxReadChunkSize = maxReadChunkSize, m_readAheadFor = readAheadFor,
      rc_bps = 0, m_lastReadOffset = 0, m_lastRead = [], m_pendingReadOffset = 0, m_pendingRead = None, m_clear = False,
      m_lastCacheRefresh = 0\<rparr>"

text \<open>
  What happens while a thread waits for confirmations: a batch is confirmed, with the bandwidth that
  was measured, or two minutes pass. What happens while it waits for a download: it arrives, the
  FUSE request is interrupted, or the time is over.
\<close>

datatype wakeup = Confirmed nat "nat option" | TimedOut

datatype waiting = Answered "nat option" | Interrupted | Unanswered

text \<open>
  The context of an open file. It has buffers once \<open>sh_open\<close> has run for it. \<open>ag_wakeups\<close> and
  \<open>ag_waits\<close> hold what the next waits will meet, \<open>ag_now\<close> the steady clock in nanoseconds.
\<close>

record 'w agent =
  ag_buffered :: bool
  ag_write :: WriteBuffer
  ag_read :: ReadCache
  ag_world :: 'w
  ag_wakeups :: "wakeup list"
  ag_waits :: "waiting list"
  ag_now :: int

section \<open>Write buffer\<close>

definition ETIMEDOUT :: errno where "ETIMEDOUT = 110"

definition ECANCELED :: errno where "ECANCELED = 125"

definition flushThreshold :: "WriteBuffer \<Rightarrow> nat" where
  "flushThreshold b = min (m_maxWriteChunkSize b) (max (m_minWriteChunkSize b) (2 * wb_bps b))"

definition confirmThreshold :: "WriteBuffer \<Rightarrow> nat" where
  "confirmThreshold b = 6 * flushThreshold b"

definition emplace :: "off_t \<Rightarrow> string \<Rightarrow> WriteBuffer \<Rightarrow> WriteBuffer" where
  "emplace offset buf b = b\<lparr>m_buffers := m_buffers b @ [(offset, buf)]\<rparr>"

definition append_buf :: "string \<Rightarrow> WriteBuffer \<Rightarrow> WriteBuffer" where
  "append_buf buf b =
     (let (offset, data) = last (m_buffers b) in b\<lparr>m_buffers := butlast (m_buffers b) @ [(offset, data @ buf)]\<rparr>)"

definition nextOffset :: "WriteBuffer \<Rightarrow> off_t" where
  "nextOffset b = (let (offset, data) = last (m_buffers b) in offset + int (length data))"

definition remove_nth :: "nat \<Rightarrow> 'a list \<Rightarrow> 'a list" where
  "remove_nth k xs = take k xs @ drop (Suc k) xs"

text \<open>A batch is written and its callback runs.\<close>

definition confirm :: "'w helper_ops \<Rightarrow> nat \<Rightarrow> nat option \<Rightarrow> 'w agent \<Rightarrow> 'w agent" where
  "confirm h k bandwidth s =
     (if k < length (wb_inFlight (ag_write s)) then
        (let (p, sentSize, buffs) = wb_inFlight (ag_write s) ! k;
             (r, w) = h_multiwrite h p buffs (ag_world s);
             b = (ag_write s)\<lparr>wb_inFlight := remove_nth k (wb_inFlight (ag_write s)),
                   m_pendingConfirmation := m_pendingConfirmation (ag_write s) - sentSize\<rparr>
         in case r of
              Inr wrote \<Rightarrow>
                s\<lparr>ag_world := w,
                  ag_write := (case bandwidth of None \<Rightarrow> b | Some bw \<Rightarrow> b\<lparr>wb_bps := (wb_bps b + bw * 2) div 3\<rparr>),
                  ag_read := (ag_read s)\<lparr>m_clear := True\<rparr>\<rparr>
            | Inl x \<Rightarrow> s\<lparr>ag_world := w, ag_write := b\<lparr>m_lastError := Some x\<rparr>\<rparr>)
      else s)"

definition time_out :: "'w agent \<Rightarrow> 'w agent" where
  "time_out s = s\<lparr>ag_write := (ag_write s)\<lparr>m_lastError := Some (SystemError ETIMEDOUT)\<rparr>\<rparr>"

function await_pending :: "'w helper_ops \<Rightarrow> (WriteBuffer \<Rightarrow> nat) \<Rightarrow> 'w agent \<Rightarrow> 'w agent" where
  "await_pending h limit s =
     (if m_lastError (ag_write s) = None \<and> m_pendingConfirmation (ag_write s) > limit (ag_write s) then
        case ag_wakeups s of
          [] \<Rightarrow> time_out s
        | TimedOut # es \<Rightarrow> await_pending h limit (time_out (s\<lparr>ag_wakeups := es\<rparr>))
        | Confirmed k bandwidth # es \<Rightarrow> await_pending h limit (confirm h k bandwidth (s\<lparr>ag_wakeups := es\<rparr>))
      else s)"
  by pat_completeness auto

lemma confirm_wakeups [simp]: "ag_wakeups (confirm h k bw s) = ag_wakeups s"
  by (simp add: confirm_def Let_def split: prod.split sum.split)

lemma time_out_wakeups [simp]: "ag_wakeups (time_out s) = ag_wakeups s"
  by (simp add: time_out_def)

termination await_pending
  by (relation "measure (\<lambda>(h, limit, s). length (ag_wakeups s))") auto

declare await_pending.simps [simp del]

definition pushBuffer :: "'w helper_ops \<Rightarrow> file_id \<Rightarrow> 'w agent \<Rightarrow> 'w agent" where
  "pushBuffer h p s =
     (if m_bufferedSize (ag_write s) = 0 then s
      else
        let b = ag_write s;
            sentSize = m_bufferedSize b
        in await_pending h confirmThreshold
             (s\<lparr>ag_write := b\<lparr>m_pendingConfirmation := m_pendingConfirmation b + sentSize, m_bufferedSize := 0,
                 m_buffers := [], wb_inFlight := wb_inFlight b @ [(p, sentSize, m_buffers b)]\<rparr>\<rparr>))"

definition throwLastError :: "('w agent, unit) act" where
  "throwLastError s =
     (case m_lastError (ag_write s) of
        None \<Rightarrow> (Inr (), s)
      | Some err \<Rightarrow> (Inl err, s\<lparr>ag_write := (ag_write s)\<lparr>m_lastError := None\<rparr>\<rparr>))"

definition set_last :: "file_id \<Rightarrow> ('w agent, unit) act" where
  "set_last p = modifyA (\<lambda>s. s\<lparr>ag_write := (ag_write s)\<lparr>m_lastPath := p\<rparr>\<rparr>)"

definition add_data :: "off_t \<Rightarrow> string \<Rightarrow> WriteBuffer \<Rightarrow> WriteBuffer" where
  "add_data offset buf b =
     (let b1 = (if m_buffers b = [] \<or> nextOffset b \<noteq> offset then emplace offset buf b else append_buf buf b)
      in b1\<lparr>m_bufferedSize := m_bufferedSize b1 + length buf\<rparr>)"

definition wb_write :: "'w helper_ops \<Rightarrow> file_id \<Rightarrow> string \<Rightarrow> off_t \<Rightarrow> ('w agent, nat) act" where
  "wb_write h p buf offset =
     bindA (set_last p) (\<lambda>_.
     bindA throwLastError (\<lambda>_.
     bindA (modifyA (\<lambda>s. s\<lparr>ag_write := add_data offset buf (ag_write s)\<rparr>)) (\<lambda>_.
     bindA (modifyA (\<lambda>s. if m_bufferedSize (ag_write s) > flushThreshold (ag_write s) then pushBuffer h p s else s)) (\<lambda>_.
     returnA (length buf)))))"

definition wb_flush :: "'w helper_ops \<Rightarrow> file_id \<Rightarrow> ('w agent, unit) act" where
  "wb_flush h p = bindA (set_last p) (\<lambda>_. bindA throwLastError (\<lambda>_. modifyA (pushBuffer h p)))"

definition wb_fsync :: "'w helper_ops \<Rightarrow> file_id \<Rightarrow> ('w agent, unit) act" where
  "wb_fsync h p =
     bindA (wb_flush h p) (\<lambda>_.
     bindA (modifyA (await_pending h (\<lambda>_. 0))) (\<lambda>_.
     throwLastError))"

text \<open>The flush that is scheduled after each write and after each flush.\<close>

definition scheduledFlush :: "'w helper_ops \<Rightarrow> 'w agent \<Rightarrow> 'w agent" where
  "scheduledFlush h s = pushBuffer h (m_lastPath (ag_write s)) s"

section \<open>Read cache\<close>

definition blockSize :: "ReadCache \<Rightarrow> nat" where
  "blockSize c = min (m_maxReadChunkSize c) (max (m_minReadChunkSize c) (rc_bps c)) * m_readAheadFor c"

definition with_read :: "(ReadCache \<Rightarrow> ReadCache) \<Rightarrow> ('w agent, unit) act" where
  "with_read f = modifyA (\<lambda>s. s\<lparr>ag_read := f (ag_read s)\<rparr>)"

definition measure_bps :: "nat option \<Rightarrow> ReadCache \<Rightarrow> ReadCache" where
  "measure_bps bandwidth c = (case bandwidth of None \<Rightarrow> c | Some bw \<Rightarrow> c\<lparr>rc_bps := (rc_bps c + bw * 2) div 3\<rparr>)"

text \<open>A helper answers a download: its callback.\<close>

definition answer :: "'w helper_ops \<Rightarrow> file_id \<Rightarrow> off_t \<Rightarrow> nat \<Rightarrow> nat option \<Rightarrow> ('w agent, string res) act" where
  "answer h p offset block bandwidth s =
     (case h_read h p block offset (ag_world s) of
        (Inl x, w) \<Rightarrow> (Inr (Inl x), s\<lparr>ag_world := w\<rparr>)
      | (Inr data, w) \<Rightarrow> (Inr (Inr data), s\<lparr>ag_world := w, ag_read := measure_bps bandwidth (ag_read s)\<rparr>))"

text \<open>The read-ahead arrives while nobody waits for it.\<close>

definition arrive :: "'w helper_ops \<Rightarrow> nat option \<Rightarrow> ('w agent, unit) act" where
  "arrive h bandwidth =
     bindA (getA (\<lambda>s. m_pendingRead (ag_read s))) (\<lambda>pending.
     case pending of
       Some (Requested p off n) \<Rightarrow>
         bindA (answer h p off n bandwidth) (\<lambda>r. with_read (\<lambda>c. c\<lparr>m_pendingRead := Some (Arrived r)\<rparr>))
     | _ \<Rightarrow> returnA ())"

text \<open>
  \<open>wait\<close>: the outer error is thrown by the waiting and leaves the future as it is; otherwise the
  future is taken, and holds a value or an error.
\<close>

definition next_wait :: "('w agent, waiting) act" where
  "next_wait s =
     (case ag_waits s of
        [] \<Rightarrow> (Inr (Answered None), s)
      | wt # wts \<Rightarrow> (Inr wt, s\<lparr>ag_waits := wts\<rparr>))"

definition wait_for :: "'w helper_ops \<Rightarrow> read_future \<Rightarrow> ('w agent, string res) act" where
  "wait_for h f =
     bindA next_wait (\<lambda>wt.
     case wt of
       Interrupted \<Rightarrow> throwA (SystemError ECANCELED)
     | Unanswered \<Rightarrow> (case f of Arrived r \<Rightarrow> returnA r | Requested _ _ _ \<Rightarrow> throwA (SystemError ETIMEDOUT))
     | Answered bandwidth \<Rightarrow> (case f of Arrived r \<Rightarrow> returnA r | Requested p off n \<Rightarrow> answer h p off n bandwidth))"

definition refresh :: "string \<Rightarrow> ('w agent, unit) act" where
  "refresh data = modifyA (\<lambda>s. s\<lparr>ag_read := (ag_read s)\<lparr>m_lastRead := data, m_lastCacheRefresh := ag_now s\<rparr>\<rparr>)"

definition cached :: "off_t \<Rightarrow> ReadCache \<Rightarrow> bool" where
  "cached offset c \<longleftrightarrow> m_lastReadOffset c \<le> offset \<and> offset < m_lastReadOffset c + int (length (m_lastRead c))"

definition from_cache :: "nat \<Rightarrow> off_t \<Rightarrow> ReadCache \<Rightarrow> string" where
  "from_cache n offset c = take n (drop (nat (offset - m_lastReadOffset c)) (m_lastRead c))"

text \<open>The part of \<open>read\<close> that takes over the read-ahead, and the part that downloads what was asked for.\<close>

definition take_pending :: "'w helper_ops \<Rightarrow> file_id \<Rightarrow> read_future \<Rightarrow> ('w agent, unit) act" where
  "take_pending h p f =
     bindA (with_read (\<lambda>c. c\<lparr>m_lastReadOffset := m_pendingReadOffset c\<rparr>)) (\<lambda>_.
     bindA (wait_for h f) (\<lambda>r.
     bindA (with_read (\<lambda>c. c\<lparr>m_pendingRead := None\<rparr>)) (\<lambda>_.
     bindA (\<lambda>s. (r, s)) (\<lambda>data.
     bindA (refresh data) (\<lambda>_.
     with_read (\<lambda>c. let off = m_lastReadOffset c + int (length (m_lastRead c))
                    in c\<lparr>m_pendingReadOffset := off, m_pendingRead := Some (Requested p off (blockSize c))\<rparr>))))))"

definition read_through :: "'w helper_ops \<Rightarrow> file_id \<Rightarrow> nat \<Rightarrow> off_t \<Rightarrow> ('w agent, string) act" where
  "read_through h p n offset =
     bindA (with_read (\<lambda>c. c\<lparr>m_pendingReadOffset := offset + int n,
              m_pendingRead := Some (Requested p (offset + int n) (blockSize c)), m_lastReadOffset := offset\<rparr>)) (\<lambda>_.
     bindA (wait_for h (Requested p offset n)) (\<lambda>r.
     bindA (\<lambda>s. (r, s)) (\<lambda>data.
     bindA (refresh data) (\<lambda>_.
     returnA (take n data)))))"

definition rc_read :: "'w helper_ops \<Rightarrow> file_id \<Rightarrow> nat \<Rightarrow> off_t \<Rightarrow> ('w agent, string) act" where
  "rc_read h p n offset =
     bindA (modifyA (\<lambda>s. if m_clear (ag_read s) \<or> m_lastCacheRefresh (ag_read s) + 5000000000 < ag_now s
              then s\<lparr>ag_read := (ag_read s)\<lparr>m_lastRead := [], m_pendingRead := None, m_clear := False\<rparr>\<rparr> else s)) (\<lambda>_.
     bindA (getA ag_read) (\<lambda>c.
     if cached offset c then returnA (from_cache n offset c)
     else
       case m_pendingRead c of
         Some f \<Rightarrow>
           if m_pendingReadOffset c \<le> offset then
             bindA (take_pending h p f) (\<lambda>_.
             bindA (getA ag_read) (\<lambda>c'.
             if offset < m_lastReadOffset c' + int (length (m_lastRead c')) then returnA (from_cache n offset c')
             else read_through h p n offset))
           else read_through h p n offset
       | None \<Rightarrow> read_through h p n offset))"

section \<open>Buffer agent\<close>

record BufferLimits =
  minReadChunkSize :: nat
  maxReadChunkSize :: nat
  readAheadFor :: nat
  minWriteChunkSize :: nat
  maxWriteChunkSize :: nat

definition BufferLimits_default :: BufferLimits where
  "BufferLimits_default = \<lparr>minReadChunkSize = 1048576, maxReadChunkSize = 52428800, readAheadFor = 1,
     minWriteChunkSize = 1048576, maxWriteChunkSize = 52428800\<rparr>"

text \<open>A new context has no buffers.\<close>

definition createCTX :: "'w \<Rightarrow> 'w agent" where
  "createCTX w = \<lparr>ag_buffered = False, ag_write = WriteBuffer_new 0 0, ag_read = ReadCache_new 0 0 0, ag_world = w,
     ag_wakeups = [], ag_waits = [], ag_now = 0\<rparr>"

definition on_storage :: "('w, 'a) act \<Rightarrow> ('w agent, 'a) act" where
  "on_storage m s = (case m (ag_world s) of (r, w) \<Rightarrow> (r, s\<lparr>ag_world := w\<rparr>))"

definition sh_open :: "BufferLimits \<Rightarrow> 'w helper_ops \<Rightarrow> file_id \<Rightarrow> mask \<Rightarrow> ('w agent, int) act" where
  "sh_open bl h p flags =
     bindA (modifyA (\<lambda>s. s\<lparr>ag_buffered := True,
              ag_read := ReadCache_new (minReadChunkSize bl) (maxReadChunkSize bl) (readAheadFor bl),
              ag_write := WriteBuffer_new (minWriteChunkSize bl) (maxWriteChunkSize bl)\<rparr>)) (\<lambda>_.
     on_storage (h_open h p flags))"

definition if_buffered :: "('w agent, 'a) act \<Rightarrow> ('w agent, 'a) act \<Rightarrow> ('w agent, 'a) act" where
  "if_buffered m m' s = (if ag_buffered s then m s else m' s)"

definition sh_read :: "'w helper_ops \<Rightarrow> file_id \<Rightarrow> nat \<Rightarrow> off_t \<Rightarrow> ('w agent, string) act" where
  "sh_read h p n offset =
     if_buffered (bindA (wb_fsync h p) (\<lambda>_. rc_read h p n offset)) (on_storage (h_read h p n offset))"

definition sh_write :: "'w helper_ops \<Rightarrow> file_id \<Rightarrow> string \<Rightarrow> off_t \<Rightarrow> ('w agent, nat) act" where
  "sh_write h p buf offset = if_buffered (wb_write h p buf offset) (on_storage (h_write h p buf offset))"

definition rc_clear :: "('w agent, unit) act" where
  "rc_clear = with_read (\<lambda>c. c\<lparr>m_clear := True\<rparr>)"

definition sh_flush :: "'w helper_ops \<Rightarrow> file_id \<Rightarrow> ('w agent, unit) act" where
  "sh_flush h p =
     bindA (if_buffered (bindA (wb_flush h p) (\<lambda>_. rc_clear)) (returnA ())) (\<lambda>_. on_storage (h_flush h p))"

definition sh_fsync :: "'w helper_ops \<Rightarrow> file_id \<Rightarrow> ('w agent, unit) act" where
  "sh_fsync h p =
     bindA (if_buffered (bindA (wb_fsync h p) (\<lambda>_. rc_clear)) (returnA ())) (\<lambda>_. on_storage (h_fsync h p))"

definition sh_release :: "'w helper_ops \<Rightarrow> file_id \<Rightarrow> ('w agent, unit) act" where
  "sh_release h p =
     bindA (if_buffered (wb_fsync h p) (returnA ())) (\<lambda>_. on_storage (h_release h p))"

definition sh_truncate :: "'w helper_ops \<Rightarrow> file_id \<Rightarrow> off_t \<Rightarrow> ('w agent, unit) act" where
  "sh_truncate h p sz = on_storage (h_truncate h p sz)"

end
