(* ===== verification/OC_FlatFile.thy ===== *)
theory OC_FlatFile
  imports OC_Prelude
begin

text \<open>
  The abstract file that the storage layers implement: a string of bytes, written at an offset and
  read back in slices. Bytes that were never written are zero.
\<close>

definition zero_byte :: char where "zero_byte = CHR 0x00"

definition write_at :: "nat \<Rightarrow> string \<Rightarrow> string \<Rightarrow> string" where
  "write_at off d c =
     (if d = [] then c else take off (c @ replicate (off - length c) zero_byte) @ d @ drop (off + length d) c)"

definition write_all :: "(off_t \<times> string) list \<Rightarrow> string \<Rightarrow> string" where
  "write_all bs c = fold (\<lambda>(off, d). write_at (nat off) d) bs c"

definition resize :: "nat \<Rightarrow> string \<Rightarrow> string" where
  "resize n c = take n c @ replicate (n - length c) zero_byte"

text \<open>A read returns a part of what was asked for, and something unless the file ends before.\<close>

definition slice_of :: "string \<Rightarrow> nat \<Rightarrow> nat \<Rightarrow> string \<Rightarrow> bool" where
  "slice_of c n off d \<longleftrightarrow> d = take (length d) (drop off c) \<and> length d \<le> n \<and> (0 < n \<and> off < length c \<longrightarrow> d \<noteq> [])"

text \<open>Two pieces of data that do not overlap.\<close>

definition apart :: "off_t \<times> string \<Rightarrow> off_t \<times> string \<Rightarrow> bool" where
  "apart x y \<longleftrightarrow> snd x = [] \<or> snd y = [] \<or> fst x + int (length (snd x)) \<le> fst y \<or> fst y + int (length (snd y)) \<le> fst x"

text \<open>A piece of data that a file of a limited size can hold.\<close>

definition fits :: "nat \<Rightarrow> off_t \<times> string \<Rightarrow> bool" where
  "fits limit x \<longleftrightarrow> 0 \<le> fst x \<and> fst x + int (length (snd x)) \<le> int limit"

lemma apart_extend: "apart x (off, d) \<Longrightarrow> apart x (off + int (length d), e) \<Longrightarrow> apart x (off, d @ e)"
  by (cases "snd x") (auto simp: apart_def)

lemma write_at_Nil [simp]: "write_at off [] c = c"
  by (simp add: write_at_def)

lemma length_write_at: "length (write_at off d c) = (if d = [] then length c else max (length c) (off + length d))"
  by (auto simp: write_at_def)

lemma nth_write_at:
  assumes "i < length (write_at off d c)"
  shows "write_at off d c ! i = (if off \<le> i \<and> i < off + length d then d ! (i - off) else if i < length c then c ! i else zero_byte)"
proof -
  have "min (length c) off + (off - length c) = off"
    by simp
  then show ?thesis
    using assms by (auto simp: write_at_def nth_append)
qed

lemma write_at_append: "write_at (off + length d) e (write_at off d c) = write_at off (d @ e) c"
proof (cases "d = [] \<or> e = []")
  case False
  then show ?thesis
    by (intro nth_equalityI) (auto simp: length_write_at nth_write_at nth_append diff_diff_eq)
qed auto

lemma write_at_commute:
  assumes "off + length d \<le> off' \<or> off' + length e \<le> off"
  shows "write_at off d (write_at off' e c) = write_at off' e (write_at off d c)"
  using assms by (intro nth_equalityI) (auto simp: length_write_at nth_write_at)

lemma write_all_Nil [simp]: "write_all [] c = c"
  by (simp add: write_all_def)

lemma write_all_Cons [simp]: "write_all ((off, d) # bs) c = write_all bs (write_at (nat off) d c)"
  by (simp add: write_all_def)

lemma write_all_append [simp]: "write_all (xs @ ys) c = write_all ys (write_all xs c)"
  by (simp add: write_all_def)

lemma write_all_empty:
  assumes "\<forall>(off, d) \<in> set bs. d = []"
  shows "write_all bs c = c"
  using assms by (induction bs) auto

lemma write_at_all_commute:
  assumes "\<forall>x \<in> set bs. apart x (off, d)" "0 \<le> off" "\<forall>x \<in> set bs. 0 \<le> fst x"
  shows "write_at (nat off) d (write_all bs c) = write_all bs (write_at (nat off) d c)"
  using assms
proof (induction bs arbitrary: c)
  case (Cons x bs)
  obtain o' e where x: "x = (o', e)"
    by (cases x)
  have "e = [] \<or> d = [] \<or> nat o' + length e \<le> nat off \<or> nat off + length d \<le> nat o'"
    using Cons.prems x by (auto simp: apart_def)
  then have "write_at (nat o') e (write_at (nat off) d c) = write_at (nat off) d (write_at (nat o') e c)"
    using write_at_commute by auto
  then show ?case
    using Cons x by simp
qed simp

lemma write_all_commute:
  assumes "\<forall>x \<in> set xs. \<forall>y \<in> set ys. apart x y" "\<forall>x \<in> set xs. 0 \<le> fst x" "\<forall>y \<in> set ys. 0 \<le> fst y"
  shows "write_all ys (write_all xs c) = write_all xs (write_all ys c)"
  using assms
proof (induction ys arbitrary: c)
  case (Cons y ys)
  obtain off d where y: "y = (off, d)"
    by (cases y)
  have "write_at (nat off) d (write_all xs c) = write_all xs (write_at (nat off) d c)"
    by (rule write_at_all_commute) (use Cons.prems y in auto)
  then show ?case
    using Cons y by simp
qed simp

lemma slice_of_take: "slice_of c n off d \<Longrightarrow> slice_of c n off (take n d)"
  by (simp add: slice_of_def)

lemma slice_of_part:
  assumes "slice_of c n off d" "off \<le> off'" "off' < off + length d"
  shows "slice_of c k off' (take k (drop (off' - off) d))"
proof -
  have d: "d = take (length d) (drop off c)"
    using assms(1) by (simp add: slice_of_def)
  have "drop (off' - off) d = take (length d - (off' - off)) (drop off' c)"
    by (subst d) (use assms in \<open>simp add: drop_take\<close>)
  then show ?thesis
    using assms by (auto simp: slice_of_def min_def)
qed

lemma slice_of_read: "slice_of c n off (take n (drop off c))"
  by (auto simp: slice_of_def min_def)

end
