(* ===== verification/OC_BufferSpec.thy ===== *)
theory OC_BufferSpec
  imports OC_Buffers OC_FlatFile
begin

text \<open>
  What the buffers promise: a client that writes and reads through them sees one flat file, as if
  every write had reached the storage at once, whenever the storage confirms, and a successful
  \<open>fsync\<close> leaves everything on the storage.
\<close>

section \<open>The storage behind the buffers\<close>

text \<open>
  The contract of a helper: a read returns a slice of the file, a batch of writes that succeeds
  applies all of its pieces in order, and the other calls leave the data as it is. \<open>ok\<close> is the
  invariant of the storage, \<open>limit\<close> the largest size of a file.
\<close>

locale file_storage =
  fixes h :: "'w helper_ops" and content :: "'w \<Rightarrow> file_id \<Rightarrow> string" and ok :: "'w \<Rightarrow> bool" and limit :: nat
  assumes read_keeps: "ok w \<Longrightarrow> content (snd (h_read h p n off w)) = content w \<and> ok (snd (h_read h p n off w))"
    and read_slice:
      "ok w \<Longrightarrow> 0 \<le> off \<Longrightarrow> fst (h_read h p n off w) = Inr d \<Longrightarrow> slice_of (content w p) n (nat off) d"
    and multiwrite_writes:
      "ok w \<Longrightarrow> bs \<noteq> [] \<Longrightarrow> \<forall>x \<in> set bs. fits limit x \<Longrightarrow> fst (h_multiwrite h p bs w) = Inr k \<Longrightarrow>
       content (snd (h_multiwrite h p bs w)) p = write_all bs (content w p) \<and> ok (snd (h_multiwrite h p bs w))"
    and open_keeps: "ok w \<Longrightarrow> content (snd (h_open h p flags w)) = content w \<and> ok (snd (h_open h p flags w))"
    and flush_keeps: "ok w \<Longrightarrow> content (snd (h_flush h p w)) = content w \<and> ok (snd (h_flush h p w))"
    and fsync_keeps: "ok w \<Longrightarrow> content (snd (h_fsync h p w)) = content w \<and> ok (snd (h_fsync h p w))"

section \<open>Runs of a client\<close>

text \<open>
  The calls of a client on one open file and the events around them: the timer that flushes, a batch
  that is confirmed, a read-ahead that arrives, and what the next waits will meet.
\<close>

datatype agent_event =
    EvWrite string nat
  | EvRead nat nat
  | EvFlush
  | EvFsync
  | EvTimer
  | EvConfirm nat "nat option"
  | EvArrive "nat option"
  | EvWakeups "wakeup list"
  | EvWaits "waiting list"
  | EvClock int

datatype agent_reply = Count nat | Data string | Done

definition agent_do :: "'w helper_ops \<Rightarrow> file_id \<Rightarrow> agent_event \<Rightarrow> ('w agent, agent_reply) act" where
  "agent_do h p ev =
     (case ev of
        EvWrite buf off \<Rightarrow> bindA (sh_write h p buf (int off)) (\<lambda>n. returnA (Count n))
      | EvRead n off \<Rightarrow> bindA (sh_read h p n (int off)) (\<lambda>d. returnA (Data d))
      | EvFlush \<Rightarrow> bindA (sh_flush h p) (\<lambda>_. returnA Done)
      | EvFsync \<Rightarrow> bindA (sh_fsync h p) (\<lambda>_. returnA Done)
      | EvTimer \<Rightarrow> bindA (modifyA (scheduledFlush h)) (\<lambda>_. returnA Done)
      | EvConfirm k bw \<Rightarrow> bindA (modifyA (confirm h k bw)) (\<lambda>_. returnA Done)
      | EvArrive bw \<Rightarrow> bindA (arrive h bw) (\<lambda>_. returnA Done)
      | EvWakeups es \<Rightarrow> bindA (modifyA (\<lambda>s. s\<lparr>ag_wakeups := es\<rparr>)) (\<lambda>_. returnA Done)
      | EvWaits wts \<Rightarrow> bindA (modifyA (\<lambda>s. s\<lparr>ag_waits := wts\<rparr>)) (\<lambda>_. returnA Done)
      | EvClock t \<Rightarrow> bindA (modifyA (\<lambda>s. s\<lparr>ag_now := t\<rparr>)) (\<lambda>_. returnA Done))"

fun agent_run :: "'w helper_ops \<Rightarrow> file_id \<Rightarrow> agent_event list \<Rightarrow> ('w agent, agent_reply list) act" where
  "agent_run h p [] = returnA []"
| "agent_run h p (ev # evs) = bindA (agent_do h p ev) (\<lambda>r. bindA (agent_run h p evs) (\<lambda>rs. returnA (r # rs)))"

text \<open>The flat file under the same calls, and the replies it allows.\<close>

fun file_after :: "agent_event list \<Rightarrow> string \<Rightarrow> string" where
  "file_after [] c = c"
| "file_after (EvWrite buf off # evs) c = file_after evs (write_at off buf c)"
| "file_after (_ # evs) c = file_after evs c"

fun replies_ok :: "string \<Rightarrow> agent_event list \<Rightarrow> agent_reply list \<Rightarrow> bool" where
  "replies_ok c [] [] \<longleftrightarrow> True"
| "replies_ok c (EvWrite buf off # evs) (Count n # rs) \<longleftrightarrow> n = length buf \<and> replies_ok (write_at off buf c) evs rs"
| "replies_ok c (EvRead n off # evs) (Data d # rs) \<longleftrightarrow> slice_of c n off d \<and> replies_ok c evs rs"
| "replies_ok c (ev # evs) (Done # rs) \<longleftrightarrow>
     (case ev of EvWrite _ _ \<Rightarrow> False | EvRead _ _ \<Rightarrow> False | _ \<Rightarrow> True) \<and> replies_ok c evs rs"
| "replies_ok c _ _ \<longleftrightarrow> False"

text \<open>Batches are confirmed in the order in which they were sent.\<close>

definition first_first :: "wakeup list \<Rightarrow> bool" where
  "first_first es \<longleftrightarrow> (\<forall>e \<in> set es. case e of Confirmed k _ \<Rightarrow> k = 0 | TimedOut \<Rightarrow> True)"

definition in_order :: "agent_event list \<Rightarrow> bool" where
  "in_order evs \<longleftrightarrow> (\<forall>ev \<in> set evs. case ev of EvConfirm k _ \<Rightarrow> k = 0 | EvWakeups es \<Rightarrow> first_first es | _ \<Rightarrow> True)"

text \<open>No two writes of the run overlap.\<close>

definition writes_of :: "agent_event list \<Rightarrow> (off_t \<times> string) list" where
  "writes_of evs = concat (map (\<lambda>ev. case ev of EvWrite buf off \<Rightarrow> [(int off, buf)] | _ \<Rightarrow> []) evs)"

definition no_overlap :: "agent_event list \<Rightarrow> bool" where
  "no_overlap evs \<longleftrightarrow> sorted_wrt apart (writes_of evs)"

section \<open>Invariant\<close>

definition unconfirmed :: "WriteBuffer \<Rightarrow> (off_t \<times> string) list" where
  "unconfirmed b = concat (map (snd \<circ> snd) (wb_inFlight b)) @ m_buffers b"

definition batches_ok :: "nat \<Rightarrow> file_id \<Rightarrow> WriteBuffer \<Rightarrow> bool" where
  "batches_ok limit p b \<longleftrightarrow>
     (\<forall>(q, n, bs) \<in> set (wb_inFlight b). q = p \<and> 0 < n \<and> bs \<noteq> []) \<and>
     m_pendingConfirmation b = sum_list (map (fst \<circ> snd) (wb_inFlight b)) \<and>
     m_bufferedSize b = sum_list (map (length \<circ> snd) (m_buffers b)) \<and>
     (\<forall>x \<in> set (unconfirmed b). fits limit x) \<and>
     (0 < m_bufferedSize b \<longrightarrow> m_lastPath b = p)"

definition future_ok :: "string \<Rightarrow> file_id \<Rightarrow> off_t \<Rightarrow> read_future option \<Rightarrow> bool" where
  "future_ok c p offset f \<longleftrightarrow>
     (case f of
        None \<Rightarrow> True
      | Some (Requested q off n) \<Rightarrow> q = p \<and> off = offset
      | Some (Arrived (Inr d)) \<Rightarrow> \<exists>n. slice_of c n (nat offset) d
      | Some (Arrived (Inl _)) \<Rightarrow> True)"

definition cache_ok :: "string \<Rightarrow> file_id \<Rightarrow> ReadCache \<Rightarrow> bool" where
  "cache_ok c p rc \<longleftrightarrow>
     0 \<le> m_lastReadOffset rc \<and> 0 \<le> m_pendingReadOffset rc \<and>
     (m_clear rc \<or>
      (m_lastRead rc \<noteq> [] \<longrightarrow> (\<exists>n. slice_of c n (nat (m_lastReadOffset rc)) (m_lastRead rc))) \<and>
      future_ok c p (m_pendingReadOffset rc) (m_pendingRead rc))"

text \<open>Either batches are confirmed in order, or no two writes overlap, the coming ones included.\<close>

definition orderly :: "(off_t \<times> string) list option \<Rightarrow> 'w agent \<Rightarrow> bool" where
  "orderly ord s \<longleftrightarrow>
     (case ord of
        None \<Rightarrow> first_first (ag_wakeups s)
      | Some coming \<Rightarrow> sorted_wrt apart (unconfirmed (ag_write s) @ coming))"

definition agent_good :: "('w \<Rightarrow> file_id \<Rightarrow> string) \<Rightarrow> ('w \<Rightarrow> bool) \<Rightarrow> nat \<Rightarrow> (off_t \<times> string) list option \<Rightarrow> file_id \<Rightarrow> string \<Rightarrow> 'w agent \<Rightarrow> bool" where
  "agent_good content ok limit ord p c s \<longleftrightarrow>
     ok (ag_world s) \<and>
     batches_ok limit p (ag_write s) \<and>
     write_all (unconfirmed (ag_write s)) (content (ag_world s) p) = c \<and>
     cache_ok (content (ag_world s) p) p (ag_read s) \<and>
     orderly ord s"

definition after_write :: "off_t \<times> string \<Rightarrow> (off_t \<times> string) list option \<Rightarrow> (off_t \<times> string) list option" where
  "after_write x ord = (case ord of None \<Rightarrow> None | Some coming \<Rightarrow> Some (x # coming))"

text \<open>A stored error ends the run before it can be observed that data was lost.\<close>

definition agent_inv :: "('w \<Rightarrow> file_id \<Rightarrow> string) \<Rightarrow> ('w \<Rightarrow> bool) \<Rightarrow> nat \<Rightarrow> (off_t \<times> string) list option \<Rightarrow> file_id \<Rightarrow> string \<Rightarrow> 'w agent \<Rightarrow> bool" where
  "agent_inv content ok limit ord p c s \<longleftrightarrow>
     ag_buffered s \<and> (m_lastError (ag_write s) = None \<longrightarrow> agent_good content ok limit ord p c s)"


section \<open>The write buffer\<close>

lemma remove_nth_split:
  assumes "k < length xs"
  obtains ys zs where "xs = ys @ xs ! k # zs" "remove_nth k xs = ys @ zs" "length ys = k"
  using assms that [of "take k xs" "drop (Suc k) xs"] by (simp add: remove_nth_def id_take_nth_drop)

lemma add_data_writes:
  assumes "0 \<le> off" "\<forall>x \<in> set (m_buffers b). 0 \<le> fst x"
  shows "write_all (m_buffers (add_data off buf b)) c = write_at (nat off) buf (write_all (m_buffers b) c)"
proof (cases "m_buffers b = [] \<or> nextOffset b \<noteq> off")
  case True
  then show ?thesis
    by (simp add: add_data_def emplace_def Let_def)
next
  case False
  then obtain bs o' d where bs: "m_buffers b = bs @ [(o', d)]"
    by (cases "m_buffers b" rule: rev_cases) auto
  then show ?thesis
    using False assms
    by (auto simp: add_data_def append_buf_def nextOffset_def write_at_append [symmetric] nat_add_distrib)
qed

lemma add_data_simps [simp]:
  "m_lastError (add_data off buf b) = m_lastError b"
  "wb_inFlight (add_data off buf b) = wb_inFlight b"
  "m_pendingConfirmation (add_data off buf b) = m_pendingConfirmation b"
  "m_lastPath (add_data off buf b) = m_lastPath b"
  by (auto simp: add_data_def emplace_def append_buf_def Let_def split: prod.split)

lemma add_data_buffers:
  obtains "m_buffers (add_data off buf b) = m_buffers b @ [(off, buf)]"
  | bs o' d where "m_buffers b = bs @ [(o', d)]" "off = o' + int (length d)"
      "m_buffers (add_data off buf b) = bs @ [(o', d @ buf)]"
proof (cases "m_buffers b = [] \<or> nextOffset b \<noteq> off")
  case True
  then show ?thesis
    using that(1) by (simp add: add_data_def emplace_def Let_def)
next
  case False
  then obtain bs o' d where bs: "m_buffers b = bs @ [(o', d)]"
    by (cases "m_buffers b" rule: rev_cases) auto
  then show ?thesis
    using False that(2) by (auto simp: add_data_def append_buf_def nextOffset_def)
qed

lemma add_data_size:
  "m_bufferedSize b = sum_list (map (length \<circ> snd) (m_buffers b)) \<Longrightarrow>
   m_bufferedSize (add_data off buf b) = sum_list (map (length \<circ> snd) (m_buffers (add_data off buf b)))"
  by (cases rule: add_data_buffers [of off buf b])
    (auto simp: add_data_def emplace_def append_buf_def Let_def split: prod.split)

lemma apart_extend_left: "apart (off, d) x \<Longrightarrow> apart (off + int (length d), e) x \<Longrightarrow> apart (off, d @ e) x"
  by (cases "snd x") (auto simp: apart_def)

lemma add_data_apart:
  assumes "sorted_wrt apart (xs @ m_buffers b @ (off, buf) # ys)"
  shows "sorted_wrt apart (xs @ m_buffers (add_data off buf b) @ ys)"
  by (cases rule: add_data_buffers [of off buf b]) (use assms in \<open>auto simp: sorted_wrt_append apart_extend apart_extend_left\<close>)

lemma add_data_batches:
  assumes "batches_ok limit p b" "fits limit (off, buf)" "m_lastPath b = p"
  shows "batches_ok limit p (add_data off buf b)"
proof -
  have "\<forall>x \<in> set (m_buffers (add_data off buf b)). fits limit x"
    by (cases rule: add_data_buffers [of off buf b]) (use assms in \<open>auto simp: batches_ok_def unconfirmed_def fits_def\<close>)
  then show ?thesis
    using assms by (auto simp: batches_ok_def add_data_size unconfirmed_def)
qed


context file_storage
begin

text \<open>A confirmed batch moves from the buffer to the storage; the file that the client sees stays.\<close>

lemma batch_reaches_storage:
  assumes good: "agent_good content ok limit ord p c s" and k: "ord = None \<Longrightarrow> k = 0" "k < length (wb_inFlight (ag_write s))"
    and batch: "wb_inFlight (ag_write s) ! k = (q, n, bs)"
    and wrote: "h_multiwrite h q bs (ag_world s) = (Inr j, w)"
    and b: "wb_inFlight b = remove_nth k (wb_inFlight (ag_write s))" "m_buffers b = m_buffers (ag_write s)"
      "m_pendingConfirmation b = m_pendingConfirmation (ag_write s) - n"
      "m_bufferedSize b = m_bufferedSize (ag_write s)" "m_lastPath b = m_lastPath (ag_write s)"
  shows "batches_ok limit p b" "ok w" "write_all (unconfirmed b) (content w p) = c"
    "ord = Some coming \<Longrightarrow> sorted_wrt apart (unconfirmed b @ coming)"
proof -
  obtain ys zs where xs: "wb_inFlight (ag_write s) = ys @ (q, n, bs) # zs" "wb_inFlight b = ys @ zs" "length ys = k"
    using remove_nth_split [OF k(2)] batch b(1) by metis
  have ok: "batches_ok limit p (ag_write s)"
    using good by (simp add: agent_good_def)
  then have bs: "bs \<noteq> []" "q = p" "\<forall>x \<in> set bs. fits limit x"
    using xs by (auto simp: batches_ok_def unconfirmed_def)
  then have bs_pos: "\<forall>x \<in> set bs. 0 \<le> fst x"
    by (simp add: fits_def)
  show "batches_ok limit p b"
    using ok xs b by (auto simp: batches_ok_def unconfirmed_def)
  let ?ys = "concat (map (snd \<circ> snd) ys)"
  have pos: "\<forall>x \<in> set ?ys. 0 \<le> fst x"
    using ok xs by (auto simp: batches_ok_def unconfirmed_def fits_def)
  have sorted: "sorted_wrt apart (?ys @ bs @ concat (map (snd \<circ> snd) zs) @ m_buffers (ag_write s) @ coming)"
    if "ord = Some coming" for coming
    using good xs that by (simp add: agent_good_def orderly_def unconfirmed_def)
  have apart: "\<forall>x \<in> set ?ys. \<forall>y \<in> set bs. apart x y"
  proof (cases ord)
    case None
    then show ?thesis
      using k(1) xs(3) by simp
  next
    case (Some coming)
    then show ?thesis
      using sorted by (auto simp: sorted_wrt_append)
  qed
  have "write_all ?ys (write_all bs (content (ag_world s) p)) = write_all bs (write_all ?ys (content (ag_world s) p))"
    using write_all_commute [OF apart pos bs_pos] by simp
  moreover have "content w p = write_all bs (content (ag_world s) p)" "ok w"
    using multiwrite_writes [OF _ bs(1) bs(3), of "ag_world s" p j] wrote bs(2) good by (simp_all add: agent_good_def)
  ultimately show "ok w"  "write_all (unconfirmed b) (content w p) = c"
    using good xs b by (simp_all add: agent_good_def unconfirmed_def)
  show "sorted_wrt apart (unconfirmed b @ coming)" if "ord = Some coming"
    using sorted [OF that] xs b by (auto simp: unconfirmed_def sorted_wrt_append)
qed

lemma confirm_inv:
  assumes "agent_inv content ok limit ord p c s" "ord = None \<Longrightarrow> k = 0"
  shows "agent_inv content ok limit ord p c (confirm h k bw s)"
proof (cases "k < length (wb_inFlight (ag_write s))")
  case True
  obtain q n bs where batch: "wb_inFlight (ag_write s) ! k = (q, n, bs)"
    by (metis prod_cases3)
  obtain r w where wr: "h_multiwrite h q bs (ag_world s) = (r, w)"
    by fastforce
  show ?thesis
  proof (cases r)
    case (Inl x)
    then show ?thesis
      using assms True batch wr by (simp add: confirm_def Let_def agent_inv_def)
  next
    case (Inr j)
    let ?s = "confirm h k bw s"
    have b: "wb_inFlight (ag_write ?s) = remove_nth k (wb_inFlight (ag_write s))"
      "m_buffers (ag_write ?s) = m_buffers (ag_write s)"
      "m_pendingConfirmation (ag_write ?s) = m_pendingConfirmation (ag_write s) - n"
      "m_bufferedSize (ag_write ?s) = m_bufferedSize (ag_write s)" "m_lastPath (ag_write ?s) = m_lastPath (ag_write s)"
      and s: "m_lastError (ag_write ?s) = m_lastError (ag_write s)" "ag_world ?s = w" "ag_buffered ?s = ag_buffered s"
        "ag_read ?s = (ag_read s)\<lparr>m_clear := True\<rparr>"
      using True batch wr Inr by (simp_all add: confirm_def Let_def split: option.split)
    show ?thesis
    proof (cases "m_lastError (ag_write s)")
      case None
      then have good: "agent_good content ok limit ord p c s"
        using assms(1) by (simp add: agent_inv_def)
      note moved = batch_reaches_storage [OF good assms(2) True batch wr [unfolded Inr] b]
      have "cache_ok (content w p) p (ag_read ?s)"
        using good by (simp add: s agent_good_def cache_ok_def)
      moreover have "orderly ord ?s"
        using moved(4) good by (cases ord) (simp_all add: orderly_def agent_good_def)
      ultimately show ?thesis
        using moved(1-3) assms(1) by (simp add: agent_inv_def agent_good_def s)
    qed (use assms(1) s in \<open>simp add: agent_inv_def\<close>)
  qed
qed (use assms in \<open>simp add: confirm_def\<close>)

lemma time_out_inv: "agent_inv content ok limit ord p c s \<Longrightarrow> agent_inv content ok limit ord p c (time_out s)"
  by (simp add: agent_inv_def time_out_def)

lemma wakeups_inv:
  "agent_inv content ok limit ord p c s \<Longrightarrow> (ord = None \<Longrightarrow> first_first es) \<Longrightarrow> agent_inv content ok limit ord p c (s\<lparr>ag_wakeups := es\<rparr>)"
  by (cases ord) (auto simp: agent_inv_def agent_good_def orderly_def)

lemma await_inv:
  "agent_inv content ok limit ord p c s \<Longrightarrow> agent_inv content ok limit ord p c (await_pending h thr s)"
proof (induction "ag_wakeups s" arbitrary: s)
  case Nil
  then show ?case
    by (subst await_pending.simps) (simp add: time_out_inv)
next
  case (Cons e es)
  have first: "ord = None \<Longrightarrow> first_first (e # es)" if "m_lastError (ag_write s) = None"
    using Cons.prems Cons.hyps(2) that by (simp add: agent_inv_def agent_good_def orderly_def)
  have popped: "agent_inv content ok limit ord p c (s\<lparr>ag_wakeups := es\<rparr>)"
    using Cons.prems first by (cases ord) (auto simp: agent_inv_def agent_good_def orderly_def first_first_def)
  show ?case
  proof (cases "m_lastError (ag_write s) = None \<and> thr (ag_write s) < m_pendingConfirmation (ag_write s)")
    case True
    then show ?thesis
    proof (cases e)
      case (Confirmed k bw)
      then have "agent_inv content ok limit ord p c (confirm h k bw (s\<lparr>ag_wakeups := es\<rparr>))"
        using popped first True by (intro confirm_inv) (auto simp: first_first_def)
      then show ?thesis
        using True Confirmed Cons.hyps(1) [of "confirm h k bw (s\<lparr>ag_wakeups := es\<rparr>)"] Cons.hyps(2)
        by (subst await_pending.simps) (simp flip: Cons.hyps(2))
    next
      case TimedOut
      then show ?thesis
        using True Cons.hyps(1) [of "time_out (s\<lparr>ag_wakeups := es\<rparr>)"] Cons.hyps(2) time_out_inv [OF popped]
        by (subst await_pending.simps) (simp flip: Cons.hyps(2))
    qed
  next
    case False
    then show ?thesis
      using Cons.prems by (subst await_pending.simps) auto
  qed
qed

end


lemma confirm_keeps_buffers [simp]:
  "m_buffers (ag_write (confirm h k bw s)) = m_buffers (ag_write s)"
  "m_bufferedSize (ag_write (confirm h k bw s)) = m_bufferedSize (ag_write s)"
  by (simp_all add: confirm_def Let_def split: prod.split sum.split option.split)

lemma await_keeps_buffers [simp]:
  "m_buffers (ag_write (await_pending h limit s)) = m_buffers (ag_write s)"
  "m_bufferedSize (ag_write (await_pending h limit s)) = m_bufferedSize (ag_write s)"
proof (induction h limit s rule: await_pending.induct)
  case (1 h limit s)
  {
    case 1
    then show ?case
      using "1.IH" by (subst await_pending.simps) (auto simp: time_out_def split: list.split wakeup.split)
  next
    case 2
    then show ?case
      using "1.IH" by (subst await_pending.simps) (auto simp: time_out_def split: list.split wakeup.split)
  }
qed

lemma await_stops:
  "m_lastError (ag_write (await_pending h limit s)) \<noteq> None \<or>
   m_pendingConfirmation (ag_write (await_pending h limit s)) \<le> limit (ag_write (await_pending h limit s))"
proof (induction h limit s rule: await_pending.induct)
  case (1 h limit s)
  then show ?case
    by (subst (1 2 3) await_pending.simps) (auto simp: time_out_def split: list.split wakeup.split)
qed

lemma pushBuffer_empties: "m_bufferedSize (ag_write (pushBuffer h p s)) = 0"
  by (simp add: pushBuffer_def Let_def)

lemma throwLastError_success:
  "throwLastError s = (Inr u, s') \<longleftrightarrow> m_lastError (ag_write s) = None \<and> s' = s"
  by (auto simp: throwLastError_def split: option.splits)

context file_storage
begin

lemma sent_inv:
  assumes "agent_inv content ok limit ord p c s" "0 < m_bufferedSize (ag_write s)"
    "b = (ag_write s)\<lparr>m_pendingConfirmation := m_pendingConfirmation (ag_write s) + m_bufferedSize (ag_write s), m_bufferedSize := 0,
           m_buffers := [], wb_inFlight := wb_inFlight (ag_write s) @ [(p, m_bufferedSize (ag_write s), m_buffers (ag_write s))]\<rparr>"
  shows "agent_inv content ok limit ord p c (s\<lparr>ag_write := b\<rparr>)"
proof -
  have "unconfirmed b = unconfirmed (ag_write s)"
    by (simp add: assms(3) unconfirmed_def)
  moreover have "batches_ok limit p (ag_write s) \<Longrightarrow> batches_ok limit p b"
    using assms(2) calculation unfolding batches_ok_def by (auto simp: assms(3))
  ultimately show ?thesis
    using assms(1) by (cases ord) (simp_all add: agent_inv_def agent_good_def orderly_def assms(3))
qed

lemma pushBuffer_inv:
  assumes "agent_inv content ok limit ord p c s"
  shows "agent_inv content ok limit ord p c (pushBuffer h p s)"
  using await_inv [OF sent_inv [OF assms]] assms by (simp add: pushBuffer_def Let_def)

lemma set_last_inv:
  assumes "agent_inv content ok limit ord p c s"
  shows "agent_inv content ok limit ord p c (s\<lparr>ag_write := (ag_write s)\<lparr>m_lastPath := p\<rparr>\<rparr>)"
proof -
  have "unconfirmed ((ag_write s)\<lparr>m_lastPath := p\<rparr>) = unconfirmed (ag_write s)"
    by (simp add: unconfirmed_def)
  then show ?thesis
    using assms by (cases ord) (simp_all add: agent_inv_def agent_good_def batches_ok_def orderly_def)
qed

lemma scheduledFlush_inv:
  assumes "agent_inv content ok limit ord p c s"
  shows "agent_inv content ok limit ord p c (scheduledFlush h s)"
proof (cases "m_lastError (ag_write s) = None \<and> 0 < m_bufferedSize (ag_write s)")
  case True
  then have "m_lastPath (ag_write s) = p"
    using assms by (simp add: agent_inv_def agent_good_def batches_ok_def)
  then show ?thesis
    using pushBuffer_inv [OF assms] by (simp add: scheduledFlush_def)
next
  case False
  then show ?thesis
    using assms
    by (cases "m_bufferedSize (ag_write s) = 0")
      (auto simp: scheduledFlush_def pushBuffer_def Let_def agent_inv_def await_pending.simps)
qed

lemma wb_flush_inv:
  assumes "agent_inv content ok limit ord p c s" "wb_flush h p s = (Inr u, s')"
  shows "agent_inv content ok limit ord p c s'" "m_bufferedSize (ag_write s') = 0"
  using assms(2) pushBuffer_inv [OF set_last_inv [OF assms(1)]]
  by (auto simp: wb_flush_def set_last_def act_defs throwLastError_success pushBuffer_empties
      split: prod.splits sum.splits)

lemma drained:
  assumes "batches_ok limit p b" "m_bufferedSize b = 0" "m_pendingConfirmation b = 0"
  shows "write_all (unconfirmed b) c = c"
proof (rule write_all_empty)
  have "wb_inFlight b = []"
    using assms by (cases "wb_inFlight b") (auto simp: batches_ok_def)
  then show "\<forall>(off, d) \<in> set (unconfirmed b). d = []"
    using assms by (auto simp: batches_ok_def unconfirmed_def)
qed

lemma wb_fsync_inv:
  assumes "agent_inv content ok limit ord p c s" "wb_fsync h p s = (Inr u, s')"
  shows "agent_inv content ok limit ord p c s'" "m_lastError (ag_write s') = None" "content (ag_world s') p = c"
proof -
  obtain s1 where s1: "wb_flush h p s = (Inr (), s1)" "s' = await_pending h (\<lambda>_. 0) s1" "m_lastError (ag_write s') = None"
    using assms(2) by (auto simp: wb_fsync_def act_defs throwLastError_success split: prod.splits sum.splits)
  show "m_lastError (ag_write s') = None"
    by (rule s1(3))
  show inv: "agent_inv content ok limit ord p c s'"
    using await_inv wb_flush_inv(1) [OF assms(1) s1(1)] s1(2) by simp
  then have "batches_ok limit p (ag_write s')" "write_all (unconfirmed (ag_write s')) (content (ag_world s') p) = c"
    using s1(3) by (simp_all add: agent_inv_def agent_good_def)
  moreover have "m_bufferedSize (ag_write s') = 0"
    using wb_flush_inv(2) [OF assms(1) s1(1)] s1(2) by simp
  moreover have "m_pendingConfirmation (ag_write s') = 0"
    using await_stops [of h "\<lambda>_. 0" s1] s1(2,3) by simp
  ultimately show "content (ag_world s') p = c"
    using drained by auto
qed

lemma buffered_inv:
  assumes "agent_inv content ok limit (after_write (off, buf) ord) p c s" "m_lastError (ag_write s) = None"
    "m_lastPath (ag_write s) = p" "fits limit (off, buf)"
  shows "agent_inv content ok limit ord p (write_at (nat off) buf c) (s\<lparr>ag_write := add_data off buf (ag_write s)\<rparr>)"
proof -
  let ?s = "s\<lparr>ag_write := add_data off buf (ag_write s)\<rparr>"
  have good: "agent_good content ok limit (after_write (off, buf) ord) p c s"
    using assms(1,2) by (simp add: agent_inv_def)
  have "orderly ord ?s"
    using good add_data_apart [of "concat (map (snd \<circ> snd) (wb_inFlight (ag_write s)))" "ag_write s" off buf]
    by (auto simp: agent_good_def orderly_def unconfirmed_def after_write_def split: option.splits)
  moreover have "write_all (unconfirmed (ag_write ?s)) (content (ag_world ?s) p) = write_at (nat off) buf c"
    using good assms(4) by (auto simp: agent_good_def unconfirmed_def batches_ok_def add_data_writes fits_def)
  ultimately show ?thesis
    using good assms by (simp add: agent_inv_def agent_good_def add_data_batches)
qed

lemma wb_write_inv:
  assumes "agent_inv content ok limit (after_write (off, buf) ord) p c s" "wb_write h p buf off s = (Inr n, s')" "fits limit (off, buf)"
  shows "agent_inv content ok limit ord p (write_at (nat off) buf c) s'" "n = length buf"
proof -
  let ?s1 = "s\<lparr>ag_write := (ag_write s)\<lparr>m_lastPath := p\<rparr>\<rparr>"
  let ?s2 = "?s1\<lparr>ag_write := add_data off buf (ag_write ?s1)\<rparr>"
  have steps: "m_lastError (ag_write ?s1) = None"
    "s' = (if flushThreshold (ag_write ?s2) < m_bufferedSize (ag_write ?s2) then pushBuffer h p ?s2 else ?s2)"
    and n: "n = length buf"
    using assms(2)
    by (auto simp: wb_write_def set_last_def act_defs throwLastError_success split: prod.splits sum.splits)
  show "n = length buf"
    by (rule n)
  have "agent_inv content ok limit ord p (write_at (nat off) buf c) ?s2"
    by (intro buffered_inv set_last_inv assms(1,3) steps(1)) simp
  then show "agent_inv content ok limit ord p (write_at (nat off) buf c) s'"
    using pushBuffer_inv by (auto simp: steps(2))
qed

end


section \<open>The read cache\<close>

lemma measure_bps_simps [simp]:
  "m_lastReadOffset (measure_bps bw c) = m_lastReadOffset c" "m_lastRead (measure_bps bw c) = m_lastRead c"
  "m_pendingReadOffset (measure_bps bw c) = m_pendingReadOffset c" "m_pendingRead (measure_bps bw c) = m_pendingRead c"
  "m_clear (measure_bps bw c) = m_clear c"
  by (simp_all add: measure_bps_def split: option.split)

lemma cache_ok_measure_bps [simp]: "cache_ok c p (measure_bps bw rc) = cache_ok c p rc"
  by (simp add: cache_ok_def)

text \<open>Reading leaves the writes alone.\<close>

definition same_writes :: "('w \<Rightarrow> file_id \<Rightarrow> string) \<Rightarrow> ('w \<Rightarrow> bool) \<Rightarrow> 'w agent \<Rightarrow> 'w agent \<Rightarrow> bool" where
  "same_writes content ok s s' \<longleftrightarrow>
     ag_write s' = ag_write s \<and> ag_wakeups s' = ag_wakeups s \<and> ag_buffered s' = ag_buffered s \<and>
     (ok (ag_world s) \<longrightarrow> ok (ag_world s') \<and> content (ag_world s') = content (ag_world s))"

lemma same_writes_inv:
  assumes "same_writes content ok s s'" "agent_inv content ok limit ord p c s"
    "m_lastError (ag_write s) = None \<Longrightarrow> cache_ok (content (ag_world s) p) p (ag_read s')"
  shows "agent_inv content ok limit ord p c s'"
  using assms by (cases ord) (auto simp: agent_inv_def agent_good_def orderly_def same_writes_def)

lemma from_cache_slice:
  assumes "slice_of c k (nat (m_lastReadOffset rc)) (m_lastRead rc)" "cached off rc" "0 \<le> m_lastReadOffset rc"
  shows "slice_of c n (nat off) (from_cache n off rc)"
  using slice_of_part [OF assms(1), of "nat off" n] assms(2,3)
  by (auto simp: from_cache_def cached_def nat_diff_distrib nat_less_iff le_nat_iff)

context file_storage
begin

lemma answer_ok:
  assumes "answer h p off n bw s = (Inr r, s')"
  shows "same_writes content ok s s'" "\<exists>bw'. ag_read s' = measure_bps bw' (ag_read s)"
    "ok (ag_world s) \<Longrightarrow> 0 \<le> off \<Longrightarrow> r = Inr d \<Longrightarrow> slice_of (content (ag_world s) p) n (nat off) d"
proof -
  obtain r' w where rd: "h_read h p n off (ag_world s) = (r', w)"
    by fastforce
  have "measure_bps None (ag_read s) = ag_read s"
    by (simp add: measure_bps_def)
  then show "\<exists>bw'. ag_read s' = measure_bps bw' (ag_read s)"
    using assms rd by (auto simp: answer_def split: sum.splits intro: exI [of _ None])
  show "same_writes content ok s s'"
    using assms rd read_keeps [of "ag_world s" p n off] by (auto simp: answer_def same_writes_def split: sum.splits)
  show "slice_of (content (ag_world s) p) n (nat off) d" if "ok (ag_world s)" "0 \<le> off" "r = Inr d"
    using assms rd that read_slice [of "ag_world s" off p n d] by (auto simp: answer_def split: sum.splits)
qed

lemma wait_for_ok:
  assumes "wait_for h f s = (Inr r, s')"
  shows "same_writes content ok s s'" "\<exists>bw. ag_read s' = measure_bps bw (ag_read s)"
    "ok (ag_world s) \<Longrightarrow> future_ok (content (ag_world s) p) p off (Some f) \<Longrightarrow> 0 \<le> off \<Longrightarrow> r = Inr d \<Longrightarrow>
     \<exists>n. slice_of (content (ag_world s) p) n (nat off) d"
    "ok (ag_world s) \<Longrightarrow> f = Requested p off n \<Longrightarrow> 0 \<le> off \<Longrightarrow> r = Inr d \<Longrightarrow> slice_of (content (ag_world s) p) n (nat off) d"
proof -
  obtain wts where "(\<exists>r'. f = Arrived r' \<and> r = r' \<and> s' = s\<lparr>ag_waits := wts\<rparr>) \<or>
      (\<exists>q o' n bw. f = Requested q o' n \<and> answer h q o' n bw (s\<lparr>ag_waits := wts\<rparr>) = (Inr r, s'))"
    using assms
    by (auto simp: wait_for_def next_wait_def act_defs split: list.splits waiting.splits read_future.splits prod.splits)
      (metis agent.surjective agent.update_convs(6))+
  then consider (arrived) "f = Arrived r" "s' = s\<lparr>ag_waits := wts\<rparr>"
    | (asked) q o' n' bw where "f = Requested q o' n'" "answer h q o' n' bw (s\<lparr>ag_waits := wts\<rparr>) = (Inr r, s')"
    by blast
  note cases = this
  have None: "measure_bps None (ag_read s) = ag_read s"
    by (simp add: measure_bps_def)
  show "same_writes content ok s s'"
    using cases
  proof cases
    case asked
    then show ?thesis
      using answer_ok(1) [OF asked(2)] by (simp add: same_writes_def)
  qed (simp add: same_writes_def)
  show "\<exists>bw. ag_read s' = measure_bps bw (ag_read s)"
    using cases
  proof cases
    case asked
    then show ?thesis
      using answer_ok(2) [OF asked(2)] by simp
  qed (use None in \<open>auto intro: exI [of _ None]\<close>)
  show "\<exists>n. slice_of (content (ag_world s) p) n (nat off) d"
    if "ok (ag_world s)" "future_ok (content (ag_world s) p) p off (Some f)" "0 \<le> off" "r = Inr d"
    using cases
  proof cases
    case arrived
    then show ?thesis
      using that by (auto simp: future_ok_def)
  next
    case asked
    then show ?thesis
      using that answer_ok(3) [OF asked(2)] by (auto simp: future_ok_def)
  qed
  show "slice_of (content (ag_world s) p) n (nat off) d" if "ok (ag_world s)" "f = Requested p off n" "0 \<le> off" "r = Inr d"
    using cases
  proof cases
    case asked
    then show ?thesis
      using that answer_ok(3) [OF asked(2)] by auto
  qed (use that in simp)
qed

lemma arrive_inv:
  assumes "agent_inv content ok limit ord p c s" "arrive h bw s = (Inr u, s')"
  shows "agent_inv content ok limit ord p c s'"
proof (cases "\<exists>q off n. m_pendingRead (ag_read s) = Some (Requested q off n)")
  case True
  then obtain q off n where req: "m_pendingRead (ag_read s) = Some (Requested q off n)"
    by blast
  then obtain r s1 where s1: "answer h q off n bw s = (Inr r, s1)"
    "s' = s1\<lparr>ag_read := (ag_read s1)\<lparr>m_pendingRead := Some (Arrived r)\<rparr>\<rparr>"
    using assms(2) by (auto simp: arrive_def with_read_def act_defs split: prod.splits sum.splits)
  obtain bw' where bw': "ag_read s1 = measure_bps bw' (ag_read s)"
    using answer_ok(2) [OF s1(1)] by blast
  have slice: "ok (ag_world s) \<Longrightarrow> 0 \<le> off \<Longrightarrow> r = Inr d \<Longrightarrow> slice_of (content (ag_world s) q) n (nat off) d" for d
    by (rule answer_ok(3) [OF s1(1)])
  show ?thesis
  proof (rule same_writes_inv [OF _ assms(1)])
    show "same_writes content ok s s'"
      using answer_ok(1) [OF s1(1)] s1(2) by (simp add: same_writes_def)
    assume "m_lastError (ag_write s) = None"
    then have "ok (ag_world s)" "cache_ok (content (ag_world s) p) p (ag_read s)"
      using assms(1) by (simp_all add: agent_inv_def agent_good_def)
    then show "cache_ok (content (ag_world s) p) p (ag_read s')"
      using slice by (auto simp: s1(2) bw' cache_ok_def future_ok_def req split: sum.split)
  qed
next
  case False
  then have "s' = s"
    using assms(2)
    by (auto simp: arrive_def act_defs split: option.splits read_future.splits)
  then show ?thesis
    using assms(1) by simp
qed

end


lemma bindA_modifyA: "bindA (modifyA f) g s = g () (f s)"
  by (simp add: act_defs)

lemma bindA_getA: "bindA (getA f) g s = g (f s) s"
  by (simp add: act_defs)

lemma same_writes_trans: "same_writes content ok s s' \<Longrightarrow> same_writes content ok s' s'' \<Longrightarrow> same_writes content ok s s''"
  by (simp add: same_writes_def)

context file_storage
begin

lemma take_pending_ok:
  assumes "take_pending h p f s = (Inr u, s')" and c: "c = content (ag_world s) p" "ok (ag_world s)"
    and ok: "cache_ok c p (ag_read s)" "\<not> m_clear (ag_read s)" "m_pendingRead (ag_read s) = Some f"
  shows "same_writes content ok s s'" "cache_ok c p (ag_read s')" "\<not> m_clear (ag_read s')"
    "m_lastReadOffset (ag_read s') = m_pendingReadOffset (ag_read s)"
    "\<exists>n. slice_of c n (nat (m_lastReadOffset (ag_read s'))) (m_lastRead (ag_read s'))"
proof -
  let ?s1 = "s\<lparr>ag_read := (ag_read s)\<lparr>m_lastReadOffset := m_pendingReadOffset (ag_read s)\<rparr>\<rparr>"
  obtain d s2 where s2: "wait_for h f ?s1 = (Inr (Inr d), s2)"
    and s': "s' = (let rc = (ag_read s2)\<lparr>m_pendingRead := None, m_lastRead := d, m_lastCacheRefresh := ag_now s2\<rparr>;
                       off = m_lastReadOffset rc + int (length d)
                   in s2\<lparr>ag_read := rc\<lparr>m_pendingReadOffset := off, m_pendingRead := Some (Requested p off (blockSize rc))\<rparr>\<rparr>)"
    using assms(1)
    by (auto simp: take_pending_def with_read_def refresh_def act_defs Let_def split: prod.splits sum.splits)
  obtain bw where bw: "ag_read s2 = measure_bps bw (ag_read ?s1)"
    using wait_for_ok(2) [OF s2] by blast
  have off: "0 \<le> m_pendingReadOffset (ag_read s)" and fut: "future_ok c p (m_pendingReadOffset (ag_read s)) (Some f)"
    using ok by (simp_all add: cache_ok_def)
  obtain n where slice: "slice_of c n (nat (m_pendingReadOffset (ag_read s))) d"
    using wait_for_ok(3) [OF s2, of p "m_pendingReadOffset (ag_read s)" d] fut off c by auto
  show "same_writes content ok s s'"
    using wait_for_ok(1) [OF s2] by (simp add: s' same_writes_def Let_def)
  show "\<not> m_clear (ag_read s')" "m_lastReadOffset (ag_read s') = m_pendingReadOffset (ag_read s)"
    using ok(2) by (simp_all add: s' bw Let_def)
  show "\<exists>n. slice_of c n (nat (m_lastReadOffset (ag_read s'))) (m_lastRead (ag_read s'))"
    using slice by (auto simp: s' bw Let_def)
  show "cache_ok c p (ag_read s')"
    using slice off by (auto simp: s' bw Let_def cache_ok_def future_ok_def)
qed

lemma read_through_ok:
  assumes "read_through h p n off s = (Inr d, s')" "0 \<le> off" and c: "c = content (ag_world s) p" "ok (ag_world s)"
  shows "same_writes content ok s s'" "cache_ok c p (ag_read s')" "slice_of c n (nat off) d"
proof -
  let ?s1 = "s\<lparr>ag_read := (ag_read s)\<lparr>m_pendingReadOffset := off + int n,
              m_pendingRead := Some (Requested p (off + int n) (blockSize (ag_read s))), m_lastReadOffset := off\<rparr>\<rparr>"
  obtain d' s2 where s2: "wait_for h (Requested p off n) ?s1 = (Inr (Inr d'), s2)"
    and s': "s' = s2\<lparr>ag_read := (ag_read s2)\<lparr>m_lastRead := d', m_lastCacheRefresh := ag_now s2\<rparr>\<rparr>" "d = take n d'"
    using assms(1)
    by (auto simp: read_through_def with_read_def refresh_def act_defs split: prod.splits sum.splits)
  obtain bw where bw: "ag_read s2 = measure_bps bw (ag_read ?s1)"
    using wait_for_ok(2) [OF s2] by blast
  have slice: "slice_of c n (nat off) d'"
    using wait_for_ok(4) [OF s2, of p off n d'] assms(2) c by simp
  show "same_writes content ok s s'"
    using wait_for_ok(1) [OF s2] by (simp add: s' same_writes_def)
  show "cache_ok c p (ag_read s')"
    using slice assms(2) by (auto simp: s' bw cache_ok_def future_ok_def)
  show "slice_of c n (nat off) d"
    using slice by (simp add: s'(2) slice_of_take)
qed

lemma rc_read_ok:
  assumes "rc_read h p n off s = (Inr d, s')" "0 \<le> off" and c: "c = content (ag_world s) p" "ok (ag_world s)"
    and ok: "cache_ok c p (ag_read s)"
  shows "same_writes content ok s s' \<and> cache_ok c p (ag_read s') \<and> slice_of c n (nat off) d"
proof -
  let ?s1 = "if m_clear (ag_read s) \<or> m_lastCacheRefresh (ag_read s) + 5000000000 < ag_now s
              then s\<lparr>ag_read := (ag_read s)\<lparr>m_lastRead := [], m_pendingRead := None, m_clear := False\<rparr>\<rparr> else s"
  have s1: "same_writes content ok s ?s1" "cache_ok c p (ag_read ?s1)" "\<not> m_clear (ag_read ?s1)" "c = content (ag_world ?s1) p" "ok (ag_world ?s1)"
    using ok c by (auto simp: same_writes_def cache_ok_def future_ok_def)
  define t where "t = ?s1"
  have rest: "(if cached off (ag_read t) then returnA (from_cache n off (ag_read t))
     else
       case m_pendingRead (ag_read t) of
         Some f \<Rightarrow>
           if m_pendingReadOffset (ag_read t) \<le> off then
             bindA (take_pending h p f) (\<lambda>_.
             bindA (getA ag_read) (\<lambda>c'.
             if off < m_lastReadOffset c' + int (length (m_lastRead c')) then returnA (from_cache n off c')
             else read_through h p n off))
           else read_through h p n off
       | None \<Rightarrow> read_through h p n off) t = (Inr d, s')"
    using assms(1) unfolding rc_read_def bindA_modifyA bindA_getA t_def .
  have t: "same_writes content ok s t" "cache_ok c p (ag_read t)" "\<not> m_clear (ag_read t)" "c = content (ag_world t) p" "ok (ag_world t)"
    using s1 by (simp_all add: t_def)
  have through: "same_writes content ok s s' \<and> cache_ok c p (ag_read s') \<and> slice_of c n (nat off) d"
    if "same_writes content ok s t'" "read_through h p n off t' = (Inr d, s')" for t'
    using read_through_ok [OF that(2) assms(2), of c] that(1) c same_writes_trans
    by (fastforce simp: same_writes_def)
  show ?thesis
  proof (cases "cached off (ag_read t)")
    case True
    then have "m_lastRead (ag_read t) \<noteq> []"
      by (auto simp: cached_def)
    then obtain k where "slice_of c k (nat (m_lastReadOffset (ag_read t))) (m_lastRead (ag_read t))"
      using t by (auto simp: cache_ok_def)
    then have "slice_of c n (nat off) (from_cache n off (ag_read t))"
      using True t by (intro from_cache_slice) (auto simp: cache_ok_def)
    then show ?thesis
      using rest True t(1,2) by (auto simp: returnA_def)
  next
    case False
    show ?thesis
    proof (cases "\<exists>f. m_pendingRead (ag_read t) = Some f \<and> m_pendingReadOffset (ag_read t) \<le> off")
      case True
      then obtain f where f: "m_pendingRead (ag_read t) = Some f" "m_pendingReadOffset (ag_read t) \<le> off"
        by blast
      then obtain t' u where t': "take_pending h p f t = (Inr u, t')"
        using rest False by (auto simp: bindA_def split: prod.splits sum.splits)
      note taken = take_pending_ok [OF t' t(4,5) t(2,3) f(1)]
      have same: "same_writes content ok s t'"
        using taken(1) t(1) same_writes_trans by blast
      show ?thesis
      proof (cases "off < m_lastReadOffset (ag_read t') + int (length (m_lastRead (ag_read t')))")
        case True
        then have "cached off (ag_read t')"
          using taken(4) f(2) by (simp add: cached_def)
        then have "slice_of c n (nat off) (from_cache n off (ag_read t'))"
          using taken by (auto simp: cache_ok_def intro: from_cache_slice)
        then show ?thesis
          using rest False f t' True same taken(2) by (auto simp: act_defs)
      next
        case short: False
        then have "read_through h p n off t' = (Inr d, s')"
          using rest False f t' by (simp add: act_defs)
        then show ?thesis
          by (rule through [OF same])
      qed
    next
      case other: False
      then have "read_through h p n off t = (Inr d, s')"
        using rest False by (auto split: option.splits)
      then show ?thesis
        by (rule through [OF t(1)])
    qed
  qed
qed

end


section \<open>Runs\<close>

definition ord_before :: "agent_event \<Rightarrow> (off_t \<times> string) list option \<Rightarrow> (off_t \<times> string) list option" where
  "ord_before ev ord = (case ev of EvWrite buf off \<Rightarrow> after_write (int off, buf) ord | _ \<Rightarrow> ord)"

lemma ord_before_run: "foldr ord_before evs (Some coming) = Some (writes_of evs @ coming)"
  by (induction evs) (simp_all add: ord_before_def after_write_def writes_of_def split: agent_event.split)

lemma ord_before_None: "foldr ord_before evs None = None"
  by (induction evs) (simp_all add: ord_before_def after_write_def split: agent_event.split)

lemma on_storage_same:
  assumes "on_storage m s = (r, s')"
    "ok (ag_world s) \<Longrightarrow> content (snd (m (ag_world s))) = content (ag_world s) \<and> ok (snd (m (ag_world s)))"
  shows "same_writes content ok s s'" "ag_read s' = ag_read s" "ag_write s' = ag_write s"
  using assms by (auto simp: on_storage_def same_writes_def split: prod.splits)

lemma on_storage_inv:
  assumes "agent_inv content ok limit ord p c s" "on_storage m s = (r, s')"
    "ok (ag_world s) \<Longrightarrow> content (snd (m (ag_world s))) = content (ag_world s) \<and> ok (snd (m (ag_world s)))"
  shows "agent_inv content ok limit ord p c s'"
  using same_writes_inv [OF on_storage_same(1) [where content = content and ok = ok, OF assms(2,3)] assms(1)] assms(1)
    on_storage_same(2) [where content = content and ok = ok, OF assms(2,3)]
  by (simp add: agent_inv_def agent_good_def)

lemma clear_inv:
  "agent_inv content ok limit ord p c s \<Longrightarrow> agent_inv content ok limit ord p c (s\<lparr>ag_read := (ag_read s)\<lparr>m_clear := True\<rparr>\<rparr>)"
  by (cases ord) (simp_all add: agent_inv_def agent_good_def orderly_def cache_ok_def)

context file_storage
begin

lemma sh_read_inv:
  assumes "agent_inv content ok limit ord p c s" "sh_read h p n off s = (Inr d, s')" "0 \<le> off"
  shows "agent_inv content ok limit ord p c s'" "slice_of c n (nat off) d"
proof -
  obtain s1 where s1: "wb_fsync h p s = (Inr (), s1)" "rc_read h p n off s1 = (Inr d, s')"
    using assms(1,2) by (auto simp: sh_read_def if_buffered_def agent_inv_def bindA_def split: prod.splits sum.splits)
  note synced = wb_fsync_inv [OF assms(1) s1(1)]
  have "cache_ok c p (ag_read s1)"
    using synced by (simp add: agent_inv_def agent_good_def)
  then have "same_writes content ok s1 s' \<and> cache_ok c p (ag_read s') \<and> slice_of c n (nat off) d"
    using synced by (intro rc_read_ok [OF s1(2) assms(3)]) (simp_all add: agent_inv_def agent_good_def)
  then show "agent_inv content ok limit ord p c s'" "slice_of c n (nat off) d"
    using same_writes_inv [OF _ synced(1)] synced(3) by auto
qed

lemma sh_flush_inv:
  assumes "agent_inv content ok limit ord p c s" "sh_flush h p s = (Inr u, s')"
  shows "agent_inv content ok limit ord p c s'"
proof -
  obtain s1 where s1: "wb_flush h p s = (Inr (), s1)"
    "on_storage (h_flush h p) (s1\<lparr>ag_read := (ag_read s1)\<lparr>m_clear := True\<rparr>\<rparr>) = (Inr u, s')"
    using assms
    by (auto simp: sh_flush_def if_buffered_def agent_inv_def rc_clear_def with_read_def act_defs
        split: prod.splits sum.splits)
  show ?thesis
    by (rule on_storage_inv [OF clear_inv [OF wb_flush_inv(1) [OF assms(1) s1(1)]] s1(2)]) (simp add: flush_keeps)
qed

lemma sh_fsync_inv:
  assumes "agent_inv content ok limit ord p c s" "sh_fsync h p s = (Inr u, s')"
  shows "agent_inv content ok limit ord p c s'" "content (ag_world s') p = c"
proof -
  obtain s1 where s1: "wb_fsync h p s = (Inr (), s1)"
    "on_storage (h_fsync h p) (s1\<lparr>ag_read := (ag_read s1)\<lparr>m_clear := True\<rparr>\<rparr>) = (Inr u, s')"
    using assms
    by (auto simp: sh_fsync_def if_buffered_def agent_inv_def rc_clear_def with_read_def act_defs
        split: prod.splits sum.splits)
  show "agent_inv content ok limit ord p c s'"
    by (rule on_storage_inv [OF clear_inv [OF wb_fsync_inv(1) [OF assms(1) s1(1)]] s1(2)]) (simp add: fsync_keeps)
  show "content (ag_world s') p = c"
    using on_storage_same(1) [where content = content and ok = ok, OF s1(2)] wb_fsync_inv [OF assms(1) s1(1)]
    by (simp add: fsync_keeps same_writes_def agent_inv_def agent_good_def)
qed

lemma sh_write_inv:
  assumes "agent_inv content ok limit (after_write (off, buf) ord) p c s" "sh_write h p buf off s = (Inr n, s')" "fits limit (off, buf)"
  shows "agent_inv content ok limit ord p (write_at (nat off) buf c) s'" "n = length buf"
proof -
  have "wb_write h p buf off s = (Inr n, s')"
    using assms(1,2) by (simp add: sh_write_def if_buffered_def agent_inv_def)
  then show "agent_inv content ok limit ord p (write_at (nat off) buf c) s'" "n = length buf"
    using wb_write_inv [OF assms(1)] assms(3) by blast+
qed

lemma agent_do_inv:
  assumes inv: "agent_inv content ok limit (ord_before ev ord) p c s" and run: "agent_do h p ev s = (Inr r, s')"
    and ord: "ord = None \<Longrightarrow> in_order [ev]" and fits: "\<forall>x \<in> set (writes_of [ev]). fits limit x"
  shows "agent_inv content ok limit ord p (file_after [ev] c) s'" "replies_ok c [ev] [r]"
    "ev = EvFsync \<Longrightarrow> content (ag_world s') p = c"
proof -
  have "agent_inv content ok limit ord p (file_after [ev] c) s' \<and> replies_ok c [ev] [r] \<and>
        (ev = EvFsync \<longrightarrow> content (ag_world s') p = c)"
  proof (cases ev)
    case (EvWrite buf off)
    then have "fits limit (int off, buf)"
      using fits by (simp add: writes_of_def)
    moreover from this EvWrite have "sh_write h p buf (int off) s = (Inr (length buf), s')" "r = Count (length buf)"
      using run inv sh_write_inv(2) [of "int off" buf ord p c s]
      by (auto simp: agent_do_def ord_before_def act_defs split: prod.splits sum.splits)
    ultimately show ?thesis
      using sh_write_inv(1) [of "int off" buf ord p c s] inv EvWrite by (simp add: ord_before_def)
  next
    case (EvRead n off)
    then obtain d where "sh_read h p n (int off) s = (Inr d, s')" "r = Data d"
      using run by (auto simp: agent_do_def act_defs split: prod.splits sum.splits)
    then show ?thesis
      using sh_read_inv [of ord p c s n "int off"] inv EvRead by (simp add: ord_before_def)
  next
    case EvFlush
    then have "sh_flush h p s = (Inr (), s')" "r = Done"
      using run by (auto simp: agent_do_def act_defs split: prod.splits sum.splits)
    then show ?thesis
      using sh_flush_inv inv EvFlush by (simp add: ord_before_def)
  next
    case EvFsync
    then have "sh_fsync h p s = (Inr (), s')" "r = Done"
      using run by (auto simp: agent_do_def act_defs split: prod.splits sum.splits)
    then show ?thesis
      using sh_fsync_inv inv EvFsync by (simp add: ord_before_def)
  next
    case EvTimer
    then show ?thesis
      using run inv scheduledFlush_inv by (auto simp: agent_do_def act_defs ord_before_def)
  next
    case (EvConfirm k bw)
    then show ?thesis
      using run inv ord confirm_inv by (auto simp: agent_do_def act_defs ord_before_def in_order_def)
  next
    case (EvArrive bw)
    then have "arrive h bw s = (Inr (), s')" "r = Done"
      using run by (auto simp: agent_do_def act_defs split: prod.splits sum.splits)
    then show ?thesis
      using arrive_inv inv EvArrive by (simp add: ord_before_def)
  next
    case (EvWakeups es)
    then show ?thesis
      using run inv ord wakeups_inv by (auto simp: agent_do_def act_defs ord_before_def in_order_def)
  next
    case (EvWaits wts)
    then show ?thesis
      using run inv by (cases ord) (auto simp: agent_do_def act_defs ord_before_def agent_inv_def agent_good_def orderly_def)
  next
    case (EvClock t)
    then show ?thesis
      using run inv by (cases ord) (auto simp: agent_do_def act_defs ord_before_def agent_inv_def agent_good_def orderly_def)
  qed
  then show "agent_inv content ok limit ord p (file_after [ev] c) s'" "replies_ok c [ev] [r]"
    "ev = EvFsync \<Longrightarrow> content (ag_world s') p = c"
    by blast+
qed

end


lemma file_after_Cons: "file_after (ev # evs) c = file_after evs (file_after [ev] c)"
  by (cases ev) simp_all

lemma replies_ok_Cons:
  "replies_ok c (ev # evs) (r # rs) \<longleftrightarrow> replies_ok c [ev] [r] \<and> replies_ok (file_after [ev] c) evs rs"
  by (cases ev; cases r) simp_all

lemma in_order_Cons: "in_order (ev # evs) \<longleftrightarrow> in_order [ev] \<and> in_order evs"
  by (simp add: in_order_def)

lemma createCTX_open:
  assumes "sh_open bl h p flags (createCTX w) = (Inr fd, s)"
  shows "ag_buffered s" "ag_write s = WriteBuffer_new (minWriteChunkSize bl) (maxWriteChunkSize bl)"
    "ag_read s = ReadCache_new (minReadChunkSize bl) (maxReadChunkSize bl) (readAheadFor bl)" "ag_wakeups s = []"
    "ag_world s = snd (h_open h p flags w)"
  using assms by (auto simp: sh_open_def on_storage_def createCTX_def act_defs split: prod.splits)

context file_storage
begin

lemma opened_inv:
  assumes "ok w" "sh_open bl h p flags (createCTX w) = (Inr fd, s)" "case ord of None \<Rightarrow> True | Some coming \<Rightarrow> sorted_wrt apart coming"
  shows "agent_inv content ok limit ord p (content w p) s"
  using assms(1,3) open_keeps [of w p flags]
  by (simp add: createCTX_open [OF assms(2)] agent_inv_def agent_good_def batches_ok_def unconfirmed_def cache_ok_def
      future_ok_def orderly_def WriteBuffer_new_def ReadCache_new_def first_first_def split: option.splits)

lemma agent_run_inv:
  assumes "agent_inv content ok limit (foldr ord_before evs ord) p c s" "agent_run h p evs s = (Inr rs, s')"
    "ord = None \<Longrightarrow> in_order evs" "\<forall>x \<in> set (writes_of evs). fits limit x"
  shows "replies_ok c evs rs \<and> agent_inv content ok limit ord p (file_after evs c) s' \<and>
    (evs \<noteq> [] \<and> last evs = EvFsync \<longrightarrow> content (ag_world s') p = file_after evs c)"
  using assms
proof (induction evs arbitrary: c s rs)
  case (Cons ev evs)
  obtain r rs' s1 where s1: "agent_do h p ev s = (Inr r, s1)" "agent_run h p evs s1 = (Inr rs', s')" "rs = r # rs'"
    using Cons.prems(2) by (auto simp: act_defs split: prod.splits sum.splits)
  have inv: "agent_inv content ok limit (ord_before ev (foldr ord_before evs ord)) p c s"
    using Cons.prems(1) by simp
  have ord: "in_order [ev] \<and> in_order evs" if "ord = None"
    using Cons.prems(3) that in_order_Cons by blast
  have "in_order [ev]" if "foldr ord_before evs ord = None"
    using that ord by (cases ord) (simp_all add: ord_before_run)
  note step = agent_do_inv [OF inv s1(1) this]
  have fits: "\<forall>x \<in> set (writes_of [ev]). fits limit x" "\<forall>x \<in> set (writes_of evs). fits limit x"
    using Cons.prems(4) by (simp_all add: writes_of_def)
  note step = step [OF _ fits(1)]
  note rest = Cons.IH [OF step(1) s1(2) _ fits(2)]
  have "replies_ok c (ev # evs) rs"
    using step(2) rest ord by (simp add: s1(3) replies_ok_Cons [of c ev evs])
  moreover have "agent_inv content ok limit ord p (file_after (ev # evs) c) s'"
    using rest ord by (simp add: file_after_Cons [of ev evs])
  moreover have "content (ag_world s') p = file_after (ev # evs) c" if "last (ev # evs) = EvFsync"
  proof (cases "evs = []")
    case True
    then have "s' = s1" "ev = EvFsync"
      using s1(2) that by (simp_all add: returnA_def)
    then show ?thesis
      using step(3) True by simp
  next
    case False
    then show ?thesis
      using rest ord that by (simp add: file_after_Cons [of ev evs])
  qed
  ultimately show ?case
    by simp
qed (simp_all add: returnA_def)

end


context file_storage
begin

lemma run_is_flat:
  assumes "ok w" "fst (sh_open bl h p flags (createCTX w)) = Inr fd"
    and "in_order evs \<or> no_overlap evs" "\<forall>x \<in> set (writes_of evs). fits limit x"
    and "fst (agent_run h p evs (snd (sh_open bl h p flags (createCTX w)))) = Inr rs"
  shows "replies_ok (content w p) evs rs \<and>
    (evs \<noteq> [] \<and> last evs = EvFsync \<longrightarrow>
     content (ag_world (snd (agent_run h p evs (snd (sh_open bl h p flags (createCTX w)))))) p = file_after evs (content w p))"
proof -
  let ?s = "snd (sh_open bl h p flags (createCTX w))" and ?ord = "if in_order evs then None else Some []"
  have opened: "sh_open bl h p flags (createCTX w) = (Inr fd, ?s)" and run: "agent_run h p evs ?s = (Inr rs, snd (agent_run h p evs ?s))"
    using assms(2,5) by (simp_all add: prod_eq_iff)
  have "case foldr ord_before evs ?ord of None \<Rightarrow> True | Some coming \<Rightarrow> sorted_wrt apart coming"
    using assms(3) by (cases "in_order evs") (simp_all add: ord_before_run ord_before_None no_overlap_def)
  then have inv: "agent_inv content ok limit (foldr ord_before evs ?ord) p (content w p) ?s"
    by (rule opened_inv [OF assms(1) opened])
  have "in_order evs" if "?ord = None"
    using that by (simp split: if_splits)
  from agent_run_inv [OF inv run this assms(4)] show ?thesis
    by blast
qed

end

section \<open>Batches of writes\<close>

text \<open>The batch write as a plain recursion: one write after the other, until one fails or is short.\<close>

fun write_seq :: "(file_id \<Rightarrow> string \<Rightarrow> off_t \<Rightarrow> ('w, nat) act) \<Rightarrow> file_id \<Rightarrow> (off_t \<times> string) list \<Rightarrow> nat \<Rightarrow> ('w, nat) act" where
  "write_seq wr p [] tot w = (Inr tot, w)"
| "write_seq wr p ((off, buf) # bs) tot w =
     (case wr p buf off w of
        (Inl x, w') \<Rightarrow> (Inl x, w')
      | (Inr n, w') \<Rightarrow> if n < length buf then (Inr (tot + n), w') else write_seq wr p bs (tot + n) w')"

text \<open>The same storage, the same error; the number of bytes may be too small.\<close>

definition same_effect :: "nat res \<times> 'w \<Rightarrow> nat res \<times> 'w \<Rightarrow> bool" where
  "same_effect a b \<longleftrightarrow>
     snd a = snd b \<and> (case (fst a, fst b) of (Inl x, Inl y) \<Rightarrow> x = y | (Inr m, Inr n) \<Rightarrow> m \<le> n | _ \<Rightarrow> False)"

lemma same_effect_simps [simp]:
  "same_effect (Inl x, w) b \<longleftrightarrow> b = (Inl x, w)"
  "same_effect (Inr m, w) b \<longleftrightarrow> (\<exists>n. b = (Inr n, w) \<and> m \<le> n)"
  "same_effect a (Inl x, w) \<longleftrightarrow> a = (Inl x, w)"
  by (cases a; cases b; auto simp: same_effect_def split: sum.splits)+

lemma write_seq_total: "write_seq wr p bs t w = (Inr n, w') \<Longrightarrow> t \<le> n"
  by (induction wr p bs t w rule: write_seq.induct) (auto split: prod.splits sum.splits if_splits)

lemma wrapCallback_seq:
  assumes "0 < i" "i \<le> length bs"
  shows "same_effect (wrapCallback True wr p bs i t r w)
    (case r of
       Inl x \<Rightarrow> (Inl x, w)
     | Inr n \<Rightarrow> if n < length (snd (bs ! (i - 1))) then (Inr (t + n), w) else write_seq wr p (drop i bs) (t + n) w)"
  using assms
proof (induction "True" wr p bs i t r w rule: wrapCallback.induct)
  case (1 wr p bs i t r w)
  show ?case
  proof (cases "i < length bs")
    case False
    then have "drop i bs = []"
      by simp
    then show ?thesis
      using False by (subst wrapCallback.simps) (simp split: sum.split)
  next
    case True
    note drop = Cons_nth_drop_Suc [OF True, symmetric]
    obtain off buf where b: "bs ! i = (off, buf)"
      by fastforce
    show ?thesis
    proof (cases r)
      case (Inl x)
      then show ?thesis
        using True by (subst wrapCallback.simps) simp
    next
      case (Inr n)
      obtain r' w' where wr: "wr p buf off w = (r', w')"
        by fastforce
      show ?thesis
      proof (cases "n < length (snd (bs ! (i - 1)))")
        case short: True
        then show ?thesis
          using True Inr by (subst wrapCallback.simps) simp
      next
        case full: False
        have "same_effect (wrapCallback True wr p bs (i + 1) (t + n) r' w')
          (case r' of
             Inl x \<Rightarrow> (Inl x, w')
           | Inr m \<Rightarrow> if m < length (snd (bs ! i)) then (Inr (t + n + m), w') else write_seq wr p (drop (i + 1) bs) (t + n + m) w')"
          using "1.hyps" [of n "length (snd (bs ! (i - 1)))" "t + n" i r' w'] True Inr full wr b by (cases r') simp_all
        moreover have "write_seq wr p (drop i bs) (t + n) w = (case r' of
             Inl x \<Rightarrow> (Inl x, w')
           | Inr m \<Rightarrow> if m < length (snd (bs ! i)) then (Inr (t + n + m), w') else write_seq wr p (drop (i + 1) bs) (t + n + m) w')"
          using drop b wr by (simp split: sum.split)
        ultimately show ?thesis
          using True Inr full wr b by (subst wrapCallback.simps) simp
      qed
    qed
  qed
qed

lemma multiwrite_seq:
  assumes "bs \<noteq> []"
  shows "same_effect (ash_multiwrite True wr p bs w) (write_seq wr p bs 0 w)"
proof -
  obtain off buf bs' where bs: "bs = (off, buf) # bs'"
    using assms by (cases bs) auto
  obtain r w' where wr: "wr p buf off w = (r, w')"
    by fastforce
  show ?thesis
    using wrapCallback_seq [of 1 bs wr p 0 r w'] bs wr by (auto simp: ash_multiwrite_def split: sum.split)
qed

text \<open>A batch of complete writes applies all of its pieces.\<close>

lemma write_seq_content:
  assumes law: "\<And>off buf w n w'. ok w \<Longrightarrow> fits limit (off, buf) \<Longrightarrow> wr p buf off w = (Inr n, w') \<Longrightarrow>
      n = length buf \<and> content w' p = write_at (nat off) buf (content w p) \<and> ok w'"
    and "ok w" "\<forall>x \<in> set bs. fits limit x" "write_seq wr p bs t w = (Inr k, w')"
  shows "content w' p = write_all bs (content w p) \<and> ok w'"
  using assms(2-)
proof (induction bs arbitrary: t w)
  case (Cons b bs)
  obtain off buf where b: "b = (off, buf)"
    by (cases b)
  then obtain n w1 where wr: "wr p buf off w = (Inr n, w1)"
    using Cons.prems(3) by (auto split: prod.splits sum.splits)
  then show ?case
    using law [OF _ _ wr] Cons b by (auto split: if_splits)
qed simp

lemma multiwrite_content:
  assumes "\<And>off buf w n w'. ok w \<Longrightarrow> fits limit (off, buf) \<Longrightarrow> wr p buf off w = (Inr n, w') \<Longrightarrow>
      n = length buf \<and> content w' p = write_at (nat off) buf (content w p) \<and> ok w'"
    and "ok w" "bs \<noteq> []" "\<forall>x \<in> set bs. fits limit x" "ash_multiwrite True wr p bs w = (Inr k, w')"
  shows "content w' p = write_all bs (content w p) \<and> ok w'"
proof -
  obtain n where "write_seq wr p bs 0 w = (Inr n, w')"
    using multiwrite_seq [OF assms(3), of wr p w] assms(5) by auto
  then show ?thesis
    using write_seq_content [where content = content and ok = ok, OF assms(1,2,4)] by blast
qed

section \<open>A storage in memory\<close>

text \<open>A storage that keeps one file in memory meets the contract; its batches are the default ones.\<close>

definition mem_write :: "file_id \<Rightarrow> string \<Rightarrow> off_t \<Rightarrow> (string, nat) act" where
  "mem_write p buf off w = (Inr (length buf), write_at (nat off) buf w)"

definition mem_helper :: "string helper_ops" where
  "mem_helper =
     \<lparr>h_open = (\<lambda>p flags w. (Inr 0, w)),
      h_read = (\<lambda>p n off w. (Inr (take n (drop (nat off) w)), w)),
      h_write = mem_write,
      h_multiwrite = ash_multiwrite True mem_write,
      h_truncate = (\<lambda>p sz w. (Inr (), resize (nat sz) w)),
      h_flush = (\<lambda>p w. (Inr (), w)),
      h_fsync = (\<lambda>p w. (Inr (), w)),
      h_release = (\<lambda>p w. (Inr (), w))\<rparr>"

interpretation mem: file_storage mem_helper "\<lambda>w p. w" "\<lambda>w. True" limit for limit
proof
  fix bs :: "(off_t \<times> string) list" and p w k
  assume bs: "bs \<noteq> []" "\<forall>x \<in> set bs. fits limit x" and ok: "fst (h_multiwrite mem_helper p bs w) = Inr k"
  then have "ash_multiwrite True mem_write p bs w = (Inr k, snd (h_multiwrite mem_helper p bs w))"
    by (simp add: mem_helper_def prod_eq_iff)
  then show "snd (h_multiwrite mem_helper p bs w) = write_all bs w \<and> True"
    by (rule multiwrite_content [where content = "\<lambda>w p. w" and ok = "\<lambda>w. True", OF _ _ bs, rotated 2])
      (simp_all add: mem_write_def)
qed (auto simp: mem_helper_def slice_of_read)

section \<open>Properties\<close>


text \<open>The definitions that an example run unfolds.\<close>

lemma bindA_steps:
  "m s = (Inr x, s') \<Longrightarrow> bindA m f s = f x s'"
  "m s = (Inl e, s') \<Longrightarrow> bindA m f s = (Inl e, s')"
  by (simp_all add: bindA_def)

lemmas agent_eval =
  bindA_steps Let_def returnA_def throwA_def getA_def modifyA_def agent_do_def sh_open_def sh_read_def sh_write_def sh_flush_def sh_fsync_def sh_truncate_def if_buffered_def on_storage_def
  createCTX_def WriteBuffer_new_def ReadCache_new_def wb_write_def wb_flush_def wb_fsync_def set_last_def throwLastError_def
  add_data_def emplace_def append_buf_def nextOffset_def pushBuffer_def flushThreshold_def confirmThreshold_def
  await_pending.simps confirm_def remove_nth_def time_out_def scheduledFlush_def
  rc_read_def rc_clear_def with_read_def cached_def from_cache_def take_pending_def read_through_def wait_for_def next_wait_def
  answer_def measure_bps_def refresh_def blockSize_def
  mem_helper_def mem_write_def ash_multiwrite_def wrapCallback.simps write_at_def zero_byte_def

definition small_limits :: BufferLimits where
  "small_limits = \<lparr>minReadChunkSize = 2, maxReadChunkSize = 4, readAheadFor = 1, minWriteChunkSize = 2, maxWriteChunkSize = 4\<rparr>"



text \<open>
  C25. The default batch write is the sequence of its writes: with arguments evaluated from left to
  right, it leaves the storage as writing one piece after the other does, stopping at the first error
  or short write, with the same error, and it never reports more bytes than were written. When the
  arguments are evaluated from right to left, a batch of two pieces writes the first one and then
  reads behind the end of the vector.
\<close>

theorem multiwrite_is_write_sequence:
  "(bs \<noteq> [] \<longrightarrow> same_effect (ash_multiwrite True wr p bs w) (write_seq wr p bs 0 w)) \<and>
   (wr p d off w = (Inr (length d), w') \<longrightarrow>
    ash_multiwrite False wr p [(off, d), (off', d')] w = (Inl NullDereference, w'))"
  using multiwrite_seq by (auto simp: ash_multiwrite_def wrapCallback.simps)

theorem multiwrite_is_write_sequence_witness:
  "same_effect (ash_multiwrite True mem_write ''f'' [(0, ''ab''), (4, ''c'')] []) (write_seq mem_write ''f'' [(0, ''ab''), (4, ''c'')] 0 []) \<and>
   ash_multiwrite True mem_write ''f'' [(0, ''ab''), (4, ''c'')] [] = (Inr 1, ''ab'' @ [zero_byte, zero_byte] @ ''c'') \<and>
   ash_multiwrite False mem_write ''f'' [(0, ''ab''), (4, ''c'')] [] = (Inl NullDereference, ''ab'')"
proof -
  have "mem_write ''f'' ''ab'' 0 [] = (Inr (length ''ab''), ''ab'')"
    by (simp add: mem_write_def write_at_def)
  then have "ash_multiwrite False mem_write ''f'' [(0, ''ab''), (4, ''c'')] [] = (Inl NullDereference, ''ab'')"
    using multiwrite_is_write_sequence [of "[]" mem_write "''f''" "[]" "''ab''" 0 "''ab''" 4 "''c''"] by blast
  moreover have "ash_multiwrite True mem_write ''f'' [(0, ''ab''), (4, ''c'')] [] = (Inr 1, ''ab'' @ [zero_byte, zero_byte] @ ''c'')"
    by (simp add: ash_multiwrite_def wrapCallback.simps mem_write_def write_at_def numeral_eq_Suc)
  ultimately show ?thesis
    using multiwrite_is_write_sequence [of "[(0, ''ab''), (4, ''c'')]" mem_write "''f''" "[]" "[]" 0 "[]" 0 "[]"] by blast
qed

text \<open>The offset at which a failed read leaves the cached data.\<close>

definition served_from :: "off_t \<Rightarrow> ReadCache \<Rightarrow> off_t" where
  "served_from off c = (if m_pendingRead c \<noteq> None \<and> m_pendingReadOffset c \<le> off then m_pendingReadOffset c else off)"

text \<open>
  C38. A read that is interrupted or times out leaves wrong data in the cache. The offset of the
  cached data is replaced before the data arrives; when it does not arrive, the data of the previous
  read is served for the offset of the failed one, for as long as the cache is fresh.
\<close>

theorem failed_read_misplaces_cached_data:
  assumes "\<not> m_clear (ag_read s)" "ag_now s \<le> m_lastCacheRefresh (ag_read s) + 5000000000" "\<not> cached off (ag_read s)"
    and "off < served_from off (ag_read s) + int (length (m_lastRead (ag_read s)))"
    and "ag_waits s = wt # wts" "wt = Interrupted \<or> wt = Unanswered \<and> (\<forall>r. m_pendingRead (ag_read s) \<noteq> Some (Arrived r))"
  shows "\<exists>s'. rc_read h p n off s = (Inl (SystemError (if wt = Interrupted then ECANCELED else ETIMEDOUT)), s') \<and>
    (\<forall>k. rc_read h p k off s' = (Inr (take k (drop (nat (off - served_from off (ag_read s))) (m_lastRead (ag_read s)))), s'))"
proof -
  let ?c = "ag_read s" and ?e = "if wt = Interrupted then ECANCELED else ETIMEDOUT"
  have "\<exists>s'. rc_read h p n off s = (Inl (SystemError ?e), s') \<and> m_lastRead (ag_read s') = m_lastRead ?c \<and>
      m_lastReadOffset (ag_read s') = served_from off ?c \<and> \<not> m_clear (ag_read s') \<and>
      m_lastCacheRefresh (ag_read s') = m_lastCacheRefresh ?c \<and> ag_now s' = ag_now s"
  proof (cases "m_pendingRead ?c \<noteq> None \<and> m_pendingReadOffset ?c \<le> off")
    case True
    then obtain f where f: "m_pendingRead ?c = Some f"
      by blast
    then have "take_pending h p f s = (Inl (SystemError ?e), s\<lparr>ag_read := ?c\<lparr>m_lastReadOffset := m_pendingReadOffset ?c\<rparr>, ag_waits := wts\<rparr>)"
      using assms(5,6) by (auto simp: take_pending_def wait_for_def next_wait_def with_read_def act_defs split: read_future.split)
    then show ?thesis
      using assms(1-3) True f by (simp add: rc_read_def bindA_modifyA bindA_getA bindA_steps served_from_def)
  next
    case False
    have "read_through h p n off s = (Inl (SystemError ?e), s\<lparr>ag_read := ?c\<lparr>m_pendingReadOffset := off + int n,
              m_pendingRead := Some (Requested p (off + int n) (blockSize ?c)), m_lastReadOffset := off\<rparr>, ag_waits := wts\<rparr>)"
      using assms(5,6) by (auto simp: read_through_def wait_for_def next_wait_def with_read_def act_defs)
    then show ?thesis
      using assms(1-3) False by (auto simp: rc_read_def bindA_modifyA bindA_getA served_from_def split: option.split)
  qed
  then obtain s' where s': "rc_read h p n off s = (Inl (SystemError ?e), s')" "m_lastRead (ag_read s') = m_lastRead ?c"
      "m_lastReadOffset (ag_read s') = served_from off ?c" "\<not> m_clear (ag_read s')"
      "m_lastCacheRefresh (ag_read s') = m_lastCacheRefresh ?c" "ag_now s' = ag_now s"
    by blast
  have "cached off (ag_read s')"
    using assms(4) s'(2,3) by (simp add: cached_def served_from_def)
  then have "rc_read h p k off s' = (Inr (take k (drop (nat (off - served_from off ?c)) (m_lastRead ?c))), s')" for k
    using assms(2) s' by (simp add: rc_read_def bindA_modifyA bindA_getA from_cache_def returnA_def)
  then show ?thesis
    using s'(1) by blast
qed

theorem failed_read_misplaces_cached_data_witness:
  "let s = snd (agent_run mem_helper ''f'' [EvRead 2 0, EvWaits [Interrupted]]
             (snd (sh_open small_limits mem_helper ''f'' 0 (createCTX ''abcdef''))))
   in ag_world s = ''abcdef'' \<and>
      (\<exists>s'. rc_read mem_helper ''f'' 2 2 s = (Inl (SystemError ECANCELED), s') \<and>
            rc_read mem_helper ''f'' 2 2 s' = (Inr ''ab'', s'))"
proof -
  define s where "s = snd (agent_run mem_helper ''f'' [EvRead 2 0, EvWaits [Interrupted]]
             (snd (sh_open small_limits mem_helper ''f'' 0 (createCTX ''abcdef''))))"
  have fields: "ag_world s = ''abcdef''" "m_clear (ag_read s) = False" "m_lastCacheRefresh (ag_read s) = 0" "ag_now s = 0"
    "m_lastReadOffset (ag_read s) = 0" "m_lastRead (ag_read s) = ''ab''" "m_pendingReadOffset (ag_read s) = 2"
    "m_pendingRead (ag_read s) = Some (Requested ''f'' 2 2)" "ag_waits s = [Interrupted]"
    by (simp_all add: s_def agent_eval small_limits_def cong: prod.case_cong_weak)
  have "\<exists>s'. rc_read mem_helper ''f'' 2 2 s = (Inl (SystemError (if Interrupted = Interrupted then ECANCELED else ETIMEDOUT)), s') \<and>
    (\<forall>k. rc_read mem_helper ''f'' k 2 s' = (Inr (take k (drop (nat (2 - served_from 2 (ag_read s))) (m_lastRead (ag_read s)))), s'))"
    by (rule failed_read_misplaces_cached_data) (simp_all add: fields cached_def served_from_def)
  then show ?thesis
    unfolding Let_def s_def [symmetric] by (auto simp: fields served_from_def)
qed

text \<open>
  Further hazards, on a storage in memory. Batches confirmed out of order: the older of two
  overlapping writes wins. Truncation does not wait for buffered writes: data written before it
  reappears after it.
\<close>

lemma overtaken_batch_wins:
  "ag_world (snd (agent_run mem_helper ''f''
     [EvWrite ''abc'' 0, EvWrite ''xyz'' 0, EvConfirm 1 None, EvConfirm 0 None]
     (snd (sh_open small_limits mem_helper ''f'' 0 (createCTX []))))) = ''abc''"
  by (simp add: agent_eval small_limits_def cong: prod.case_cong_weak)

lemma truncate_overtakes_buffered_writes:
  "ag_world (snd (bindA (sh_write mem_helper ''f'' ''ab'' 0) (\<lambda>_. bindA (sh_truncate mem_helper ''f'' 0)
     (\<lambda>_. bindA (modifyA (\<lambda>s. s\<lparr>ag_wakeups := [Confirmed 0 None]\<rparr>)) (\<lambda>_. sh_fsync mem_helper ''f'')))
     (snd (sh_open small_limits mem_helper ''f'' 0 (createCTX []))))) = ''ab''"
  by (simp add: agent_eval small_limits_def resize_def cong: prod.case_cong_weak)

end
