(* ===== verification/OC_ObjectKeys.thy ===== *)
theory OC_ObjectKeys
  imports OC_Prelude "HOL-Library.List_Lexorder" "HOL-Library.Char_ord"
begin

text \<open>
  The keys under which the blocks of a file are kept in an object store
  (\<open>helpers/src/keyValueHelper.h\<close>): the path, a slash and the complement of the block number, so that
  the last block comes first in the alphabetical order of the keys.
\<close>

section \<open>Decimal numbers\<close>

definition digit :: "nat \<Rightarrow> char" where
  "digit n = char_of (48 + n)"

definition is_digit :: "char \<Rightarrow> bool" where
  "is_digit c \<longleftrightarrow> 48 \<le> (of_char c :: nat) \<and> (of_char c :: nat) \<le> 57"

definition digit_value :: "char \<Rightarrow> nat" where
  "digit_value c = of_char c - 48"

fun decimal :: "nat \<Rightarrow> string" where
  "decimal n = (if n < 10 then [digit n] else decimal (n div 10) @ [digit (n mod 10)])"

declare decimal.simps [simp del]

definition decimal_value :: "string \<Rightarrow> nat" where
  "decimal_value s = foldl (\<lambda>n c. 10 * n + digit_value c) 0 s"

text \<open>\<open>std::setw\<close> with \<open>std::setfill('0')\<close>.\<close>

definition pad :: "nat \<Rightarrow> string \<Rightarrow> string" where
  "pad width s = replicate (width - length s) (CHR ''0'') @ s"

text \<open>\<open>std::stoull\<close>: blanks, a sign, digits; no digits or too many of them raise an exception.\<close>

definition is_space :: "char \<Rightarrow> bool" where
  "is_space c \<longleftrightarrow> (of_char c :: nat) = 32 \<or> 9 \<le> (of_char c :: nat) \<and> (of_char c :: nat) \<le> 13"

definition stoull :: "string \<Rightarrow> 64 word option" where
  "stoull s =
     (let t = dropWhile is_space s;
          (neg, u) = (case t of c # r \<Rightarrow> if c = CHR ''-'' then (True, r) else if c = CHR ''+'' then (False, r) else (False, t) | [] \<Rightarrow> (False, t));
          ds = takeWhile is_digit u
      in if ds = [] \<or> decimal_value ds \<ge> 2 ^ 64 then None
         else Some (if neg then - of_nat (decimal_value ds) else of_nat (decimal_value ds)))"

section \<open>Keys\<close>

definition MAX_OBJECT_ID :: "64 word" where "MAX_OBJECT_ID = 999999"

definition MAX_OBJECT_ID_DIGITS :: nat where "MAX_OBJECT_ID_DIGITS = 6"

text \<open>\<open>substr\<close> raises when the path has no character but slashes.\<close>

definition adjustPrefix :: "string \<Rightarrow> string res" where
  "adjustPrefix prefix =
     (let rest = dropWhile (\<lambda>c. c = CHR ''/'') prefix in if rest = [] then Inl OutOfRange else Inr (rest @ ''/''))"

definition getKey :: "string \<Rightarrow> 64 word \<Rightarrow> string res" where
  "getKey prefix objectId =
     (case adjustPrefix prefix of
        Inl x \<Rightarrow> Inl x
      | Inr pre \<Rightarrow> Inr (pre @ pad MAX_OBJECT_ID_DIGITS (decimal (unat (MAX_OBJECT_ID - objectId)))))"

definition getObjectId :: "string \<Rightarrow> 64 word option" where
  "getObjectId key =
     (case stoull (rev (takeWhile (\<lambda>c. c \<noteq> CHR ''/'') (rev key))) of
        None \<Rightarrow> None
      | Some n \<Rightarrow> Some (MAX_OBJECT_ID - n))"

definition rangeToString :: "off_t \<Rightarrow> off_t \<Rightarrow> string" where
  "rangeToString lower upper =
     (let show_off = (\<lambda>n :: off_t. if n < 0 then ''-'' @ decimal (nat (- n)) else decimal (nat n))
      in ''bytes='' @ show_off lower @ ''-'' @ show_off upper)"

section \<open>Lemmas on decimal numbers\<close>

lemma of_char_digit: "n < 10 \<Longrightarrow> of_char (digit n) = 48 + n"
  by (simp add: digit_def)

lemma is_digit_digit [simp]: "n < 10 \<Longrightarrow> is_digit (digit n)"
  by (simp add: is_digit_def of_char_digit)

lemma digit_value_digit [simp]: "n < 10 \<Longrightarrow> digit_value (digit n) = n"
  by (simp add: digit_value_def of_char_digit)

lemma is_digit_zero [simp]: "is_digit (CHR ''0'')" "digit_value (CHR ''0'') = 0"
  by (simp_all add: is_digit_def digit_value_def)

lemma decimal_value_snoc: "decimal_value (s @ [c]) = 10 * decimal_value s + digit_value c"
  by (simp add: decimal_value_def)

lemma decimal_digits: "c \<in> set (decimal n) \<Longrightarrow> is_digit c"
proof (induction n rule: decimal.induct)
  case (1 n)
  then show ?case
    by (subst (asm) decimal.simps) (auto split: if_splits)
qed

lemma decimal_value_decimal: "decimal_value (decimal n) = n"
proof (induction n rule: decimal.induct)
  case (1 n)
  show ?case
  proof (cases "n < 10")
    case True
    then show ?thesis
      by (simp add: decimal_value_def decimal.simps [of n])
  next
    case False
    then show ?thesis
      using 1 by (simp add: decimal_value_snoc decimal.simps [of n])
  qed
qed

lemma decimal_value_zeros: "decimal_value (replicate k (CHR ''0'') @ s) = decimal_value s"
proof -
  have "foldl (\<lambda>n c. 10 * n + digit_value c) 0 (replicate k (CHR ''0'')) = 0"
    by (induction k) simp_all
  then show ?thesis
    by (simp add: decimal_value_def)
qed

lemma decimal_length: "n < 10 ^ k \<Longrightarrow> 0 < k \<Longrightarrow> length (decimal n) \<le> k"
proof (induction n arbitrary: k rule: decimal.induct)
  case (1 n)
  show ?case
  proof (cases "n < 10")
    case True
    then show ?thesis
      using 1(3) by (simp add: decimal.simps [of n])
  next
    case False
    then obtain j where k: "k = Suc j" "0 < j"
      using 1(2) by (cases k; cases "k - 1") auto
    then have "n div 10 < 10 ^ j"
      using 1(2) by (simp add: less_mult_imp_div_less mult.commute)
    then show ?thesis
      using 1(1) [OF False, of j] k False by (simp add: decimal.simps [of n])
  qed
qed

lemma pad_digits: "c \<in> set (pad k (decimal n)) \<Longrightarrow> is_digit c"
  by (auto simp: pad_def dest: decimal_digits)

lemma pad_value: "decimal_value (pad k (decimal n)) = n"
  by (simp add: pad_def decimal_value_zeros decimal_value_decimal)

lemma pad_length: "n < 10 ^ k \<Longrightarrow> 0 < k \<Longrightarrow> length (pad k (decimal n)) = k"
  using decimal_length [of n k] by (simp add: pad_def)

text \<open>Digit strings of the same length are ordered by their values.\<close>

lemma decimal_value_foldl: "foldl (\<lambda>n c. 10 * n + digit_value c) m s = m * 10 ^ length s + decimal_value s"
proof (induction s rule: rev_induct)
  case (snoc c s)
  then show ?case
    by (simp add: decimal_value_snoc algebra_simps)
qed (simp add: decimal_value_def)

lemma decimal_value_Cons: "decimal_value (c # s) = digit_value c * 10 ^ length s + decimal_value s"
  using decimal_value_foldl [of "digit_value c" s] by (simp add: decimal_value_def)

lemma decimal_value_less: "\<forall>c \<in> set s. is_digit c \<Longrightarrow> decimal_value s < 10 ^ length s"
proof (induction s)
  case (Cons c s)
  then have "digit_value c \<le> 9" "decimal_value s < 10 ^ length s"
    by (auto simp: digit_value_def is_digit_def)
  then have "digit_value c * 10 ^ length s + decimal_value s < 9 * 10 ^ length s + 10 ^ length s"
    by (intro add_le_less_mono) auto
  then show ?case
    by (simp add: decimal_value_Cons)
qed (simp add: decimal_value_def)

lemma digit_less: "is_digit c \<Longrightarrow> is_digit d \<Longrightarrow> c < d \<longleftrightarrow> digit_value c < digit_value d"
  by (auto simp: less_char_def is_digit_def digit_value_def)

lemma digit_eq: "is_digit c \<Longrightarrow> is_digit d \<Longrightarrow> digit_value c = digit_value d \<Longrightarrow> c = d"
  using digit_less [of c d] digit_less [of d c] by fastforce

lemma decimal_order:
  assumes "length s = length t" "\<forall>c \<in> set s. is_digit c" "\<forall>c \<in> set t. is_digit c"
  shows "s < t \<longleftrightarrow> decimal_value s < decimal_value t"
  using assms
proof (induction s t rule: list_induct2)
  case (Cons c s d t)
  let ?m = "(10 :: nat) ^ length t"
  have less: "decimal_value s < ?m" "decimal_value t < ?m"
    using Cons.prems Cons.hyps decimal_value_less [of s] decimal_value_less [of t] by simp_all
  consider "digit_value c < digit_value d" | "digit_value d < digit_value c" | "c = d"
    using digit_eq [of c d] Cons.prems by fastforce
  then show ?case
  proof cases
    case 1
    then have "digit_value c * ?m + decimal_value s < Suc (digit_value c) * ?m"
      using less by simp
    also have "\<dots> \<le> digit_value d * ?m"
      using 1 by (intro mult_right_mono) auto
    finally show ?thesis
      using 1 Cons.prems Cons.hyps digit_less [of c d] by (simp add: decimal_value_Cons)
  next
    case 2
    then have "digit_value d * ?m + decimal_value t < Suc (digit_value d) * ?m"
      using less by simp
    also have "\<dots> \<le> digit_value c * ?m"
      using 2 by (intro mult_right_mono) auto
    finally show ?thesis
      using 2 Cons.prems Cons.hyps digit_less [of d c] by (auto simp: decimal_value_Cons)
  next
    case 3
    then show ?thesis
      using Cons by (simp add: decimal_value_Cons)
  qed
qed simp

section \<open>Lemmas on keys\<close>

lemma stoull_pad:
  assumes "n < 2 ^ 64"
  shows "stoull (pad k (decimal n)) = Some (of_nat n)"
proof -
  let ?s = "pad k (decimal n)"
  have digits: "\<forall>c \<in> set ?s. is_digit c"
    using pad_digits by blast
  have "decimal n \<noteq> []"
    by (subst decimal.simps) simp
  then obtain c r where s: "?s = c # r"
    by (cases ?s) (auto simp: pad_def)
  have "is_digit c"
    using digits s by simp
  then have "\<not> is_space c" "c \<noteq> CHR ''-''" "c \<noteq> CHR ''+''"
    by (auto simp: is_digit_def is_space_def)
  then have "dropWhile is_space ?s = c # r" "takeWhile is_digit (c # r) = ?s"
    using digits s by (simp_all add: takeWhile_eq_all_conv [THEN iffD2])
  then show ?thesis
    using assms pad_value [of k n] s \<open>c \<noteq> CHR ''-''\<close> \<open>c \<noteq> CHR ''+''\<close> by (simp add: stoull_def Let_def)
qed

lemma adjustPrefix_slash: "adjustPrefix p = Inr pre \<Longrightarrow> \<exists>q. pre = q @ ''/''"
  by (auto simp: adjustPrefix_def Let_def split: if_splits)

lemma getObjectId_getKey:
  assumes "getKey p n = Inr k"
  shows "getObjectId k = Some n"
proof -
  let ?m = "unat (MAX_OBJECT_ID - n)"
  let ?d = "pad MAX_OBJECT_ID_DIGITS (decimal ?m)"
  obtain q where k: "k = q @ ''/'' @ ?d"
    using assms adjustPrefix_slash by (fastforce simp: getKey_def split: sum.splits)
  have "\<forall>c \<in> set (rev ?d). c \<noteq> CHR ''/''"
    using pad_digits by (fastforce simp: is_digit_def)
  then have "takeWhile (\<lambda>c. c \<noteq> CHR ''/'') (rev k) = rev ?d"
    by (simp add: k takeWhile_append2 del: set_rev)
  moreover have "?m < 2 ^ 64"
    using unsigned_less [of "MAX_OBJECT_ID - n"] by simp
  ultimately show ?thesis
    by (simp add: getObjectId_def stoull_pad)
qed

lemma getKey_inject: "getKey p m = Inr k \<Longrightarrow> getKey q n = Inr k \<Longrightarrow> m = n"
  using getObjectId_getKey [of p m k] getObjectId_getKey [of q n k] by simp

lemma getKey_prefix:
  assumes "getKey p n = Inr k"
  shows "\<exists>k'. getKey p m = Inr k'"
  using assms by (auto simp: getKey_def split: sum.splits)

lemma append_less: "xs @ ys < xs @ zs \<longleftrightarrow> ys < (zs :: 'a :: linorder list)"
  by (induction xs) auto

lemma getKey_order:
  assumes "getKey p m = Inr k" "getKey p n = Inr k'" "m \<le> MAX_OBJECT_ID" "n \<le> MAX_OBJECT_ID"
  shows "k < k' \<longleftrightarrow> n < m"
proof -
  let ?d = "\<lambda>i. pad MAX_OBJECT_ID_DIGITS (decimal (unat (MAX_OBJECT_ID - i)))"
  obtain pre where pre: "k = pre @ ?d m" "k' = pre @ ?d n"
    using assms(1,2) by (auto simp: getKey_def split: sum.splits)
  have val: "unat (MAX_OBJECT_ID - i) = 999999 - unat i" if "i \<le> MAX_OBJECT_ID" for i
    using that by (simp add: unat_sub MAX_OBJECT_ID_def)
  have len: "length (?d i) = 6" if "i \<le> MAX_OBJECT_ID" for i
    using pad_length [of "unat (MAX_OBJECT_ID - i)" 6] val [OF that] by (simp add: MAX_OBJECT_ID_DIGITS_def)
  have "k < k' \<longleftrightarrow> ?d m < ?d n"
    by (simp add: pre append_less)
  also have "\<dots> \<longleftrightarrow> unat (MAX_OBJECT_ID - m) < unat (MAX_OBJECT_ID - n)"
    using decimal_order [of "?d m" "?d n"] len assms(3,4) pad_digits by (simp add: pad_value)
  also have "\<dots> \<longleftrightarrow> n < m"
    using assms(3,4) unfolding val [OF assms(3)] val [OF assms(4)]
    by (auto simp: word_less_nat_alt word_le_nat_alt MAX_OBJECT_ID_def)
  finally show ?thesis .
qed

text \<open>
  C34. The number of a block can be read off its key, for every 64-bit number, and the keys of the
  blocks of a file are in the reverse order of the blocks, up to block 999999: the first key of a
  listing is the last block. A file with one block more breaks the order: its last block is listed
  after block 999999.
\<close>

theorem object_keys_roundtrip_and_order:
  "(getKey p n = Inr k \<longrightarrow> getObjectId k = Some n) \<and>
   (getKey p m = Inr k \<and> getKey p n = Inr k' \<and> m \<le> MAX_OBJECT_ID \<and> n \<le> MAX_OBJECT_ID \<longrightarrow> (k < k' \<longleftrightarrow> n < m)) \<and>
   (getKey p 999999 = Inr k \<and> getKey p 1000000 = Inr k' \<longrightarrow> k < k')"
proof -
  have "decimal 18446744073709551615 = ''18446744073709551615''" "decimal 0 = ''0''"
    by (simp_all add: decimal.simps digit_def char_of_def bit_0)
  moreover have "pad 6 ''0'' = ''000000''" "pad 6 ''18446744073709551615'' = ''18446744073709551615''"
    by (simp_all add: pad_def numeral_eq_Suc)
  moreover have "''000000'' < ''18446744073709551615''"
    by (simp add: less_char_def)
  moreover have "unat (MAX_OBJECT_ID - 999999) = 0" "unat (MAX_OBJECT_ID - 1000000) = 18446744073709551615"
    by (simp_all add: MAX_OBJECT_ID_def unsigned_minus_1_eq_mask mask_eq_exp_minus_1)
  ultimately have "k < k'" if "getKey p 999999 = Inr k" "getKey p 1000000 = Inr k'"
    using that by (auto simp: getKey_def append_less MAX_OBJECT_ID_DIGITS_def split: sum.splits)
  then show ?thesis
    using getObjectId_getKey getKey_order by blast
qed

theorem object_keys_roundtrip_and_order_witness:
  "getKey ''/f'' 2 = Inr ''f/999997'' \<and> getObjectId ''f/999997'' = Some 2 \<and> getKey ''/f'' 1 = Inr ''f/999998'' \<and>
   ''f/999997'' < ''f/999998'' \<and> (2 :: 64 word) > 1"
proof -
  have keys: "getKey ''/f'' 2 = Inr ''f/999997''" "getKey ''/f'' 1 = Inr ''f/999998''"
    by (simp_all add: getKey_def adjustPrefix_def decimal.simps digit_def char_of_def bit_0 pad_def MAX_OBJECT_ID_def MAX_OBJECT_ID_DIGITS_def)
  then have "getObjectId ''f/999997'' = Some 2 \<and> (''f/999997'' < ''f/999998'' \<longleftrightarrow> (1 :: 64 word) < 2)"
    using object_keys_roundtrip_and_order [of "''/f''" 2 "''f/999997''" 2 "''f/999998''"]
      object_keys_roundtrip_and_order [of "''/f''" 1 "''f/999997''" 2 "''f/999998''"] by (auto simp: MAX_OBJECT_ID_def)
  then show ?thesis
    using keys by simp
qed

end
