(* ===== verification/OC_KeyValue.thy ===== *)
theory OC_KeyValue
  imports OC_ObjectKeys OC_FlatFile OC_HelpersCache
begin

text \<open>
  The adapter that keeps a file as a sequence of blocks in an object store
  (\<open>helpers/src/keyValueAdapter.cc\<close>). The store behind it is a parameter; \<open>OC_S3\<close> provides one.
\<close>

section \<open>Model\<close>

text \<open>
  \<open>getObject\<close> fills a buffer: the result is the number of bytes or an error, and in both cases the
  buffer afterwards.
\<close>

record 'w kv_ops =
  kv_getObject :: "string \<Rightarrow> string \<Rightarrow> off_t \<Rightarrow> 'w \<Rightarrow> (nat res \<times> string) \<times> 'w"
  kv_getObjectsSize :: "string \<Rightarrow> nat \<Rightarrow> ('w, off_t) act"
  kv_putObject :: "string \<Rightarrow> string \<Rightarrow> ('w, nat) act"
  kv_deleteObjects :: "string list \<Rightarrow> ('w, unit) act"
  kv_listObjects :: "string \<Rightarrow> ('w, string list) act"

text \<open>The adapter: the store and the map of locks, which has an entry for every key that was locked and not erased.\<close>

record 'w KeyValueAdapter =
  kva_store :: 'w
  m_locks :: "string list"

definition DEFAULT_BLOCK_SIZE :: nat where "DEFAULT_BLOCK_SIZE = 5 * 1024 * 1024"

definition lock_key :: "string \<Rightarrow> ('w KeyValueAdapter, unit) act" where
  "lock_key key = modifyA (\<lambda>s. s\<lparr>m_locks := List.insert key (m_locks s)\<rparr>)"

definition unlock_key :: "string \<Rightarrow> ('w KeyValueAdapter, unit) act" where
  "unlock_key key = modifyA (\<lambda>s. s\<lparr>m_locks := removeAll key (m_locks s)\<rparr>)"

definition on_objects :: "('w, 'a) act \<Rightarrow> ('w KeyValueAdapter, 'a) act" where
  "on_objects m s = (case m (kva_store s) of (r, w) \<Rightarrow> (r, s\<lparr>kva_store := w\<rparr>))"

definition raise :: "'a res \<Rightarrow> ('s, 'a) act" where
  "raise r s = (r, s)"

definition getBlockId :: "nat \<Rightarrow> off_t \<Rightarrow> 64 word" where
  "getBlockId blockSz offset = word_of_int offset div of_nat blockSz"

definition getBlockOffset :: "nat \<Rightarrow> off_t \<Rightarrow> off_t" where
  "getBlockOffset blockSz offset = sint (word_of_int offset - getBlockId blockSz offset * of_nat blockSz)"

definition getBlock :: "'w kv_ops \<Rightarrow> string \<Rightarrow> string \<Rightarrow> off_t \<Rightarrow> ('w KeyValueAdapter, nat \<times> string) act" where
  "getBlock kv key buf offset s =
     (case kv_getObject kv key buf offset (kva_store s) of
        ((Inr n, buf'), w) \<Rightarrow> (Inr (n, buf'), s\<lparr>kva_store := w\<rparr>)
      | ((Inl x, buf'), w) \<Rightarrow> ((if x = SystemError ENOENT then Inr (0, buf') else Inl x), s\<lparr>kva_store := w\<rparr>))"

text \<open>
  The loop of \<open>ash_read\<close>. The key is moved into \<open>getBlock\<close>, so what is erased from the locks afterwards is
  the empty string. The offset in a block is below the block size, so that each round makes progress.
\<close>

function read_blocks :: "'w kv_ops \<Rightarrow> nat \<Rightarrow> string \<Rightarrow> nat \<Rightarrow> string \<Rightarrow> nat \<Rightarrow> 64 word \<Rightarrow> nat \<Rightarrow> ('w KeyValueAdapter, string) act" where
  "read_blocks kv blockSz p sz buf bufOffset blockId blockOffset s =
     (if sz \<le> bufOffset \<or> blockSz \<le> blockOffset then (Inr buf, s)
      else
        case bindA (raise (getKey p blockId)) (\<lambda>key.
             bindA (lock_key key) (\<lambda>_.
             bindA (getBlock kv key (take blockSz (drop bufOffset buf)) (int blockOffset)) (\<lambda>(n, blockBuf).
             bindA (unlock_key []) (\<lambda>_.
             returnA blockBuf)))) s of
          (Inl x, s') \<Rightarrow> (Inl x, s')
        | (Inr blockBuf, s') \<Rightarrow>
            read_blocks kv blockSz p sz (take bufOffset buf @ blockBuf @ drop (bufOffset + blockSz) buf)
              (bufOffset + (blockSz - blockOffset)) (blockId + 1) 0 s')"
  by pat_completeness auto
termination
  by (relation "measure (\<lambda>(kv, blockSz, p, sz, buf, bufOffset, blockId, blockOffset, s). sz - bufOffset)") auto

declare read_blocks.simps [simp del]

definition kv_ash_read :: "'w kv_ops \<Rightarrow> nat \<Rightarrow> string \<Rightarrow> string \<Rightarrow> off_t \<Rightarrow> ('w KeyValueAdapter, string) act" where
  "kv_ash_read kv blockSz p buf offset =
     bindA (on_objects (kv_getObjectsSize kv p blockSz)) (\<lambda>fileSize.
     if offset \<ge> fileSize then returnA []
     else
       let buf1 = take (nat (fileSize - offset)) buf;
           sz = length buf1
       in bindA (read_blocks kv blockSz p sz buf1 0 (getBlockId blockSz offset) (nat (getBlockOffset blockSz offset))) (\<lambda>buf2.
          returnA (take sz buf2)))"

text \<open>One round of the loop of \<open>ash_write\<close>, and the loop.\<close>

definition write_block :: "'w kv_ops \<Rightarrow> nat \<Rightarrow> string \<Rightarrow> string \<Rightarrow> nat \<Rightarrow> 64 word \<Rightarrow> nat \<Rightarrow> ('w KeyValueAdapter, unit) act" where
  "write_block kv blockSz p buf bufOffset blockId blockOffset =
     (let blockSize = min (blockSz - blockOffset) (length buf - bufOffset)
      in bindA (raise (getKey p blockId)) (\<lambda>key.
         bindA (lock_key key) (\<lambda>_.
         bindA
           (if blockSize \<noteq> blockSz then
              bindA (getBlock kv key (replicate blockSz zero_byte) 0) (\<lambda>(fetched, data).
              let targetBlockSize = max fetched (blockOffset + blockSize);
                  blockBuf = take targetBlockSize data;
                  copied = take (targetBlockSize - blockOffset) (drop bufOffset buf)
              in on_objects (kv_putObject kv key
                   (take blockOffset blockBuf @ copied @ drop (blockOffset + length copied) blockBuf)))
            else on_objects (kv_putObject kv key (take blockSize (drop bufOffset buf)))) (\<lambda>_.
         unlock_key key))))"

function write_blocks :: "'w kv_ops \<Rightarrow> nat \<Rightarrow> string \<Rightarrow> string \<Rightarrow> nat \<Rightarrow> 64 word \<Rightarrow> nat \<Rightarrow> ('w KeyValueAdapter, unit) act" where
  "write_blocks kv blockSz p buf bufOffset blockId blockOffset s =
     (if length buf \<le> bufOffset \<or> blockSz \<le> blockOffset then (Inr (), s)
      else
        case write_block kv blockSz p buf bufOffset blockId blockOffset s of
          (Inl x, s') \<Rightarrow> (Inl x, s')
        | (Inr _, s') \<Rightarrow>
            write_blocks kv blockSz p buf (bufOffset + min (blockSz - blockOffset) (length buf - bufOffset)) (blockId + 1) 0 s')"
  by pat_completeness auto
termination
  by (relation "measure (\<lambda>(kv, blockSz, p, buf, bufOffset, blockId, blockOffset, s). length buf - bufOffset)") auto

declare write_blocks.simps [simp del]

definition kv_ash_write :: "'w kv_ops \<Rightarrow> nat \<Rightarrow> string \<Rightarrow> string \<Rightarrow> off_t \<Rightarrow> ('w KeyValueAdapter, nat) act" where
  "kv_ash_write kv blockSz p buf offset =
     bindA (write_blocks kv blockSz p buf 0 (getBlockId blockSz offset) (nat (getBlockOffset blockSz offset))) (\<lambda>_.
     returnA (length buf))"

definition kv_ash_unlink :: "'w kv_ops \<Rightarrow> string \<Rightarrow> ('w KeyValueAdapter, unit) act" where
  "kv_ash_unlink kv p =
     bindA (on_objects (kv_listObjects kv p)) (\<lambda>keys. on_objects (kv_deleteObjects kv keys))"

text \<open>The keys that a truncation removes; a key without a number raises.\<close>

fun keysToDelete :: "64 word \<Rightarrow> off_t \<Rightarrow> string list \<Rightarrow> string list res" where
  "keysToDelete blockId blockOffset [] = Inr []"
| "keysToDelete blockId blockOffset (key # keys) =
     (case getObjectId key of
        None \<Rightarrow> Inl OutOfRange
      | Some objectId \<Rightarrow>
          (case keysToDelete blockId blockOffset keys of
             Inl x \<Rightarrow> Inl x
           | Inr ks \<Rightarrow> Inr (if objectId > blockId \<or> objectId = blockId \<and> blockOffset = 0 then key # ks else ks)))"

definition kv_ash_truncate :: "'w kv_ops \<Rightarrow> nat \<Rightarrow> string \<Rightarrow> off_t \<Rightarrow> ('w KeyValueAdapter, unit) act" where
  "kv_ash_truncate kv blockSz p sz =
     (let blockId = getBlockId blockSz sz;
          blockOffset = getBlockOffset blockSz sz
      in bindA (on_objects (kv_listObjects kv p)) (\<lambda>keys.
         bindA (raise (keysToDelete blockId blockOffset keys)) (\<lambda>doomed.
         bindA (raise (getKey p blockId)) (\<lambda>key.
         bindA (if nat blockOffset = 0 \<and> blockId > 0 then
                  bindA (raise (getKey p (blockId - 1))) (\<lambda>key'. returnA (key', blockSz))
                else returnA (key, nat blockOffset)) (\<lambda>(key, blockSize).
         bindA (if blockSize > 0 \<or> blockId > 0 then
                  bindA (lock_key key) (\<lambda>_.
                  bindA (getBlock kv key (replicate blockSize zero_byte) 0) (\<lambda>(n, data).
                  bindA (on_objects (kv_putObject kv key data)) (\<lambda>_.
                  unlock_key key)))
                else returnA ()) (\<lambda>_.
         if doomed \<noteq> [] then on_objects (kv_deleteObjects kv doomed) else returnA ()))))))"

end
