(* ===== verification/OC_KeyValueSpec.thy ===== *)
theory OC_KeyValueSpec
  imports OC_KeyValue OC_BufferSpec
begin

text \<open>
  A file kept in blocks is a flat file: reading, writing, truncating and removing it through the
  adapter have the effect of the operations on one string of bytes. The adapter therefore is a
  storage for the buffers of \<open>OC_BufferSpec\<close>.
\<close>

section \<open>Blocks and the flat file\<close>

type_synonym blocks = "nat \<Rightarrow> string option"

definition max_block :: nat where "max_block = 999999"

definition block_end :: "nat \<Rightarrow> blocks \<Rightarrow> nat \<Rightarrow> nat" where
  "block_end bs B b = (case B b of None \<Rightarrow> 0 | Some d \<Rightarrow> b * bs + length d)"

definition blocks_size :: "nat \<Rightarrow> blocks \<Rightarrow> nat" where
  "blocks_size bs B = Max (block_end bs B ` {..max_block})"

definition block_byte :: "nat \<Rightarrow> blocks \<Rightarrow> nat \<Rightarrow> char" where
  "block_byte bs B i =
     (case B (i div bs) of None \<Rightarrow> zero_byte | Some d \<Rightarrow> if i mod bs < length d then d ! (i mod bs) else zero_byte)"

definition flat :: "nat \<Rightarrow> blocks \<Rightarrow> string" where
  "flat bs B = map (block_byte bs B) [0..<blocks_size bs B]"

definition blocks_ok :: "nat \<Rightarrow> blocks \<Rightarrow> bool" where
  "blocks_ok bs B \<longleftrightarrow> (\<forall>b d. B b = Some d \<longrightarrow> length d \<le> bs \<and> b \<le> max_block)"

lemma length_flat [simp]: "length (flat bs B) = blocks_size bs B"
  by (simp add: flat_def)

lemma nth_flat [simp]: "i < blocks_size bs B \<Longrightarrow> flat bs B ! i = block_byte bs B i"
  by (simp add: flat_def)

lemma block_end_le: "b \<le> max_block \<Longrightarrow> block_end bs B b \<le> blocks_size bs B"
  by (simp add: blocks_size_def)

lemma blocks_size_le:
  assumes "\<And>b. b \<le> max_block \<Longrightarrow> block_end bs B b \<le> n"
  shows "blocks_size bs B \<le> n"
  using assms by (simp add: blocks_size_def)

lemma blocks_size_limit:
  assumes "blocks_ok bs B"
  shows "blocks_size bs B \<le> Suc max_block * bs"
proof (rule blocks_size_le)
  fix b assume b: "b \<le> max_block"
  have "b * bs + length d \<le> Suc max_block * bs" if "B b = Some d" for d
  proof -
    have "b * bs + length d \<le> b * bs + bs"
      using assms that by (simp add: blocks_ok_def)
    also have "\<dots> \<le> Suc max_block * bs"
      using b by simp
    finally show ?thesis .
  qed
  then show "block_end bs B b \<le> Suc max_block * bs"
    by (simp add: block_end_def split: option.split)
qed

lemma Max_update:
  assumes "finite A" "b \<in> A" "f b \<le> (v :: nat)"
  shows "Max ((f(b := v)) ` A) = max (Max (f ` A)) v"
proof (rule antisym)
  show "Max ((f(b := v)) ` A) \<le> max (Max (f ` A)) v"
  proof (rule Max.boundedI)
    fix x assume "x \<in> (f(b := v)) ` A"
    then obtain a where "a \<in> A" "x = v \<or> x = f a"
      by (auto split: if_splits)
    then show "x \<le> max (Max (f ` A)) v"
      using assms(1) by (auto simp: le_max_iff_disj)
  qed (use assms in auto)
  show "max (Max (f ` A)) v \<le> Max ((f(b := v)) ` A)"
  proof (rule max.boundedI)
    show "v \<le> Max ((f(b := v)) ` A)"
      using assms by (intro Max_ge) (auto intro: image_eqI [of _ _ b])
    have "f a \<le> Max ((f(b := v)) ` A)" if "a \<in> A" for a
    proof -
      have "f a \<le> (f(b := v)) a"
        using assms(3) by simp
      also have "\<dots> \<le> Max ((f(b := v)) ` A)"
        using assms that by (intro Max_ge) auto
      finally show ?thesis .
    qed
    then show "Max (f ` A) \<le> Max ((f(b := v)) ` A)"
      using assms(1,2) by (intro Max.boundedI) (auto simp del: fun_upd_apply)
  qed
qed

text \<open>Writing into one block writes at one place of the file.\<close>

lemma div_mod_block: "0 < (bs :: nat) \<Longrightarrow> j < bs \<Longrightarrow> (b * bs + j) div bs = b \<and> (b * bs + j) mod bs = j"
  by simp

lemma flat_write_block:
  assumes ok: "blocks_ok bs B" and b: "b \<le> max_block" and piece: "piece \<noteq> []" "bo + length piece \<le> bs"
    and D: "D = (case B b of None \<Rightarrow> [] | Some d \<Rightarrow> d)"
  shows "flat bs (B(b \<mapsto> write_at bo piece D)) = write_at (b * bs + bo) piece (flat bs B)"
    "blocks_ok bs (B(b \<mapsto> write_at bo piece D))"
proof -
  let ?D = "write_at bo piece D" and ?B = "B(b \<mapsto> write_at bo piece D)"
  have bs: "0 < bs"
    using piece by (cases bs) auto
  have D_le: "length D \<le> bs"
    using ok D by (auto simp: blocks_ok_def split: option.splits)
  have len: "length ?D = max (length D) (bo + length piece)"
    using piece by (simp add: length_write_at)
  show "blocks_ok bs ?B"
    using ok b D_le piece len by (auto simp: blocks_ok_def)
  have D_end: "b * bs + length D \<le> max (b * bs) (blocks_size bs B)"
    using block_end_le [OF b, of bs B] D by (auto simp: block_end_def split: option.splits)
  have "block_end bs ?B = (block_end bs B)(b := b * bs + length ?D)"
    by (auto simp: block_end_def)
  moreover have "block_end bs B b \<le> b * bs + length ?D"
    using D len by (auto simp: block_end_def split: option.splits)
  ultimately have "blocks_size bs ?B = max (blocks_size bs B) (b * bs + length ?D)"
    using Max_update [of "{..max_block}" b "block_end bs B"] b by (simp add: blocks_size_def)
  then have size: "blocks_size bs ?B = max (blocks_size bs B) (b * bs + bo + length piece)"
    using len D_end piece by auto
  show "flat bs ?B = write_at (b * bs + bo) piece (flat bs B)"
  proof (rule nth_equalityI)
    show "length (flat bs ?B) = length (write_at (b * bs + bo) piece (flat bs B))"
      using size piece by (simp add: length_write_at)
    fix i assume "i < length (flat bs ?B)"
    then have i: "i < blocks_size bs ?B" "i < length (write_at (b * bs + bo) piece (flat bs B))"
      using size piece by (simp_all add: length_write_at)
    have beyond: "block_byte bs B i = zero_byte" if "blocks_size bs B \<le> i"
    proof (cases "B (i div bs)")
      case (Some d)
      then have "i div bs * bs + length d \<le> i"
        using block_end_le [of "i div bs" bs B] ok that by (auto simp: block_end_def blocks_ok_def)
      then have "length d \<le> i mod bs"
        by (metis add_le_cancel_left div_mult_mod_eq)
      then show ?thesis
        using Some by (simp add: block_byte_def)
    qed (simp add: block_byte_def)
    show "flat bs ?B ! i = write_at (b * bs + bo) piece (flat bs B) ! i"
    proof (cases "i div bs = b")
      case True
      then have split: "i = b * bs + i mod bs"
        using div_mult_mod_eq [of i bs] by simp
      have old: "block_byte bs B i = (if i mod bs < length D then D ! (i mod bs) else zero_byte)"
        using True D by (auto simp: block_byte_def split: option.split)
      have "block_byte bs ?B i = (if bo \<le> i mod bs \<and> i mod bs < bo + length piece then piece ! (i mod bs - bo) else block_byte bs B i)"
        using True old nth_write_at [of "i mod bs" bo piece D] len by (auto simp: block_byte_def)
      moreover have "i - (b * bs + bo) = i mod bs - bo"
        using split by simp
      moreover have "b * bs + bo \<le> i \<longleftrightarrow> bo \<le> i mod bs" "i < b * bs + bo + length piece \<longleftrightarrow> i mod bs < bo + length piece"
        using split by linarith+
      ultimately show ?thesis
        using i beyond by (simp add: nth_write_at)
    next
      case False
      then have "block_byte bs ?B i = block_byte bs B i"
        by (simp add: block_byte_def)
      moreover have "\<not> (b * bs + bo \<le> i \<and> i < b * bs + bo + length piece)"
      proof
        assume "b * bs + bo \<le> i \<and> i < b * bs + bo + length piece"
        then have "i - b * bs < bs" "b * bs + (i - b * bs) = i"
          using piece(2) by linarith+
        then show False
          using False div_mod_block [OF bs, of "i - b * bs" b] by simp
      qed
      ultimately show ?thesis
        using i beyond by (auto simp: nth_write_at)
    qed
  qed
qed


section \<open>The object store behind the adapter\<close>

definition blocks_of :: "(string \<Rightarrow> string option) \<Rightarrow> string \<Rightarrow> blocks" where
  "blocks_of objs p b = (if b \<le> max_block then case getKey p (of_nat b) of Inl _ \<Rightarrow> None | Inr k \<Rightarrow> objs k else None)"

text \<open>Every object is a block of some file.\<close>

definition objects_ok :: "nat \<Rightarrow> (string \<Rightarrow> string option) \<Rightarrow> bool" where
  "objects_ok bs objs \<longleftrightarrow>
     (\<forall>k d. objs k = Some d \<longrightarrow> length d \<le> bs \<and> (\<exists>p b. getKey p b = Inr k \<and> b \<le> MAX_OBJECT_ID))"

definition block_keys :: "(string \<Rightarrow> string option) \<Rightarrow> string \<Rightarrow> string set" where
  "block_keys objs p = {k. objs k \<noteq> None \<and> (\<exists>b. getKey p b = Inr k)}"

text \<open>
  The contract of an object store. A read beyond the end of an object may be an error, like the read
  of an object that does not exist; it leaves a buffer of zeros as it is.
\<close>

locale object_store =
  fixes kv :: "'w kv_ops" and objs :: "'w \<Rightarrow> string \<Rightarrow> string option" and bs :: nat
  assumes block_size: "0 < bs" "Suc max_block * bs < 2 ^ 63"
    and get_keeps: "objs (snd (kv_getObject kv k buf off w)) = objs w"
    and get_bytes:
      "kv_getObject kv k buf off w = ((Inr n, buf'), w') \<Longrightarrow> 0 \<le> off \<Longrightarrow> buf \<noteq> [] \<Longrightarrow>
       \<exists>d. objs w k = Some d \<and> n = min (length buf) (length d - nat off) \<and> buf' = take n (drop (nat off) d) @ drop n buf"
    and get_missing:
      "kv_getObject kv k buf off w = ((Inl (SystemError ENOENT), buf'), w') \<Longrightarrow> 0 \<le> off \<Longrightarrow> buf \<noteq> [] \<Longrightarrow>
       (case objs w k of None \<Rightarrow> True | Some d \<Rightarrow> length d \<le> nat off) \<and> (buf' = buf \<or> buf' = replicate (length buf) zero_byte)"
    and put_object: "kv_putObject kv k d w = (Inr n, w') \<Longrightarrow> objs w' = (objs w)(k \<mapsto> d)"
    and size_keeps: "objs (snd (kv_getObjectsSize kv p bs w)) = objs w"
    and size_value:
      "objects_ok bs (objs w) \<Longrightarrow> kv_getObjectsSize kv p bs w = (Inr sz, w') \<Longrightarrow>
       sz = int (blocks_size bs (blocks_of (objs w) p))"
    and list_objects:
      "objects_ok bs (objs w) \<Longrightarrow> kv_listObjects kv p w = (Inr ks, w') \<Longrightarrow>
       set ks = block_keys (objs w) p \<and> objs w' = objs w"
    and delete_objects:
      "kv_deleteObjects kv ks w = (Inr u, w') \<Longrightarrow> objs w' = (\<lambda>k. if k \<in> set ks then None else objs w k)"

definition kv_content :: "nat \<Rightarrow> ('w \<Rightarrow> string \<Rightarrow> string option) \<Rightarrow> 'w KeyValueAdapter \<Rightarrow> file_id \<Rightarrow> string" where
  "kv_content bs objs s p = flat bs (blocks_of (objs (kva_store s)) p)"

definition kv_ok :: "nat \<Rightarrow> ('w \<Rightarrow> string \<Rightarrow> string option) \<Rightarrow> 'w KeyValueAdapter \<Rightarrow> bool" where
  "kv_ok bs objs s \<longleftrightarrow> objects_ok bs (objs (kva_store s))"

lemma max_block_word: "b \<le> max_block \<Longrightarrow> unat (of_nat b :: 64 word) = b"
  by (simp add: max_block_def unat_of_nat64)

lemma objects_blocks_ok: "objects_ok bs objs \<Longrightarrow> blocks_ok bs (blocks_of objs p)"
  by (auto simp: blocks_ok_def blocks_of_def objects_ok_def split: if_splits sum.splits)

lemma block_key_inject:
  assumes "getKey p (of_nat b) = Inr k" "getKey p (of_nat c) = Inr k" "b \<le> max_block" "c \<le> max_block"
  shows "b = c"
  using getKey_inject [OF assms(1,2)] max_block_word [OF assms(3)] max_block_word [OF assms(4)] by metis

lemma blocks_of_update:
  assumes "getKey p (of_nat b) = Inr k" "b \<le> max_block"
  shows "blocks_of (objs(k \<mapsto> d)) p = (blocks_of objs p)(b \<mapsto> d)"
proof
  fix c
  show "blocks_of (objs(k \<mapsto> d)) p c = ((blocks_of objs p)(b \<mapsto> d)) c"
  proof (cases "c = b")
    case True
    then show ?thesis
      using assms by (simp add: blocks_of_def)
  next
    case False
    then have "getKey p (of_nat c) \<noteq> Inr k" if "c \<le> max_block"
      using block_key_inject [OF assms(1) _ assms(2) that] by blast
    then show ?thesis
      using False by (auto simp: blocks_of_def split: sum.split)
  qed
qed

lemma objects_ok_update:
  assumes "objects_ok bs objs" "getKey p (of_nat b) = Inr k" "b \<le> max_block" "length d \<le> bs"
  shows "objects_ok bs (objs(k \<mapsto> d))"
proof -
  have "(of_nat b :: 64 word) \<le> MAX_OBJECT_ID"
    using max_block_word [OF assms(3)] assms(3) by (simp add: word_le_nat_alt MAX_OBJECT_ID_def max_block_def)
  then show ?thesis
    using assms by (auto simp: objects_ok_def)
qed

text \<open>The block of an offset.\<close>

lemma getBlockId_nat:
  assumes "0 \<le> off" "off < 2 ^ 63" "0 < bs" "bs < 2 ^ 63"
  shows "getBlockId bs off = of_nat (nat off div bs)" "getBlockOffset bs off = int (nat off mod bs)"
proof -
  obtain a where a: "off = int a" "a < 2 ^ 63"
    using assms(1,2) by (metis nat_eq_iff2 nat_less_numeral_power_cancel_iff nonneg_int_cases)
  have "unat (of_nat a div of_nat bs :: 64 word) = a div bs"
    using a assms by (simp add: unat_div unat_of_nat64)
  then have "(of_nat a div of_nat bs :: 64 word) = of_nat (a div bs)"
    by (metis of_nat_unat ucast_id)
  then show id: "getBlockId bs off = of_nat (nat off div bs)"
    using a by (simp add: getBlockId_def)
  have "word_of_int off - getBlockId bs off * of_nat bs = (of_nat a - of_nat (a div bs * bs) :: 64 word)"
    using a(1) id by (simp flip: of_nat_mult)
  also have "\<dots> = of_nat (a - a div bs * bs)"
    by (simp add: of_nat_diff)
  also have "a - a div bs * bs = a mod bs"
    by (simp add: minus_div_mult_eq_mod)
  finally have "getBlockOffset bs off = sint (of_nat (a mod bs) :: 64 word)"
    by (simp add: getBlockOffset_def)
  moreover have "a mod bs < 2 ^ 63"
    using a(2) by (meson le_less_trans mod_less_eq_dividend)
  ultimately show "getBlockOffset bs off = int (nat off mod bs)"
    using a by (simp add: signed_of_nat signed_take_bit_int_eq_self)
qed


section \<open>Writing\<close>

text \<open>What a round of the writing loop puts into the store is the block with the piece written into it.\<close>

lemma merged_block:
  assumes "length D \<le> bs" "bo < bs" "0 < n" "n = min (bs - bo) (length xs)"
    "target = max (length D) (bo + n)" "buf = take target (D @ replicate (bs - length D) zero_byte)"
    "copied = take (target - bo) xs"
  shows "take bo buf @ copied @ drop (bo + length copied) buf = write_at bo (take n xs) D"
proof -
  have copied: "copied = take n xs" "length copied = n"
    using assms by (auto simp: min_def max_def split: if_splits)
  have "take bo buf = take bo (D @ replicate (bo - length D) zero_byte)"
    using assms by (auto simp: min_def)
  moreover have "drop (bo + n) buf = drop (bo + n) D"
    using assms by (cases "bo + n \<le> length D") auto
  moreover have "take n xs \<noteq> []"
    using assms by auto
  ultimately show ?thesis
    using copied by (simp add: write_at_def)
qed

context object_store
begin

lemma getBlock_zeros:
  assumes "getBlock kv key (replicate m zero_byte) (int bo) s = (Inr (n, data), s')" "0 < m"
  defines "D \<equiv> case objs (kva_store s) key of None \<Rightarrow> [] | Some d \<Rightarrow> d"
  shows "objs (kva_store s') = objs (kva_store s)" "n = min m (length D - bo)"
    "data = take n (drop bo D) @ replicate (m - n) zero_byte"
proof -
  obtain r buf' w where g: "kv_getObject kv key (replicate m zero_byte) (int bo) (kva_store s) = ((r, buf'), w)"
    by (metis prod.exhaust)
  have "objs w = objs (kva_store s)"
    using get_keeps [of key "replicate m zero_byte" "int bo" "kva_store s"] g by simp
  then show "objs (kva_store s') = objs (kva_store s)"
    using assms(1) g by (auto simp: getBlock_def split: sum.splits)
  have "n = min m (length D - bo) \<and> data = take n (drop bo D) @ replicate (m - n) zero_byte"
  proof (cases r)
    case (Inl x)
    then have x: "x = SystemError ENOENT" "n = 0" "data = buf'"
      using assms(1) g by (auto simp: getBlock_def split: if_splits)
    have "length D \<le> bo" "buf' = replicate m zero_byte"
      using get_missing [of key "replicate m zero_byte" "int bo" "kva_store s"] g Inl x assms(2)
      by (auto simp: D_def split: option.splits)
    then show ?thesis
      using x by simp
  next
    case (Inr k)
    then have "n = k" "data = buf'"
      using assms(1) g by (auto simp: getBlock_def)
    then show ?thesis
      using get_bytes [of key "replicate m zero_byte" "int bo" "kva_store s"] g Inr assms(2)
      by (auto simp: D_def)
  qed
  then show "n = min m (length D - bo)" "data = take n (drop bo D) @ replicate (m - n) zero_byte"
    by blast+
qed

lemma put_block:
  assumes "on_objects (kv_putObject kv key d) s = (Inr u, s')" "getKey p (of_nat b) = Inr key" "b \<le> max_block"
  shows "objs (kva_store s') = (objs (kva_store s))(key \<mapsto> d)"
    "blocks_of (objs (kva_store s')) p = (blocks_of (objs (kva_store s)) p)(b \<mapsto> d)"
proof -
  show eq: "objs (kva_store s') = (objs (kva_store s))(key \<mapsto> d)"
    using assms(1) put_object [of key d "kva_store s"] by (auto simp: on_objects_def split: prod.splits)
  then show "blocks_of (objs (kva_store s')) p = (blocks_of (objs (kva_store s)) p)(b \<mapsto> d)"
    using blocks_of_update [OF assms(2,3)] by simp
qed

lemma write_block_content:
  assumes "write_block kv bs p buf bufOffset (of_nat b) bo s = (Inr u, s')" "kv_ok bs objs s"
    and "b \<le> max_block" "bo < bs" "bufOffset < length buf"
  defines "n \<equiv> min (bs - bo) (length buf - bufOffset)"
  shows "kv_content bs objs s' p = write_at (b * bs + bo) (take n (drop bufOffset buf)) (kv_content bs objs s p)"
    "kv_ok bs objs s'"
proof -
  obtain key where key: "getKey p (of_nat b) = Inr key"
    using assms(1) by (auto simp: write_block_def Let_def raise_def act_defs split: sum.splits)
  let ?B = "blocks_of (objs (kva_store s)) p"
  define D where "D = (case objs (kva_store s) key of None \<Rightarrow> [] | Some d \<Rightarrow> d)"
  have D: "D = (case ?B b of None \<Rightarrow> [] | Some d \<Rightarrow> d)"
    using key assms(3) by (simp add: D_def blocks_of_def)
  have D_le: "length D \<le> bs"
    using assms(2) by (auto simp: D_def kv_ok_def objects_ok_def split: option.splits)
  have n: "0 < n" "n \<le> bs - bo" "length (take n (drop bufOffset buf)) = n"
    using assms(4,5) by (auto simp: n_def)
  have put: "objs (kva_store s') = (objs (kva_store s))(key \<mapsto> write_at bo (take n (drop bufOffset buf)) D)"
  proof (cases "n = bs")
    case True
    then have "bo = 0"
      using n(2) assms(4) by simp
    then have "write_at bo (take n (drop bufOffset buf)) D = take n (drop bufOffset buf)"
      using n D_le True by (auto simp: write_at_def)
    then show ?thesis
      using assms(1) key True put_block(1) [OF _ key assms(3)]
      by (auto simp: write_block_def Let_def raise_def lock_key_def unlock_key_def act_defs n_def [symmetric]
          split: prod.splits sum.splits)
  next
    case False
    then obtain fetched data s1 s2 u' where s1: "getBlock kv key (replicate bs zero_byte) 0 (s\<lparr>m_locks := List.insert key (m_locks s)\<rparr>) = (Inr (fetched, data), s1)"
      and s2: "on_objects (kv_putObject kv key
           (let target = max fetched (bo + n); blockBuf = take target data; copied = take (target - bo) (drop bufOffset buf)
            in take bo blockBuf @ copied @ drop (bo + length copied) blockBuf)) s1 = (Inr u', s2)"
      and s': "kva_store s' = kva_store s2"
      using assms(1) key
      by (auto simp: write_block_def Let_def raise_def lock_key_def unlock_key_def act_defs n_def [symmetric]
          split: prod.splits sum.splits)
    have bs: "0 < bs"
      using assms(4) by simp
    have got: "objs (kva_store s1) = objs (kva_store s)" "fetched = length D" "data = D @ replicate (bs - length D) zero_byte"
      using getBlock_zeros [of key bs 0 _ fetched data s1, simplified, OF s1 bs] D_le by (simp_all add: D_def)
    have "(let target = max fetched (bo + n); blockBuf = take target data; copied = take (target - bo) (drop bufOffset buf)
            in take bo blockBuf @ copied @ drop (bo + length copied) blockBuf) = write_at bo (take n (drop bufOffset buf)) D"
      unfolding Let_def by (rule merged_block [OF D_le assms(4) n(1)]) (simp_all add: n_def got)
    then show ?thesis
      using put_block(1) [OF s2 key assms(3)] got(1) s' by simp
  qed
  then have "blocks_of (objs (kva_store s')) p = ?B(b \<mapsto> write_at bo (take n (drop bufOffset buf)) D)"
    using blocks_of_update [OF key assms(3)] by simp
  moreover have piece: "take n (drop bufOffset buf) \<noteq> []" "bo + length (take n (drop bufOffset buf)) \<le> bs"
    using n assms(4) by auto
  note flat = flat_write_block [OF objects_blocks_ok assms(3) piece D]
  have ok: "objects_ok bs (objs (kva_store s))"
    using assms(2) by (simp add: kv_ok_def)
  ultimately show "kv_content bs objs s' p = write_at (b * bs + bo) (take n (drop bufOffset buf)) (kv_content bs objs s p)"
    using flat(1) [OF ok] by (simp add: kv_content_def)
  have "length (write_at bo (take n (drop bufOffset buf)) D) \<le> bs"
    using D_le piece by (simp add: length_write_at)
  then show "kv_ok bs objs s'"
    using objects_ok_update [OF ok key assms(3)] put by (simp add: kv_ok_def)
qed

end


context object_store
begin

lemma write_blocks_content:
  assumes "write_blocks kv bs p buf i (of_nat b) bo s = (Inr u, s')" "kv_ok bs objs s" "bo < bs" "i \<le> length buf"
    and "i < length buf \<Longrightarrow> off + i = b * bs + bo" "off + length buf \<le> Suc max_block * bs"
    and "kv_content bs objs s p = write_at off (take i buf) c"
  shows "kv_content bs objs s' p = write_at off buf c \<and> kv_ok bs objs s'"
  using assms
proof (induction "length buf - i" arbitrary: i b bo s rule: less_induct)
  case less
  show ?case
  proof (cases "i < length buf")
    case False
    then show ?thesis
      using less.prems by (simp add: write_blocks.simps [of kv])
  next
    case True
    let ?n = "min (bs - bo) (length buf - i)"
    obtain u' s1 where s1: "write_block kv bs p buf i (of_nat b) bo s = (Inr u', s1)"
      "write_blocks kv bs p buf (i + ?n) (of_nat (Suc b)) 0 s1 = (Inr u, s')"
      using less.prems(1,3) True by (subst (asm) write_blocks.simps) (auto simp: add.commute split: prod.splits sum.splits)
    have pos: "off + i = b * bs + bo"
      using less.prems(5) True by simp
    then have "b * bs < Suc max_block * bs"
      using less.prems(6) True by linarith
    then have "b \<le> max_block"
      using mult_less_cancel2 [of b bs "Suc max_block"] by linarith
    note step = write_block_content [OF s1(1) less.prems(2) this less.prems(3) True]
    have "take (i + ?n) buf = take i buf @ take ?n (drop i buf)"
      by (simp add: take_add)
    then have content: "kv_content bs objs s1 p = write_at off (take (i + ?n) buf) c"
      using step(1) less.prems(7) write_at_append [of off "take i buf" "take ?n (drop i buf)" c] True pos by simp
    have next_pos: "off + (i + ?n) = Suc b * bs + 0" if "i + ?n < length buf"
      using that pos less.prems(3) by auto
    show ?thesis
      by (rule less.hyps [OF _ s1(2) step(2) block_size(1) _ next_pos less.prems(6) content])
        (use True less.prems(3) in auto)
  qed
qed

lemma kv_ash_write_content:
  assumes "kv_ash_write kv bs p buf off s = (Inr k, s')" "kv_ok bs objs s" "fits (Suc max_block * bs) (off, buf)"
  shows "k = length buf \<and> kv_content bs objs s' p = write_at (nat off) buf (kv_content bs objs s p) \<and> kv_ok bs objs s'"
proof (cases "buf = []")
  case True
  then show ?thesis
    using assms by (auto simp: kv_ash_write_def write_blocks.simps [of kv] act_defs)
next
  case False
  let ?o = "nat off"
  have bs: "bs < 2 ^ 63"
    by (rule le_less_trans [OF _ block_size(2)]) simp
  define L where "L = Suc max_block * bs"
  have "int L < 2 ^ 63"
    using block_size(2) unfolding L_def [symmetric] by simp
  moreover have fit: "0 \<le> off" "off + int (length buf) \<le> int L"
    using assms(3) by (simp_all add: fits_def L_def)
  ultimately have off: "0 \<le> off" "off < 2 ^ 63"
    by linarith+
  obtain u where "write_blocks kv bs p buf 0 (of_nat (?o div bs)) (?o mod bs) s = (Inr u, s')" "k = length buf"
    using assms(1) getBlockId_nat [OF off block_size(1) bs]
    by (auto simp: kv_ash_write_def act_defs split: prod.splits sum.splits)
  moreover have "?o + length buf \<le> Suc max_block * bs"
    using fit unfolding L_def [symmetric] by linarith
  ultimately show ?thesis
    using write_blocks_content [of p buf 0 "?o div bs" "?o mod bs" s u s' ?o "kv_content bs objs s p"] assms(2) block_size(1)
    by simp
qed

end

section \<open>Reading\<close>

lemma flat_beyond:
  assumes "blocks_ok bs B" "blocks_size bs B \<le> i"
  shows "block_byte bs B i = zero_byte"
proof (cases "B (i div bs)")
  case (Some d)
  then have "i div bs * bs + length d \<le> i"
    using block_end_le [of "i div bs" bs B] assms by (auto simp: block_end_def blocks_ok_def)
  then have "length d \<le> i mod bs"
    by (metis add_le_cancel_left div_mult_mod_eq)
  then show ?thesis
    using Some by (simp add: block_byte_def)
qed (simp add: block_byte_def)

text \<open>
  The buffer of the reading loop: the bytes before the current offset are those of the file, the rest
  is zero.
\<close>

definition filled :: "nat \<Rightarrow> blocks \<Rightarrow> nat \<Rightarrow> nat \<Rightarrow> nat \<Rightarrow> string \<Rightarrow> bool" where
  "filled bs B off sz i buf \<longleftrightarrow>
     length buf = sz \<and> (\<forall>j < sz. buf ! j = (if j < i then block_byte bs B (off + j) else zero_byte))"

context object_store
begin

lemma filled_step:
  assumes "filled bs B off sz i buf" "i < sz" "off + i = b * bs + bo" "bo < bs"
    and D: "D = (case B b of None \<Rightarrow> [] | Some d \<Rightarrow> d)" "length D \<le> bs"
    and n: "n = min (min bs (sz - i)) (length D - bo)"
    and data: "data = take n (drop bo D) @ replicate (min bs (sz - i) - n) zero_byte"
  shows "filled bs B off sz (i + (bs - bo)) (take i buf @ data @ drop (i + bs) buf)"
proof -
  have n_le: "n \<le> min bs (sz - i)" "n \<le> length D - bo"
    unfolding n by (rule min.cobounded1, rule min.cobounded2)
  then have taken: "length (take n (drop bo D)) = n"
    by simp
  have len: "length buf = sz" "length data = min bs (sz - i)"
    using assms(1) n_le(1) taken unfolding data by (simp_all add: filled_def)
  have data_nth: "data ! j = (if j < n then D ! (bo + j) else zero_byte)" if "j < min bs (sz - i)" for j
  proof (cases "j < n")
    case False
    then have "j - n < min bs (sz - i) - n"
      using that by linarith
    then show ?thesis
      unfolding data nth_append taken using False by (simp del: min_less_iff_conj)
  qed (simp add: data nth_append taken, use n_le in simp)
  have byte: "data ! j = (if j < bs - bo then block_byte bs B (off + (i + j)) else zero_byte)" if "j < min bs (sz - i)" for j
  proof (cases "j < bs - bo")
    case True
    then have "off + (i + j) = b * bs + (bo + j)" "bo + j < bs"
      using assms(3) by auto
    then have "(off + (i + j)) div bs = b" "(off + (i + j)) mod bs = bo + j"
      using div_mod_block [OF block_size(1), of "bo + j" b] by metis+
    then have "block_byte bs B (off + (i + j)) = (if bo + j < length D then D ! (bo + j) else zero_byte)"
      using D(1) by (auto simp: block_byte_def split: option.split)
    moreover have "j < n \<longleftrightarrow> bo + j < length D"
      using that unfolding n by linarith
    ultimately show ?thesis
      using True data_nth [OF that] by simp
  next
    case False
    then have "n \<le> j"
      using n_le(2) D(2) by linarith
    then show ?thesis
      using False data_nth [OF that] by simp
  qed
  have old: "buf ! j = (if j < i then block_byte bs B (off + j) else zero_byte)" if "j < sz" for j
    using assms(1) that by (simp add: filled_def)
  have "(take i buf @ data @ drop (i + bs) buf) ! j = (if j < i + (bs - bo) then block_byte bs B (off + j) else zero_byte)"
    if "j < sz" for j
  proof -
    consider "j < i" | "i \<le> j" "j < i + length data" | "i + length data \<le> j"
      by linarith
    then show ?thesis
    proof cases
      case 1
      then show ?thesis
        using old len that by (simp add: nth_append)
    next
      case 2
      then have k: "j - i < length data"
        by linarith
      then have "(take i buf @ data @ drop (i + bs) buf) ! j = data ! (j - i)"
        using 2(1) len(1) assms(2) by (simp add: nth_append)
      then show ?thesis
        using byte [OF k [unfolded len(2)]] 2(1) by auto
    next
      case 3
      then have bs: "length data = bs" "i + bs \<le> j"
        using len that by linarith+
      then obtain k where k: "j = i + bs + k"
        using le_Suc_ex by blast
      have "(take i buf @ data @ drop (i + bs) buf) ! j = buf ! j"
        using len(1) assms(2) that bs(1) by (simp add: nth_append k)
      then show ?thesis
        using old [OF that] bs by auto
    qed
  qed
  moreover have "length (take i buf @ data @ drop (i + bs) buf) = sz"
    using len assms(2) by simp
  ultimately show ?thesis
    by (simp add: filled_def)
qed

end


context object_store
begin

lemma getBlock_keeps: "objs (kva_store (snd (getBlock kv key buf off s))) = objs (kva_store s)"
  using get_keeps [of key buf off "kva_store s"] by (auto simp: getBlock_def split: prod.splits sum.splits)

lemma read_round_keeps:
  assumes "bindA (raise (getKey p k)) (\<lambda>key. bindA (lock_key key) (\<lambda>_. bindA (getBlock kv key buf off) (\<lambda>(n, blockBuf).
             bindA (unlock_key []) (\<lambda>_. returnA blockBuf)))) s = (r, s')"
  shows "objs (kva_store s') = objs (kva_store s)"
proof (cases "getKey p k")
  case (Inr key)
  then show ?thesis
    using assms getBlock_keeps [of key buf off "s\<lparr>m_locks := List.insert key (m_locks s)\<rparr>"]
    by (auto simp: raise_def lock_key_def unlock_key_def act_defs split: prod.splits sum.splits)
qed (use assms in \<open>simp add: raise_def act_defs\<close>)

lemma read_blocks_keeps: "objs (kva_store (snd (read_blocks kv bs p sz buf i k bo s))) = objs (kva_store s)"
proof (induction "sz - i" arbitrary: buf i k bo s rule: less_induct)
  case less
  show ?case
  proof (cases "sz \<le> i \<or> bs \<le> bo")
    case False
    obtain r s1 where round: "bindA (raise (getKey p k)) (\<lambda>key. bindA (lock_key key) (\<lambda>_.
        bindA (getBlock kv key (take bs (drop i buf)) (int bo)) (\<lambda>(n, blockBuf).
        bindA (unlock_key []) (\<lambda>_. returnA blockBuf)))) s = (r, s1)"
      by fastforce
    have "objs (kva_store (snd (read_blocks kv bs p sz buf' (i + (bs - bo)) k' 0 s1))) = objs (kva_store s1)" for buf' k'
      by (rule less.hyps) (use False in auto)
    then show ?thesis
      using False read_round_keeps [OF round] round
      by (subst read_blocks.simps) (simp split: sum.split)
  qed (simp add: read_blocks.simps [of kv])
qed

lemma read_blocks_filled:
  assumes "read_blocks kv bs p sz buf i (of_nat b) bo s = (Inr buf', s')" "kv_ok bs objs s" "bo < bs"
    and "B = blocks_of (objs (kva_store s)) p" "filled bs B off sz i buf"
    and "i < sz \<Longrightarrow> off + i = b * bs + bo" "off + sz \<le> Suc max_block * bs"
  shows "filled bs B off sz sz buf'"
  using assms
proof (induction "sz - i" arbitrary: buf i b bo s rule: less_induct)
  case less
  show ?case
  proof (cases "i < sz")
    case False
    then have "buf' = buf"
      using less.prems(1) by (simp add: read_blocks.simps [of kv])
    then show ?thesis
      using less.prems(5) False by (auto simp: filled_def)
  next
    case True
    let ?m = "min bs (sz - i)"
    have pos: "off + i = b * bs + bo"
      using less.prems(6) True by simp
    then have "b * bs < Suc max_block * bs"
      using less.prems(7) True by linarith
    then have b: "b \<le> max_block"
      using mult_less_cancel2 [of b bs "Suc max_block"] by linarith
    have zeros: "take bs (drop i buf) = replicate ?m zero_byte"
      using less.prems(5) True by (intro nth_equalityI) (auto simp: filled_def)
    obtain key data s1 where key: "getKey p (of_nat b) = Inr key"
      and round: "bindA (raise (getKey p (of_nat b))) (\<lambda>key. bindA (lock_key key) (\<lambda>_.
        bindA (getBlock kv key (take bs (drop i buf)) (int bo)) (\<lambda>(n, blockBuf).
        bindA (unlock_key []) (\<lambda>_. returnA blockBuf)))) s = (Inr data, s1)"
      and rest: "read_blocks kv bs p sz (take i buf @ data @ drop (i + bs) buf) (i + (bs - bo)) (of_nat (Suc b)) 0 s1 = (Inr buf', s')"
      using less.prems(1,3) True
      by (subst (asm) read_blocks.simps) (auto simp: add.commute raise_def bindA_def [of "raise _"] split: prod.splits sum.splits)
    obtain n s2 where got: "getBlock kv key (replicate ?m zero_byte) (int bo) (s\<lparr>m_locks := List.insert key (m_locks s)\<rparr>) = (Inr (n, data), s2)"
      using round key zeros by (auto simp: raise_def lock_key_def unlock_key_def act_defs split: prod.splits sum.splits)
    define D where "D = (case objs (kva_store s) key of None \<Rightarrow> [] | Some d \<Rightarrow> d)"
    have D: "D = (case B b of None \<Rightarrow> [] | Some d \<Rightarrow> d)" "length D \<le> bs"
      using key b less.prems(2,4) by (auto simp: D_def blocks_of_def kv_ok_def objects_ok_def split: option.splits)
    have m: "0 < ?m"
      using True block_size(1) by simp
    have data: "n = min ?m (length D - bo)" "data = take n (drop bo D) @ replicate (?m - n) zero_byte"
      using getBlock_zeros(2,3) [OF got m] by (simp_all add: D_def)
    have filled: "filled bs B off sz (i + (bs - bo)) (take i buf @ data @ drop (i + bs) buf)"
      by (rule filled_step [OF less.prems(5) True pos less.prems(3) D data])
    have same: "objs (kva_store s1) = objs (kva_store s)"
      by (rule read_round_keeps [OF round])
    have next_pos: "off + (i + (bs - bo)) = Suc b * bs + 0" if "i + (bs - bo) < sz"
      using pos less.prems(3) by simp
    show ?thesis
      by (rule less.hyps [OF _ rest _ block_size(1) _ filled next_pos less.prems(7)])
        (use True less.prems same in \<open>auto simp: kv_ok_def\<close>)
  qed
qed

lemma kv_ash_read_keeps: "objs (kva_store (snd (kv_ash_read kv bs p buf off s))) = objs (kva_store s)"
proof -
  obtain r w where sz: "kv_getObjectsSize kv p bs (kva_store s) = (r, w)"
    by fastforce
  have "objs w = objs (kva_store s)"
    using size_keeps [of p "kva_store s"] sz by simp
  moreover have "objs (kva_store (snd (read_blocks kv bs p n buf' 0 k bo (s\<lparr>kva_store := w\<rparr>)))) = objs w" for n buf' k bo
    using read_blocks_keeps [of p n buf' 0 k bo "s\<lparr>kva_store := w\<rparr>"] by simp
  ultimately show ?thesis
    using sz by (cases r) (auto simp: kv_ash_read_def on_objects_def bindA_def returnA_def Let_def split: sum.split prod.split, (metis snd_conv)+)
qed

lemma kv_ash_read_content:
  assumes "kv_ash_read kv bs p (replicate n zero_byte) off s = (Inr d, s')" "kv_ok bs objs s" "0 \<le> off"
  shows "d = take n (drop (nat off) (kv_content bs objs s p))"
proof -
  let ?B = "blocks_of (objs (kva_store s)) p" and ?o = "nat off"
  obtain fileSize w where sz: "kv_getObjectsSize kv p bs (kva_store s) = (Inr fileSize, w)"
    using assms(1) by (auto simp: kv_ash_read_def on_objects_def bindA_def split: prod.splits sum.splits)
  have ok: "objects_ok bs (objs (kva_store s))"
    using assms(2) by (simp add: kv_ok_def)
  have fileSize: "fileSize = int (blocks_size bs ?B)"
    by (rule size_value [OF ok sz])
  show ?thesis
  proof (cases "off \<ge> fileSize")
    case True
    then have "d = []"
      using assms(1) sz by (simp add: kv_ash_read_def on_objects_def act_defs)
    then show ?thesis
      using True fileSize assms(3) by (simp add: kv_content_def)
  next
    case False
    define m where "m = min (nat (fileSize - off)) n"
    let ?s = "s\<lparr>kva_store := w\<rparr>"
    have same: "objs w = objs (kva_store s)"
      using size_keeps [of p "kva_store s"] sz by simp
    have limit: "blocks_size bs ?B \<le> Suc max_block * bs"
      by (rule blocks_size_limit [OF objects_blocks_ok [OF ok]])
    have "int (blocks_size bs ?B) < 2 ^ 63"
      using le_less_trans [OF limit block_size(2)] by simp
    then have off: "off < 2 ^ 63"
      using False fileSize by linarith
    have bs: "bs < 2 ^ 63"
      by (rule le_less_trans [OF _ block_size(2)]) simp
    obtain buf' where buf': "read_blocks kv bs p m (replicate m zero_byte) 0 (of_nat (?o div bs)) (?o mod bs) ?s = (Inr buf', s')"
      and d: "d = take m buf'"
      using assms(1) sz False getBlockId_nat [OF assms(3) off block_size(1) bs]
      by (auto simp: kv_ash_read_def on_objects_def act_defs Let_def m_def [symmetric] split: prod.splits sum.splits)
    have m: "?o + m \<le> blocks_size bs ?B"
      using False fileSize assms(3) unfolding m_def by linarith
    have ok': "kv_ok bs objs ?s" and B: "?B = blocks_of (objs (kva_store ?s)) p"
      using ok same by (simp_all add: kv_ok_def)
    have start: "filled bs ?B ?o m 0 (replicate m zero_byte)"
      by (simp add: filled_def)
    have "filled bs ?B ?o m m buf'"
      by (rule read_blocks_filled [OF buf' ok' _ B start]) (use m limit block_size(1) in auto)
    then have "length buf' = m" "\<And>j. j < m \<Longrightarrow> buf' ! j = block_byte bs ?B (?o + j)"
      by (auto simp: filled_def)
    moreover have "length (take n (drop ?o (kv_content bs objs s p))) = m"
      using fileSize assms(3) unfolding m_def by (simp add: kv_content_def min.commute nat_diff_distrib')
    ultimately show ?thesis
      using d m by (intro nth_equalityI) (simp_all add: kv_content_def)
  qed
qed

end


section \<open>Truncating and removing\<close>

lemma length_resize [simp]: "length (resize n c) = n"
  by (simp add: resize_def)

lemma nth_resize: "i < n \<Longrightarrow> resize n c ! i = (if i < length c then c ! i else zero_byte)"
  by (auto simp: resize_def nth_append)

definition truncated_blocks :: "nat \<Rightarrow> blocks \<Rightarrow> nat \<Rightarrow> blocks" where
  "truncated_blocks bs B a c =
     (if a \<le> c * bs then None
      else if a \<le> Suc c * bs then Some (resize (a - c * bs) (case B c of None \<Rightarrow> [] | Some d \<Rightarrow> d))
      else B c)"

lemma truncated_size:
  assumes "blocks_ok bs B" "0 < bs" "a \<le> Suc max_block * bs"
  shows "blocks_size bs (truncated_blocks bs B a) = a"
proof (rule antisym)
  show "blocks_size bs (truncated_blocks bs B a) \<le> a"
  proof (rule blocks_size_le)
    fix c
    have "c * bs + length d \<le> Suc c * bs" if "B c = Some d" for d
      using assms(1) that by (simp add: blocks_ok_def)
    then show "block_end bs (truncated_blocks bs B a) c \<le> a"
      by (fastforce simp: block_end_def truncated_blocks_def split: option.split)
  qed
  show "a \<le> blocks_size bs (truncated_blocks bs B a)"
  proof (cases "a = 0")
    case False
    define c where "c = (a - 1) div bs"
    have "c * bs + (a - 1) mod bs = a - 1"
      unfolding c_def by (rule div_mult_mod_eq)
    then have c: "c * bs < a" "a \<le> Suc c * bs"
      using False mod_less_divisor [OF assms(2), of "a - 1"] unfolding mult_Suc by linarith+
    have "c * bs < Suc max_block * bs"
      using c(1) assms(3) by linarith
    then have "c \<le> max_block"
      using mult_less_cancel2 [of c bs "Suc max_block"] by linarith
    then show ?thesis
      using block_end_le [of c bs "truncated_blocks bs B a"] c by (simp add: block_end_def truncated_blocks_def)
  qed simp
qed

lemma flat_truncated:
  assumes "blocks_ok bs B" "0 < bs" "a \<le> Suc max_block * bs"
  shows "flat bs (truncated_blocks bs B a) = resize a (flat bs B)"
proof (rule nth_equalityI)
  show "length (flat bs (truncated_blocks bs B a)) = length (resize a (flat bs B))"
    by (simp add: truncated_size [OF assms])
  fix i assume "i < length (flat bs (truncated_blocks bs B a))"
  then have i: "i < a"
    by (simp add: truncated_size [OF assms])
  define c where "c = i div bs"
  have c: "c * bs + i mod bs = i"
    unfolding c_def by (rule div_mult_mod_eq)
  then have not_gone: "\<not> a \<le> c * bs" and inside: "i mod bs < a - c * bs"
    using i by linarith+
  have "block_byte bs (truncated_blocks bs B a) i = block_byte bs B i"
  proof (cases "a \<le> Suc c * bs")
    case True
    then have "truncated_blocks bs B a c = Some (resize (a - c * bs) (case B c of None \<Rightarrow> [] | Some d \<Rightarrow> d))"
      using not_gone by (simp add: truncated_blocks_def)
    then show ?thesis
      using inside by (simp add: block_byte_def c_def [symmetric] nth_resize split: option.split)
  next
    case False
    then show ?thesis
      using not_gone by (simp add: block_byte_def c_def [symmetric] truncated_blocks_def)
  qed
  then show "flat bs (truncated_blocks bs B a) ! i = resize a (flat bs B) ! i"
    using i flat_beyond [OF assms(1), of i] by (simp add: truncated_size [OF assms] nth_resize)
qed

lemma keysToDelete_set:
  assumes "keysToDelete b o' ks = Inr doomed" "\<forall>k \<in> set ks. \<exists>p c. getKey p c = Inr k"
  shows "k \<in> set doomed \<longleftrightarrow> k \<in> set ks \<and> (\<exists>p c. getKey p c = Inr k \<and> (c > b \<or> c = b \<and> o' = 0))"
  using assms
proof (induction ks arbitrary: doomed)
  case (Cons k' ks)
  then obtain p c where c: "getKey p c = Inr k'" "getObjectId k' = Some c"
    using getObjectId_getKey by auto
  have unique: "getKey q d = Inr k' \<Longrightarrow> d = c" for q d
    using getKey_inject [OF c(1)] by blast
  let ?Q = "\<lambda>d. d > b \<or> d = b \<and> o' = 0"
  have id: "(\<exists>p d. getKey p d = Inr k' \<and> ?Q d) \<longleftrightarrow> ?Q c"
    using c(1) unique by metis
  obtain ds where ds: "keysToDelete b o' ks = Inr ds" "doomed = (if ?Q c then k' # ds else ds)"
    using Cons.prems(1) c(2) by (auto split: sum.splits)
  have IH: "k \<in> set ds \<longleftrightarrow> k \<in> set ks \<and> (\<exists>p d. getKey p d = Inr k \<and> ?Q d)"
    using Cons.IH [OF ds(1)] Cons.prems(2) by simp
  show ?case
  proof (cases "k = k'")
    case True
    show ?thesis
      unfolding True id using IH [unfolded True id] ds(2) by (cases "?Q c") auto
  next
    case False
    then show ?thesis
      using IH ds(2) by (simp split: if_splits)
  qed
qed simp

context object_store
begin

lemma kv_ash_unlink_content:
  assumes "kv_ash_unlink kv p s = (Inr u, s')" "kv_ok bs objs s"
  shows "kv_content bs objs s' p = []" "kv_ok bs objs s'"
proof -
  obtain ks w w' where l: "kv_listObjects kv p (kva_store s) = (Inr ks, w)" "kv_deleteObjects kv ks w = (Inr u, w')" "kva_store s' = w'"
    using assms(1) by (auto simp: kv_ash_unlink_def on_objects_def bindA_def split: prod.splits sum.splits)
  have o: "objs w' = (\<lambda>k. if k \<in> block_keys (objs (kva_store s)) p then None else objs (kva_store s) k)"
    using list_objects [OF _ l(1)] delete_objects [OF l(2)] assms(2) by (simp add: kv_ok_def cong: if_cong)
  have "blocks_of (objs w') p b = None" for b
    by (auto simp: o blocks_of_def block_keys_def split: sum.split)
  then have "blocks_size bs (blocks_of (objs w') p) = 0"
    using blocks_size_le [of bs "blocks_of (objs w') p" 0] by (simp add: block_end_def)
  then show "kv_content bs objs s' p = []"
    by (simp add: kv_content_def l(3) flat_def)
  show "kv_ok bs objs s'"
    using assms(2) by (auto simp: kv_ok_def l(3) o objects_ok_def split: if_splits)
qed

end


text \<open>The last block of a file of a given size.\<close>

definition last_block :: "nat \<Rightarrow> nat \<Rightarrow> nat" where
  "last_block bs a = (if a mod bs = 0 then a div bs - 1 else a div bs)"

lemma last_block_bounds:
  assumes "0 < a" "0 < bs"
  shows "last_block bs a * bs < a" "a \<le> Suc (last_block bs a) * bs"
proof -
  have eq: "a div bs * bs + a mod bs = a"
    by (rule div_mult_mod_eq)
  have mod: "a mod bs < bs"
    using assms(2) by simp
  have "last_block bs a * bs < a \<and> a \<le> Suc (last_block bs a) * bs"
  proof (cases "a mod bs = 0")
    case True
    then obtain d where "a div bs = Suc d"
      using eq assms(1) by (cases "a div bs") auto
    then show ?thesis
      using True eq assms(2) by (auto simp: last_block_def)
  next
    case False
    then have last: "last_block bs a = a div bs"
      by (simp add: last_block_def)
    show ?thesis
      unfolding last mult_Suc using False eq mod by (intro conjI; linarith)
  qed
  then show "last_block bs a * bs < a" "a \<le> Suc (last_block bs a) * bs"
    by blast+
qed

lemma beyond_block: "0 < bs \<Longrightarrow> a \<le> c * bs \<longleftrightarrow> a div bs < c \<or> c = a div bs \<and> a mod bs = 0" for a bs c :: nat
proof -
  assume bs: "0 < bs"
  have eq: "a div bs * bs + a mod bs = a"
    by (rule div_mult_mod_eq)
  consider "c < a div bs" | "c = a div bs" | "a div bs < c"
    by linarith
  then show "a \<le> c * bs \<longleftrightarrow> a div bs < c \<or> c = a div bs \<and> a mod bs = 0"
  proof cases
    case 1
    then have "Suc c * bs \<le> a div bs * bs"
      by (intro mult_right_mono) auto
    then have "c * bs < a"
      using eq bs unfolding mult_Suc by linarith
    then show ?thesis
      using 1 by simp
  next
    case 2
    have "a \<le> a div bs * bs \<Longrightarrow> a mod bs = 0" "a mod bs = 0 \<Longrightarrow> a \<le> a div bs * bs"
      using eq by linarith+
    then show ?thesis
      unfolding 2 by (metis less_irrefl)
  next
    case 3
    then have "Suc (a div bs) * bs \<le> c * bs"
      by (intro mult_right_mono) auto
    then have "a \<le> c * bs"
      using eq mod_less_divisor [OF bs, of a] unfolding mult_Suc by linarith
    then show ?thesis
      using 3 by simp
  qed
qed

lemma truncated_objects:
  assumes a: "a \<le> Suc max_block * bs" "0 < bs" and key: "\<exists>k. getKey p 0 = Inr k"
    and t: "0 < a \<Longrightarrow> getKey p (of_nat (last_block bs a)) = Inr kt"
    and objs1: "objs1 = (if 0 < a then objs(kt \<mapsto> resize (a - last_block bs a * bs) (case objs kt of None \<Rightarrow> [] | Some d \<Rightarrow> d)) else objs)"
    and doomed: "\<And>k. k \<in> doomed \<longleftrightarrow> k \<in> block_keys objs p \<and> (\<exists>q c. getKey q c = Inr k \<and> (c > of_nat (a div bs) \<or> c = of_nat (a div bs) \<and> a mod bs = 0))"
  shows "blocks_of (\<lambda>k. if k \<in> doomed then None else objs1 k) p = truncated_blocks bs (blocks_of objs p) a"
proof
  fix c
  have div: "a div bs \<le> Suc max_block"
    using a by (metis div_le_mono nonzero_mult_div_cancel_right not_gr_zero)
  then have div_word: "unat (of_nat (a div bs) :: 64 word) = a div bs"
    by (intro unat_of_nat64) (simp add: max_block_def)
  show "blocks_of (\<lambda>k. if k \<in> doomed then None else objs1 k) p c = truncated_blocks bs (blocks_of objs p) a c"
  proof (cases "c \<le> max_block")
    case False
    then have "Suc max_block * bs \<le> c * bs"
      by (intro mult_right_mono) auto
    then have "a \<le> c * bs"
      using a(1) by linarith
    then show ?thesis
      using False by (simp add: blocks_of_def truncated_blocks_def)
  next
    case True
    obtain kc where kc: "getKey p (of_nat c) = Inr kc"
      using key getKey_prefix by blast
    have old: "blocks_of objs p c = objs kc"
      using True kc by (simp add: blocks_of_def)
    have words: "(of_nat c :: 64 word) > of_nat (a div bs) \<longleftrightarrow> a div bs < c" "(of_nat c :: 64 word) = of_nat (a div bs) \<longleftrightarrow> c = a div bs"
      unfolding word_less_nat_alt word_unat_eq_iff max_block_word [OF True] div_word by (rule refl)+
    have id: "(\<exists>q d. getKey q d = Inr kc \<and> (d > of_nat (a div bs) \<or> d = of_nat (a div bs) \<and> a mod bs = 0)) \<longleftrightarrow>
        a div bs < c \<or> c = a div bs \<and> a mod bs = 0"
      unfolding words [symmetric] using kc getKey_inject [OF kc] by metis
    have "kc \<in> block_keys objs p \<longleftrightarrow> objs kc \<noteq> None"
      using kc by (auto simp: block_keys_def)
    then have gone: "kc \<in> doomed \<longleftrightarrow> objs kc \<noteq> None \<and> a \<le> c * bs"
      unfolding doomed id beyond_block [OF a(2)] by simp
    have kt: "kc = kt \<longleftrightarrow> c = last_block bs a" if "0 < a"
    proof
      have last: "last_block bs a \<le> max_block"
        using last_block_bounds(1) [OF that a(2)] a(1) mult_less_cancel2 [of "last_block bs a" bs "Suc max_block"] by linarith
      show "kc = kt \<Longrightarrow> c = last_block bs a"
        using block_key_inject [OF kc _ True last] t [OF that] by simp
      show "c = last_block bs a \<Longrightarrow> kc = kt"
        using kc t [OF that] by simp
    qed
    have before: "Suc c * bs < a" if "0 < a" "c \<noteq> last_block bs a" "\<not> a \<le> c * bs"
    proof -
      have "c < last_block bs a"
      proof (rule ccontr)
        assume "\<not> c < last_block bs a"
        then have "Suc (last_block bs a) * bs \<le> c * bs"
          using that(2) by (intro mult_right_mono) auto
        then show False
          using that(3) last_block_bounds(2) [OF that(1) a(2)] by linarith
      qed
      then have "Suc c * bs \<le> last_block bs a * bs"
        by (intro mult_right_mono) auto
      then show ?thesis
        using last_block_bounds(1) [OF that(1) a(2)] by linarith
    qed
    have new: "blocks_of (\<lambda>k. if k \<in> doomed then None else objs1 k) p c = (if kc \<in> doomed then None else objs1 kc)"
      using True kc by (simp add: blocks_of_def)
    consider (none) "a \<le> c * bs" | (last) "\<not> a \<le> c * bs" "0 < a" "c = last_block bs a"
      | (before) "\<not> a \<le> c * bs" "0 < a" "c \<noteq> last_block bs a"
      by fastforce
    then show ?thesis
    proof cases
      case none
      then have "kc \<noteq> kt" if "0 < a"
        using kt [OF that] last_block_bounds(1) [OF that a(2)] by auto
      then have "objs1 kc = objs kc"
        by (simp add: objs1)
      then show ?thesis
        using none gone new by (auto simp: truncated_blocks_def)
    next
      case last
      then show ?thesis
        using gone new old kt last_block_bounds(2) [OF last(2) a(2)] by (simp add: objs1 truncated_blocks_def)
    next
      case before
      then show ?thesis
        using gone new old kt \<open>0 < a \<Longrightarrow> c \<noteq> last_block bs a \<Longrightarrow> \<not> a \<le> c * bs \<Longrightarrow> Suc c * bs < a\<close> by (simp add: objs1 truncated_blocks_def)
    qed
  qed
qed


lemma bindA_raise: "bindA (raise (Inr x)) f s = f x s"
  by (simp add: bindA_def raise_def)

context object_store
begin

lemma rewrite_block:
  assumes "bindA (lock_key key) (\<lambda>_. bindA (getBlock kv key (replicate m zero_byte) 0) (\<lambda>(n, data).
      bindA (on_objects (kv_putObject kv key data)) (\<lambda>_. unlock_key key))) s = (Inr u, s')" "0 < m"
  shows "objs (kva_store s') = (objs (kva_store s))(key \<mapsto> resize m (case objs (kva_store s) key of None \<Rightarrow> [] | Some d \<Rightarrow> d))"
proof -
  let ?D = "case objs (kva_store s) key of None \<Rightarrow> [] | Some d \<Rightarrow> d"
  obtain n data s1 s2 u' where got: "getBlock kv key (replicate m zero_byte) (int 0) (s\<lparr>m_locks := List.insert key (m_locks s)\<rparr>) = (Inr (n, data), s1)"
    and put: "on_objects (kv_putObject kv key data) s1 = (Inr u', s2)" and s': "kva_store s' = kva_store s2"
    using assms(1) by (auto simp: lock_key_def unlock_key_def act_defs split: prod.splits sum.splits)
  define D where "D = ?D"
  have "n = min m (length D)" "data = take n D @ replicate (m - n) zero_byte" and same: "objs (kva_store s1) = objs (kva_store s)"
    using getBlock_zeros [OF got assms(2)] by (simp_all add: D_def)
  then have data: "data = resize m D"
    by (cases "m \<le> length D") (simp_all add: resize_def)
  have "kv_putObject kv key data (kva_store s1) = (Inr u', kva_store s2)"
    using put by (auto simp: on_objects_def split: prod.splits)
  from put_object [OF this] show ?thesis
    unfolding s' same data D_def .
qed

lemma kv_ash_truncate_content:
  assumes run: "kv_ash_truncate kv bs p sz s = (Inr u, s')" and ok: "kv_ok bs objs s" and sz: "0 \<le> sz" "sz \<le> int (Suc max_block * bs)"
  shows "kv_content bs objs s' p = resize (nat sz) (kv_content bs objs s p)" "kv_ok bs objs s'"
proof -
  define a where "a = nat sz"
  let ?b = "a div bs" and ?o = "a mod bs" and ?t = "last_block bs a"
  have bs: "bs < 2 ^ 63"
    by (rule le_less_trans [OF _ block_size(2)]) simp
  have a: "a \<le> Suc max_block * bs"
    using sz unfolding a_def by linarith
  have small: "sz < 2 ^ 63"
    using le_less_trans [OF a block_size(2)] sz(1) unfolding a_def by simp
  have id: "getBlockId bs sz = of_nat ?b" "getBlockOffset bs sz = int ?o"
    using getBlockId_nat [OF sz(1) small block_size(1) bs] by (simp_all add: a_def)
  have "?b \<le> Suc max_block"
    using a block_size(1) by (metis div_le_mono nonzero_mult_div_cancel_right not_gr_zero)
  then have b_word: "unat (of_nat ?b :: 64 word) = ?b"
    by (intro unat_of_nat64) (simp add: max_block_def)
  then have b_pos: "(of_nat ?b :: 64 word) > 0 \<longleftrightarrow> 0 < ?b"
    by (simp add: word_less_nat_alt)
  have a_pos: "0 < a \<longleftrightarrow> 0 < ?b \<or> 0 < ?o"
    using div_mult_mod_eq [of a bs] by (cases "a = 0"; cases "?b = 0") auto
  obtain ks w doomed key where list: "kv_listObjects kv p (kva_store s) = (Inr ks, w)"
    and doomed: "keysToDelete (of_nat ?b) (int ?o) ks = Inr doomed" and key: "getKey p (of_nat ?b) = Inr key"
    using run by (auto simp: kv_ash_truncate_def Let_def id on_objects_def raise_def bindA_def split: prod.splits sum.splits)
  have listed: "set ks = block_keys (objs (kva_store s)) p" "objs w = objs (kva_store s)"
    using list_objects [OF _ list] ok by (simp_all add: kv_ok_def)
  obtain kt where kt: "getKey p (of_nat ?t) = Inr kt"
    using key getKey_prefix by blast
  have zero: "\<exists>k. getKey p 0 = Inr k"
    using key getKey_prefix by blast
  let ?m = "a - ?t * bs"
  let ?s = "s\<lparr>kva_store := w\<rparr>"
  let ?rw = "bindA (lock_key kt) (\<lambda>_. bindA (getBlock kv kt (replicate ?m zero_byte) 0) (\<lambda>(n, data).
      bindA (on_objects (kv_putObject kv kt data)) (\<lambda>_. unlock_key kt)))"
  let ?pick = "if nat (int ?o) = 0 \<and> (of_nat ?b :: 64 word) > 0
      then bindA (raise (getKey p (of_nat ?b - 1))) (\<lambda>key'. returnA (key', bs)) else returnA (key, nat (int ?o))"
  have pick: "?pick ?s = (Inr (kt, ?m), ?s)" if "0 < a"
  proof (cases "?o = 0")
    case True
    then have b: "0 < ?b"
      using a_pos that by simp
    then have "(of_nat ?b - 1 :: 64 word) = of_nat ?t"
      using True by (simp add: last_block_def of_nat_diff)
    moreover have "?m = bs"
      using True b div_mult_mod_eq [of a bs] by (cases ?b) (auto simp: last_block_def)
    ultimately show ?thesis
      using True b b_pos kt by (simp add: raise_def act_defs)
  next
    case False
    then have "?t = ?b"
      by (simp add: last_block_def)
    moreover from this have "?m = ?o"
      by (simp add: minus_div_mult_eq_mod)
    ultimately show ?thesis
      using False kt key by (simp add: act_defs)
  qed
  define fin where "fin = (if doomed \<noteq> [] then on_objects (kv_deleteObjects kv doomed) else returnA ())"
  have on_list: "on_objects (kv_listObjects kv p) s = (Inr ks, ?s)"
    using list by (simp add: on_objects_def)
  have run1: "bindA ?pick (\<lambda>(key, blockSize). bindA (if blockSize > 0 \<or> (of_nat ?b :: 64 word) > 0 then
                  bindA (lock_key key) (\<lambda>_.
                  bindA (getBlock kv key (replicate blockSize zero_byte) 0) (\<lambda>(n, data).
                  bindA (on_objects (kv_putObject kv key data)) (\<lambda>_.
                  unlock_key key)))
                else returnA ()) (\<lambda>_. fin)) ?s = (Inr u, s')"
    using run unfolding kv_ash_truncate_def Let_def id bindA_steps(1) [where m = "on_objects (kv_listObjects kv p)" and s = s, OF on_list] doomed key bindA_raise fin_def .
  have "\<exists>s1. (if 0 < a then \<exists>u. ?rw ?s = (Inr u, s1) else s1 = ?s) \<and> fin s1 = (Inr u, s')"
  proof (cases "0 < a")
    case True
    then have m: "0 < ?m"
      using last_block_bounds(1) [OF True block_size(1)] by simp
    have "bindA ?rw (\<lambda>_. fin) ?s = (Inr u, s')"
      using run1 m unfolding bindA_steps(1) [where m = ?pick and s = ?s, OF pick [OF True]] prod.case by simp
    then show ?thesis
      using True by (auto simp: bindA_def [of ?rw] split: prod.splits sum.splits)
  next
    case False
    then have "?o = 0" "?b = 0"
      using a_pos by simp_all
    then show ?thesis
      using run1 False by (simp add: bindA_steps returnA_def)
  qed
  then obtain s1 where s1: "if 0 < a then \<exists>u. ?rw ?s = (Inr u, s1) else s1 = ?s" and last: "fin s1 = (Inr u, s')"
    by blast
  define Obj where "Obj = objs (kva_store s)"
  have O1: "objs (kva_store s1) = (if 0 < a then Obj(kt \<mapsto> resize ?m (case Obj kt of None \<Rightarrow> [] | Some d \<Rightarrow> d)) else Obj)"
  proof (cases "0 < a")
    case True
    then obtain u' where "?rw ?s = (Inr u', s1)" "0 < ?m"
      using s1 last_block_bounds(1) [OF True block_size(1)] by auto
    then show ?thesis
      using rewrite_block [of kt ?m ?s u' s1] True listed(2) by (simp add: Obj_def)
  qed (use s1 listed(2) in \<open>simp add: Obj_def\<close>)
  have Obj': "objs (kva_store s') = (\<lambda>k. if k \<in> set doomed then None else objs (kva_store s1) k)"
    using last delete_objects [of doomed "kva_store s1"]
    by (auto simp: fin_def on_objects_def returnA_def split: if_splits prod.splits)
  have keyed: "\<forall>k \<in> set ks. \<exists>p c. getKey p c = Inr k"
    using listed(1) by (auto simp: block_keys_def)
  have gone: "k \<in> set doomed \<longleftrightarrow> k \<in> block_keys Obj p \<and> (\<exists>q c. getKey q c = Inr k \<and> (c > of_nat ?b \<or> c = of_nat ?b \<and> ?o = 0))" for k
    using keysToDelete_set [OF doomed keyed, of k] listed(1) by (simp add: Obj_def)
  have "blocks_of (objs (kva_store s')) p = truncated_blocks bs (blocks_of Obj p) a"
    unfolding Obj' by (rule truncated_objects [OF a block_size(1) zero kt O1 gone])
  moreover have objs_ok: "objects_ok bs Obj"
    using ok by (simp add: kv_ok_def Obj_def)
  ultimately show "kv_content bs objs s' p = resize (nat sz) (kv_content bs objs s p)"
    using flat_truncated [OF objects_blocks_ok block_size(1) a] by (simp add: kv_content_def Obj_def a_def)
  have "objects_ok bs (objs (kva_store s1))"
  proof (cases "0 < a")
    case True
    have bounds: "?t * bs < a" "a \<le> Suc ?t * bs"
      by (rule last_block_bounds [OF True block_size(1)])+
    then have "?t \<le> max_block"
      using a mult_less_cancel2 [of ?t bs "Suc max_block"] by linarith
    moreover have "?m \<le> bs"
      using bounds(2) by simp
    ultimately show ?thesis
      using objects_ok_update [OF objs_ok kt] True by (simp add: O1)
  qed (use objs_ok in \<open>simp add: O1\<close>)
  then show "kv_ok bs objs s'"
    by (auto simp: kv_ok_def Obj' objects_ok_def split: if_splits)
qed

end


section \<open>The adapter as a storage for the buffers\<close>

text \<open>
  The adapter as a storage helper. What it does not override has the default of \<open>IStorageHelper\<close>;
  the read cache reads into buffers of zeros.
\<close>

definition kv_helper :: "'w kv_ops \<Rightarrow> nat \<Rightarrow> 'w KeyValueAdapter helper_ops" where
  "kv_helper kv blockSz =
     \<lparr>h_open = (\<lambda>p flags s. (Inr 0, s)),
      h_read = (\<lambda>p n off. kv_ash_read kv blockSz p (replicate n zero_byte) off),
      h_write = kv_ash_write kv blockSz,
      h_multiwrite = ash_multiwrite True (kv_ash_write kv blockSz),
      h_truncate = kv_ash_truncate kv blockSz,
      h_flush = (\<lambda>p s. (Inr (), s)),
      h_fsync = (\<lambda>p s. (Inr (), s)),
      h_release = (\<lambda>p s. (Inr (), s))\<rparr>"

lemma kv_content_same: "objs (kva_store s') = objs (kva_store s) \<Longrightarrow> kv_content bs objs s' = kv_content bs objs s"
  by (rule ext) (simp add: kv_content_def)

context object_store
begin

lemma kv_ash_write_law:
  assumes "kv_ok bs objs s" "fits (Suc max_block * bs) (off, buf)" "kv_ash_write kv bs p buf off s = (Inr k, s')"
  shows "k = length buf \<and> kv_content bs objs s' p = write_at (nat off) buf (kv_content bs objs s p) \<and> kv_ok bs objs s'"
  by (rule kv_ash_write_content [OF assms(3,1,2)])

end

sublocale object_store \<subseteq> kv_file: file_storage "kv_helper kv bs" "kv_content bs objs" "kv_ok bs objs" "Suc max_block * bs"
proof
  fix w :: "'w KeyValueAdapter" and p :: file_id and n :: nat and off :: off_t
  assume ok: "kv_ok bs objs w"
  have "objs (kva_store (snd (h_read (kv_helper kv bs) p n off w))) = objs (kva_store w)"
    using kv_ash_read_keeps by (simp add: kv_helper_def)
  then show "kv_content bs objs (snd (h_read (kv_helper kv bs) p n off w)) = kv_content bs objs w \<and>
      kv_ok bs objs (snd (h_read (kv_helper kv bs) p n off w))"
    using ok by (intro conjI kv_content_same) (simp_all add: kv_ok_def)
  fix d
  assume off: "0 \<le> off" and d: "fst (h_read (kv_helper kv bs) p n off w) = Inr d"
  have "d = take n (drop (nat off) (kv_content bs objs w p))"
    by (rule kv_ash_read_content [OF _ ok off, where s' = "snd (h_read (kv_helper kv bs) p n off w)"])
      (use d in \<open>simp add: kv_helper_def prod_eq_iff\<close>)
  then show "slice_of (kv_content bs objs w p) n (nat off) d"
    by (simp add: slice_of_read)
next
  fix w :: "'w KeyValueAdapter" and p :: file_id and batch :: "(off_t \<times> string) list" and k
  assume ok: "kv_ok bs objs w" and batch: "batch \<noteq> []" "\<forall>x \<in> set batch. fits (Suc max_block * bs) x"
    and k: "fst (h_multiwrite (kv_helper kv bs) p batch w) = Inr k"
  have "ash_multiwrite True (kv_ash_write kv bs) p batch w = (Inr k, snd (h_multiwrite (kv_helper kv bs) p batch w))"
    using k by (simp add: kv_helper_def prod_eq_iff)
  from multiwrite_content [where content = "kv_content bs objs" and ok = "kv_ok bs objs", OF kv_ash_write_law ok batch this]
  show "kv_content bs objs (snd (h_multiwrite (kv_helper kv bs) p batch w)) p = write_all batch (kv_content bs objs w p) \<and>
      kv_ok bs objs (snd (h_multiwrite (kv_helper kv bs) p batch w))" .
qed (simp_all add: kv_helper_def)

end
