(* ===== verification/OC_S3.thy ===== *)
theory OC_S3
  imports OC_KeyValueSpec
begin

text \<open>
  The object store on Amazon S3 (\<open>helpers/src/s3Helper.cc\<close>). The client library is a parameter; its
  contract is the behaviour that Amazon documents.
\<close>

section \<open>Model\<close>

datatype S3Errors =
    INVALID_PARAMETER_VALUE | MISSING_ACTION | SERVICE_UNAVAILABLE | NETWORK_CONNECTION | REQUEST_EXPIRED
  | ACCESS_DENIED | UNKNOWN | NO_SUCH_BUCKET | NO_SUCH_KEY | RESOURCE_NOT_FOUND | OTHER_ERROR

text \<open>A page of a listing: keys with sizes, whether there is more, and where to go on.\<close>

record s3_page =
  page_contents :: "(string \<times> nat) list"
  page_truncated :: bool
  page_nextMarker :: string

record 'w s3_client =
  s3_GetObject :: "string \<Rightarrow> string \<Rightarrow> 'w \<Rightarrow> (S3Errors + string) \<times> 'w"
  s3_PutObject :: "string \<Rightarrow> string \<Rightarrow> 'w \<Rightarrow> (S3Errors + unit) \<times> 'w"
  s3_DeleteObjects :: "string list \<Rightarrow> 'w \<Rightarrow> (S3Errors + unit) \<times> 'w"
  s3_ListObjects :: "string \<Rightarrow> nat option \<Rightarrow> string option \<Rightarrow> 'w \<Rightarrow> (S3Errors + s3_page) \<times> 'w"

definition s_errors :: "S3Errors \<Rightarrow> errno option" where
  "s_errors e =
     (case e of
        INVALID_PARAMETER_VALUE \<Rightarrow> Some 22
      | MISSING_ACTION \<Rightarrow> Some 95
      | SERVICE_UNAVAILABLE \<Rightarrow> Some 113
      | NETWORK_CONNECTION \<Rightarrow> Some 101
      | REQUEST_EXPIRED \<Rightarrow> Some ETIMEDOUT
      | ACCESS_DENIED \<Rightarrow> Some 13
      | UNKNOWN \<Rightarrow> Some ENOENT
      | NO_SUCH_BUCKET \<Rightarrow> Some ENOENT
      | NO_SUCH_KEY \<Rightarrow> Some ENOENT
      | RESOURCE_NOT_FOUND \<Rightarrow> Some ENOENT
      | OTHER_ERROR \<Rightarrow> None)"

definition getReturnCode :: "S3Errors \<Rightarrow> errno" where
  "getReturnCode e = (case s_errors e of Some code \<Rightarrow> code | None \<Rightarrow> 5)"

definition throwOnError :: "('w \<Rightarrow> (S3Errors + 'a) \<times> 'w) \<Rightarrow> ('w, 'a) act" where
  "throwOnError m w = (case m w of (Inl e, w') \<Rightarrow> (Inl (SystemError (getReturnCode e)), w') | (Inr x, w') \<Rightarrow> (Inr x, w'))"

text \<open>The body of the answer is written into the buffer; after an error the buffer is cleared.\<close>

definition s3_getObject :: "'w s3_client \<Rightarrow> string \<Rightarrow> string \<Rightarrow> off_t \<Rightarrow> 'w \<Rightarrow> (nat res \<times> string) \<times> 'w" where
  "s3_getObject c key buf offset w =
     (case s3_GetObject c key (rangeToString offset (offset + int (length buf) - 1)) w of
        (Inl e, w') \<Rightarrow> ((Inl (SystemError (getReturnCode e)), replicate (length buf) zero_byte), w')
      | (Inr body, w') \<Rightarrow> ((Inr (min (length buf) (length body)), take (length buf) body @ drop (length body) buf), w'))"

definition s3_getObjectsSize :: "'w s3_client \<Rightarrow> string \<Rightarrow> nat \<Rightarrow> ('w, off_t) act" where
  "s3_getObjectsSize c prefix objectSize =
     bindA (raise (adjustPrefix prefix)) (\<lambda>pre.
     bindA (throwOnError (s3_ListObjects c pre (Some 1) None)) (\<lambda>page.
     if page_contents page = [] then returnA 0
     else
       let (key, sz) = last (page_contents page)
       in case getObjectId key of
            None \<Rightarrow> throwA OutOfRange
          | Some objectId \<Rightarrow> returnA (sint (objectId * of_nat objectSize + of_nat sz))))"

definition s3_putObject :: "'w s3_client \<Rightarrow> string \<Rightarrow> string \<Rightarrow> ('w, nat) act" where
  "s3_putObject c key buf = bindA (throwOnError (s3_PutObject c key buf)) (\<lambda>_. returnA (length buf))"

definition MAX_DELETE_OBJECTS :: nat where "MAX_DELETE_OBJECTS = 1000"

function s3_deleteObjects :: "'w s3_client \<Rightarrow> string list \<Rightarrow> ('w, unit) act" where
  "s3_deleteObjects c keys w =
     (if keys = [] then (Inr (), w)
      else
        let n = min (length keys) MAX_DELETE_OBJECTS
        in case throwOnError (s3_DeleteObjects c (rev (drop (length keys - n) keys))) w of
             (Inl x, w') \<Rightarrow> (Inl x, w')
           | (Inr _, w') \<Rightarrow> s3_deleteObjects c (take (length keys - n) keys) w')"
  by pat_completeness auto
termination
  by (relation "measure (\<lambda>(c, keys, w). length keys)") (auto simp: MAX_DELETE_OBJECTS_def min_def)

declare s3_deleteObjects.simps [simp del]

text \<open>The loop over the pages of a listing; it ends when the service says that a page is the last one.\<close>

partial_function (option) s3_pages :: "'w s3_client \<Rightarrow> string \<Rightarrow> string option \<Rightarrow> string list \<Rightarrow> 'w \<Rightarrow> (string list res \<times> 'w) option" where
  "s3_pages c pre marker keys w =
     (case throwOnError (s3_ListObjects c pre None marker) w of
        (Inl x, w') \<Rightarrow> Some (Inl x, w')
      | (Inr page, w') \<Rightarrow>
          if \<not> page_truncated page then Some (Inr (keys @ map fst (page_contents page)), w')
          else s3_pages c pre (Some (page_nextMarker page)) (keys @ map fst (page_contents page)) w')"

definition s3_listObjects :: "'w s3_client \<Rightarrow> string \<Rightarrow> 'w \<Rightarrow> (string list res \<times> 'w) option" where
  "s3_listObjects c prefix w =
     (case adjustPrefix prefix of Inl x \<Rightarrow> Some (Inl x, w) | Inr pre \<Rightarrow> s3_pages c pre None [] w)"

text \<open>The store that the adapter uses; a listing that never ends counts as a deadlock.\<close>

definition s3_ops :: "'w s3_client \<Rightarrow> 'w kv_ops" where
  "s3_ops c =
     \<lparr>kv_getObject = s3_getObject c,
      kv_getObjectsSize = s3_getObjectsSize c,
      kv_putObject = s3_putObject c,
      kv_deleteObjects = s3_deleteObjects c,
      kv_listObjects = (\<lambda>p w. case s3_listObjects c p w of None \<Rightarrow> (Inl Deadlock, w) | Some r \<Rightarrow> r)\<rparr>"

section \<open>The contract of the service\<close>

text \<open>
  The keys that a listing with a prefix and the delimiter \<open>/\<close> shows, and those of them behind a marker.
\<close>

definition listed :: "(string \<Rightarrow> string option) \<Rightarrow> string \<Rightarrow> string option \<Rightarrow> string set" where
  "listed objs pre marker =
     {k. objs k \<noteq> None \<and> (\<exists>r. k = pre @ r \<and> CHR ''/'' \<notin> set r) \<and> (case marker of None \<Rightarrow> True | Some m \<Rightarrow> m < k)}"

locale s3_bucket =
  fixes c :: "'w s3_client" and objs :: "'w \<Rightarrow> string \<Rightarrow> string option"
  assumes get_same: "objs (snd (s3_GetObject c k r w)) = objs w"
    and get_body:
      "s3_GetObject c k (rangeToString lo hi) w = (Inr body, w') \<Longrightarrow> 0 \<le> lo \<Longrightarrow> lo \<le> hi \<Longrightarrow>
       \<exists>d. objs w k = Some d \<and> body = take (nat (hi - lo + 1)) (drop (nat lo) d)"
    and get_error:
      "s3_GetObject c k (rangeToString lo hi) w = (Inl e, w') \<Longrightarrow> 0 \<le> lo \<Longrightarrow> lo \<le> hi \<Longrightarrow> getReturnCode e = ENOENT \<Longrightarrow>
       (case objs w k of None \<Rightarrow> True | Some d \<Rightarrow> length d \<le> nat lo)"
    and put: "s3_PutObject c k d w = (Inr u, w') \<Longrightarrow> objs w' = (objs w)(k \<mapsto> d)"
    and delete: "s3_DeleteObjects c ks w = (Inr u, w') \<Longrightarrow> objs w' = (\<lambda>k. if k \<in> set ks then None else objs w k)"
    and list_same: "objs (snd (s3_ListObjects c pre mx marker w)) = objs w"
    and list_page:
      "mx \<noteq> Some 0 \<Longrightarrow> s3_ListObjects c pre mx marker w = (Inr page, w') \<Longrightarrow>
       sorted_wrt (<) (map fst (page_contents page)) \<and>
       (\<forall>(k, n) \<in> set (page_contents page). k \<in> listed (objs w) pre marker \<and> objs w k \<noteq> None \<and> n = length (the (objs w k))) \<and>
       (\<forall>k \<in> listed (objs w) pre marker. k \<in> fst ` set (page_contents page) \<or>
          (page_contents page \<noteq> [] \<and> page_truncated page \<and> fst (last (page_contents page)) < k)) \<and>
       (page_truncated page \<longrightarrow> page_contents page \<noteq> [] \<and> page_nextMarker page = fst (last (page_contents page)))"
    and list_limit: "s3_ListObjects c pre (Some m) marker w = (Inr page, w') \<Longrightarrow> length (page_contents page) \<le> m"


section \<open>The S3 helper is an object store\<close>

lemma last_slash_unique:
  assumes "x @ CHR ''/'' # r = y @ CHR ''/'' # d" "CHR ''/'' \<notin> set r" "CHR ''/'' \<notin> set d"
  shows "x = y \<and> r = d"
proof -
  have "takeWhile (\<lambda>c. c \<noteq> CHR ''/'') (rev (z @ CHR ''/'' # e)) = rev e" if "CHR ''/'' \<notin> set e" for z e
  proof -
    have "\<forall>c \<in> set (rev e). c \<noteq> CHR ''/''"
      using that by auto
    then show ?thesis
      by (simp add: takeWhile_append2 del: set_rev)
  qed
  from this [OF assms(2), of x] this [OF assms(3), of y] have "r = d"
    using assms(1) by simp
  then show ?thesis
    using assms(1) by simp
qed

lemma listed_block_keys:
  assumes ok: "objects_ok bs objs" and pre: "adjustPrefix p = Inr pre"
  shows "listed objs pre None = block_keys objs p"
proof -
  let ?d = "\<lambda>b. pad MAX_OBJECT_ID_DIGITS (decimal (unat (MAX_OBJECT_ID - b)))"
  have digits: "CHR ''/'' \<notin> set (?d b)" for b
    using pad_digits [of "CHR ''/''"] by (auto simp: is_digit_def)
  have key: "getKey p b = Inr (pre @ ?d b)" for b
    by (simp add: getKey_def pre)
  have "\<exists>b. getKey p b = Inr k" if k: "objs k = Some d" "k = pre @ r" "CHR ''/'' \<notin> set r" for k d r
  proof -
    obtain q b where q: "getKey q b = Inr k"
      using ok k(1) unfolding objects_ok_def by meson
    then obtain pre' where pre': "adjustPrefix q = Inr pre'" "k = pre' @ ?d b"
      by (auto simp: getKey_def split: sum.splits)
    obtain x y where "pre = x @ ''/''" "pre' = y @ ''/''"
      using adjustPrefix_slash [OF pre] adjustPrefix_slash [OF pre'(1)] by blast
    then have "k = pre @ ?d b"
      using last_slash_unique [of x r y "?d b"] k(2,3) pre'(2) digits by auto
    then show ?thesis
      using key by auto
  qed
  moreover have "\<exists>r. k = pre @ r \<and> CHR ''/'' \<notin> set r" if "getKey p b = Inr k" for k b
    using that digits by (auto simp: key)
  ultimately show ?thesis
    by (auto simp: listed_def block_keys_def)
qed

lemma sint_of_nat64: "n < 2 ^ 63 \<Longrightarrow> sint (of_nat n :: 64 word) = int n"
  by (simp add: signed_of_nat signed_take_bit_int_eq_self)

text \<open>The size of a file from its last block.\<close>

lemma blocks_size_last:
  assumes "blocks_ok bs B" "B b = Some d" "\<And>c e. B c = Some e \<Longrightarrow> c \<le> b"
  shows "blocks_size bs B = b * bs + length d"
proof (rule antisym)
  show "blocks_size bs B \<le> b * bs + length d"
  proof (rule blocks_size_le)
    fix c
    show "block_end bs B c \<le> b * bs + length d"
    proof (cases "B c")
      case (Some e)
      show ?thesis
      proof (cases "c = b")
        case True
        then show ?thesis
          using Some assms(2) by (simp add: block_end_def)
      next
        case False
        then have "Suc c * bs \<le> b * bs"
          using assms(3) [OF Some] by (intro mult_right_mono) auto
        moreover have "length e \<le> bs"
          using assms(1) Some by (simp add: blocks_ok_def)
        ultimately show ?thesis
          using Some by (simp add: block_end_def)
      qed
    qed (simp add: block_end_def)
  qed
  show "b * bs + length d \<le> blocks_size bs B"
    using block_end_le [of b bs B] assms(1,2) by (auto simp: block_end_def blocks_ok_def)
qed

context s3_bucket
begin

lemma s3_getObject_body:
  assumes "s3_getObject c k buf off w = ((Inr n, buf'), w')" "0 \<le> off" "buf \<noteq> []"
  shows "\<exists>d. objs w k = Some d \<and> n = min (length buf) (length d - nat off) \<and> buf' = take n (drop (nat off) d) @ drop n buf"
proof -
  let ?hi = "off + int (length buf) - 1"
  obtain body where body: "s3_GetObject c k (rangeToString off ?hi) w = (Inr body, w')"
    "n = min (length buf) (length body)" "buf' = take (length buf) body @ drop (length body) buf"
    using assms(1) by (auto simp: s3_getObject_def split: prod.splits sum.splits)
  have "off \<le> ?hi"
    using assms(3) by (cases buf) auto
  from get_body [OF body(1) assms(2) this] obtain d where d: "objs w k = Some d"
    "body = take (nat (?hi - off + 1)) (drop (nat off) d)"
    by blast
  have "body = take (length buf) (drop (nat off) d)"
    by (simp add: d(2))
  then show ?thesis
    using d(1) body(2,3) by (auto simp: min_def)
qed

lemma s3_getObject_missing:
  assumes "s3_getObject c k buf off w = ((Inl (SystemError ENOENT), buf'), w')" "0 \<le> off" "buf \<noteq> []"
  shows "(case objs w k of None \<Rightarrow> True | Some d \<Rightarrow> length d \<le> nat off) \<and> buf' = replicate (length buf) zero_byte"
proof -
  let ?hi = "off + int (length buf) - 1"
  obtain e where e: "s3_GetObject c k (rangeToString off ?hi) w = (Inl e, w')" "getReturnCode e = ENOENT"
    "buf' = replicate (length buf) zero_byte"
    using assms(1) by (auto simp: s3_getObject_def split: prod.splits sum.splits)
  have "off \<le> ?hi"
    using assms(3) by (cases buf) auto
  then show ?thesis
    using get_error [OF e(1) assms(2) _ e(2)] e(3) by blast
qed

lemma s3_getObject_keeps: "objs (snd (s3_getObject c k buf off w)) = objs w"
  using get_same [of k "rangeToString off (off + int (length buf) - 1)" w]
  by (auto simp: s3_getObject_def split: prod.splits sum.splits)

lemma s3_getObjectsSize_keeps: "objs (snd (s3_getObjectsSize c p bs w)) = objs w"
proof (cases "adjustPrefix p")
  case (Inr pre)
  obtain r w' where "s3_ListObjects c pre (Some 1) None w = (r, w')" "objs w' = objs w"
    using list_same [of pre "Some 1" None w] by (metis prod.collapse)
  then show ?thesis
    using Inr by (cases r) (auto simp: s3_getObjectsSize_def throwOnError_def raise_def act_defs Let_def split: prod.split option.split)
qed (simp add: s3_getObjectsSize_def raise_def act_defs)

lemma s3_deleteObjects_effect:
  assumes "s3_deleteObjects c ks w = (Inr u, w')"
  shows "objs w' = (\<lambda>k. if k \<in> set ks then None else objs w k)"
  using assms
proof (induction "length ks" arbitrary: ks w rule: less_induct)
  case less
  show ?case
  proof (cases "ks = []")
    case True
    then show ?thesis
      using less.prems by (simp add: s3_deleteObjects.simps [of c])
  next
    case False
    let ?n = "min (length ks) MAX_DELETE_OBJECTS"
    let ?tail = "drop (length ks - ?n) ks" and ?front = "take (length ks - ?n) ks"
    obtain u' w1 where w1: "s3_DeleteObjects c (rev ?tail) w = (Inr u', w1)" "s3_deleteObjects c ?front w1 = (Inr u, w')"
      using less.prems False by (subst (asm) s3_deleteObjects.simps) (auto simp: throwOnError_def Let_def split: prod.splits sum.splits)
    have "length ?front < length ks"
      using False by (simp add: MAX_DELETE_OBJECTS_def)
    note rest = less.hyps [OF this w1(2)]
    have "set ks = set ?front \<union> set ?tail"
      by (metis append_take_drop_id set_append)
    then show ?thesis
      using rest delete [OF w1(1)] by (auto simp: fun_eq_iff)
  qed
qed

lemma listed_split:
  assumes "s3_ListObjects c pre None marker w = (Inr page, w')" "page_truncated page"
  shows "listed (objs w) pre marker = fst ` set (page_contents page) \<union> listed (objs w) pre (Some (page_nextMarker page))"
proof -
  note page = list_page [OF _ assms(1), simplified]
  define m where "m = fst (last (page_contents page))"
  have m: "page_contents page \<noteq> []" "page_nextMarker page = m"
    using page assms(2) by (simp_all add: m_def)
  have "m \<in> listed (objs w) pre marker"
    using page m(1) last_in_set [of "page_contents page"] by (fastforce simp: m_def)
  then have "k \<in> listed (objs w) pre marker" if "k \<in> listed (objs w) pre (Some m)" for k
    using that by (auto simp: listed_def split: option.splits)
  moreover have "fst ` set (page_contents page) \<subseteq> listed (objs w) pre marker"
    using page by auto
  moreover have "k \<in> fst ` set (page_contents page) \<or> k \<in> listed (objs w) pre (Some m)" if "k \<in> listed (objs w) pre marker" for k
    using page that by (fastforce simp: m_def listed_def)
  ultimately show ?thesis
    unfolding m(2) by blast
qed

lemma s3_pages_all:
  assumes "s3_pages c pre marker keys w = Some (Inr ks, w')"
  shows "set ks = set keys \<union> listed (objs w) pre marker \<and> objs w' = objs w"
proof -
  have "c' = c \<longrightarrow> (\<forall>ks w'. r = (Inr ks, w') \<longrightarrow> set ks = set keys \<union> listed (objs w) pre marker \<and> objs w' = objs w)"
    if "s3_pages c' pre marker keys w = Some r" for c' r
    using _ that
  proof (rule s3_pages.raw_induct, goal_cases)
    case (1 f c' pre marker keys w r)
    show ?case
    proof (intro impI allI)
      fix ks w'
      assume c': "c' = c" and r: "r = (Inr ks, w')"
      obtain page w1 where page: "s3_ListObjects c pre None marker w = (Inr page, w1)"
        using 1(2) c' r by (auto simp: throwOnError_def split: prod.splits sum.splits)
      have same: "objs w1 = objs w"
        using list_same [of pre None marker w] page by simp
      show "set ks = set keys \<union> listed (objs w) pre marker \<and> objs w' = objs w"
      proof (cases "page_truncated page")
        case True
        then have "f c pre (Some (page_nextMarker page)) (keys @ map fst (page_contents page)) w1 = Some (Inr ks, w')"
          using 1(2) c' r page by (simp add: throwOnError_def)
        then show ?thesis
          using 1(1) same listed_split [OF page True] by fastforce
      next
        case False
        have "listed (objs w) pre marker = fst ` set (page_contents page)"
          using list_page [OF _ page] False by auto
        moreover have "ks = keys @ map fst (page_contents page)" "w' = w1"
          using 1(2) c' r page False by (auto simp: throwOnError_def)
        ultimately show ?thesis
          using same by simp
      qed
    qed
  qed
  then show ?thesis
    using assms by blast
qed

end


locale s3_blocks = s3_bucket +
  fixes bs :: nat
  assumes positive_blocks: "0 < bs" and small_blocks: "Suc max_block * bs < 2 ^ 63"
begin

lemma s3_getObjectsSize_value:
  assumes ok: "objects_ok bs (objs w)" and run: "s3_getObjectsSize c p bs w = (Inr sz, w')"
  shows "sz = int (blocks_size bs (blocks_of (objs w) p))"
proof -
  let ?B = "blocks_of (objs w) p"
  obtain pre page w1 where pre: "adjustPrefix p = Inr pre" and page: "s3_ListObjects c pre (Some 1) None w = (Inr page, w1)"
    using run by (auto simp: s3_getObjectsSize_def throwOnError_def raise_def act_defs split: prod.splits sum.splits)
  have laws: "\<forall>(k, n) \<in> set (page_contents page). k \<in> block_keys (objs w) p \<and> n = length (the (objs w k))"
    "\<forall>k \<in> block_keys (objs w) p. k \<in> fst ` set (page_contents page) \<or>
        page_contents page \<noteq> [] \<and> fst (last (page_contents page)) < k"
    using list_page [OF _ page] listed_block_keys [OF ok pre] by auto
  have B_keys: "\<exists>k. getKey p (of_nat b) = Inr k \<and> objs w k = Some d \<and> k \<in> block_keys (objs w) p \<and> b \<le> max_block" if "?B b = Some d" for b d
    using that by (auto simp: blocks_of_def block_keys_def split: if_splits sum.splits)
  show ?thesis
  proof (cases "page_contents page")
    case Nil
    then have "?B b = None" for b
      using laws(2) B_keys by fastforce
    then have "blocks_size bs ?B = 0"
      using blocks_size_le [of bs ?B 0] by (simp add: block_end_def)
    moreover have "sz = 0"
      using run pre page Nil by (simp add: s3_getObjectsSize_def throwOnError_def raise_def act_defs)
    ultimately show ?thesis
      by simp
  next
    case (Cons kn rest)
    obtain k n where kn: "kn = (k, n)"
      by (cases kn)
    have contents: "page_contents page = [(k, n)]"
      using Cons kn list_limit [OF page] by simp
    have k: "k \<in> block_keys (objs w) p" "n = length (the (objs w k))"
      using laws(1) contents by auto
    then obtain b d where b: "getKey p b = Inr k" "objs w k = Some d" "n = length d"
      by (auto simp: block_keys_def)
    obtain q b' where "getKey q b' = Inr k" "b' \<le> MAX_OBJECT_ID" "length d \<le> bs"
      using ok b(2) unfolding objects_ok_def by meson
    then have b_le: "b \<le> MAX_OBJECT_ID"
      using getKey_inject [OF b(1)] by blast
    define m where "m = unat b"
    have m: "m \<le> max_block" "b = of_nat m"
      using b_le by (simp_all add: m_def word_le_nat_alt MAX_OBJECT_ID_def max_block_def)
    have Bm: "?B m = Some d"
      using m b by (simp add: blocks_of_def)
    have "c' \<le> m" if c': "?B c' = Some e" for c' e
    proof -
      obtain k' where k': "getKey p (of_nat c') = Inr k'" "k' \<in> block_keys (objs w) p" "c' \<le> max_block"
        using B_keys [OF c'] by blast
      have c'_le: "(of_nat c' :: 64 word) \<le> MAX_OBJECT_ID"
        using max_block_word [OF k'(3)] k'(3) by (simp add: word_le_nat_alt MAX_OBJECT_ID_def max_block_def)
      have "k' = k \<or> k < k'"
        using laws(2) k'(2) contents by auto
      then show ?thesis
      proof
        assume "k' = k"
        then have "(of_nat c' :: 64 word) = b"
          using getKey_inject [OF k'(1), of p b] b(1) by simp
        then show ?thesis
          using max_block_word [OF k'(3)] by (simp add: m_def)
      next
        assume "k < k'"
        then have "(of_nat c' :: 64 word) < b"
          using getKey_order [OF b(1) k'(1) b_le c'_le] by simp
        then show ?thesis
          using max_block_word [OF k'(3)] by (simp add: m_def word_less_nat_alt)
      qed
    qed
    then have size: "blocks_size bs ?B = m * bs + length d"
      using blocks_size_last [OF objects_blocks_ok [OF ok] Bm] by blast
    then have "m * bs + length d < 2 ^ 63"
      using le_less_trans [OF blocks_size_limit [OF objects_blocks_ok [OF ok]] small_blocks] by metis
    moreover have "b * of_nat bs + of_nat (length d) = (of_nat (m * bs + length d) :: 64 word)"
      using m(2) by simp
    ultimately have "sint (b * of_nat bs + of_nat (length d)) = int (m * bs + length d)"
      using sint_of_nat64 [of "m * bs + length d"] by metis
    then show ?thesis
      using run pre page contents getObjectId_getKey [OF b(1)] b(3) size
      by (simp add: s3_getObjectsSize_def throwOnError_def raise_def act_defs)
  qed
qed

end

sublocale s3_blocks \<subseteq> s3_store: object_store "s3_ops c" objs bs
proof
  show "0 < bs" "Suc max_block * bs < 2 ^ 63"
    by (rule positive_blocks, rule small_blocks)
  show "objs (snd (kv_getObject (s3_ops c) k buf off w)) = objs w" for k buf off w
    using s3_getObject_keeps by (simp add: s3_ops_def)
  show "\<exists>d. objs w k = Some d \<and> n = min (length buf) (length d - nat off) \<and> buf' = take n (drop (nat off) d) @ drop n buf"
    if "kv_getObject (s3_ops c) k buf off w = ((Inr n, buf'), w')" "0 \<le> off" "buf \<noteq> []" for k buf off w n buf' w'
    using s3_getObject_body [of k buf off w n buf' w'] that by (simp add: s3_ops_def)
  show "(case objs w k of None \<Rightarrow> True | Some d \<Rightarrow> length d \<le> nat off) \<and> (buf' = buf \<or> buf' = replicate (length buf) zero_byte)"
    if "kv_getObject (s3_ops c) k buf off w = ((Inl (SystemError ENOENT), buf'), w')" "0 \<le> off" "buf \<noteq> []" for k buf off w buf' w'
    using s3_getObject_missing [of k buf off w buf' w'] that by (simp add: s3_ops_def)
  show "objs w' = (objs w)(k \<mapsto> d)" if "kv_putObject (s3_ops c) k d w = (Inr n, w')" for k d w n w'
    using that put [of k d w] by (auto simp: s3_ops_def s3_putObject_def throwOnError_def act_defs split: prod.splits sum.splits)
  show "objs (snd (kv_getObjectsSize (s3_ops c) p bs w)) = objs w" for p w
    using s3_getObjectsSize_keeps by (simp add: s3_ops_def)
  show "sz = int (blocks_size bs (blocks_of (objs w) p))"
    if "objects_ok bs (objs w)" "kv_getObjectsSize (s3_ops c) p bs w = (Inr sz, w')" for w p sz w'
    using s3_getObjectsSize_value [OF that(1), of p sz w'] that(2) by (simp add: s3_ops_def)
  show "set ks = block_keys (objs w) p \<and> objs w' = objs w"
    if ok: "objects_ok bs (objs w)" and run: "kv_listObjects (s3_ops c) p w = (Inr ks, w')" for w p ks w'
  proof -
    obtain pre where pre: "adjustPrefix p = Inr pre" "s3_pages c pre None [] w = Some (Inr ks, w')"
      using run by (auto simp: s3_ops_def s3_listObjects_def split: option.splits sum.splits)
    show ?thesis
      using s3_pages_all [OF pre(2)] listed_block_keys [OF ok pre(1)] by simp
  qed
  show "objs w' = (\<lambda>k. if k \<in> set ks then None else objs w k)"
    if "kv_deleteObjects (s3_ops c) ks w = (Inr u, w')" for ks w u w'
    using s3_deleteObjects_effect [of ks w u w'] that by (simp add: s3_ops_def)
qed


text \<open>The listing of a bucket with finitely many objects ends: each page but the last moves the marker forward.\<close>

context s3_bucket
begin

lemma s3_pages_ends: "finite (dom (objs w)) \<Longrightarrow> \<exists>r. s3_pages c pre marker keys w = Some r"
proof (induction "card (listed (objs w) pre marker)" arbitrary: marker keys w rule: less_induct)
  case less
  obtain r w' where page: "s3_ListObjects c pre None marker w = (r, w')"
    by (cases "s3_ListObjects c pre None marker w")
  then have same: "objs w' = objs w"
    using list_same [of pre None marker w] by simp
  show ?case
  proof (cases r)
    case (Inl e)
    then show ?thesis
      using page by (simp add: s3_pages.simps throwOnError_def)
  next
    case (Inr p)
    show ?thesis
    proof (cases "page_truncated p")
      case False
      then show ?thesis
        using page Inr by (simp add: s3_pages.simps throwOnError_def)
    next
      case True
      let ?l = "page_nextMarker p"
      have laws: "page_contents p \<noteq> []" "?l = fst (last (page_contents p))"
        "\<forall>(k, n) \<in> set (page_contents p). k \<in> listed (objs w) pre marker"
        using list_page [OF _ page [unfolded Inr]] True by auto
      then have l: "?l \<in> listed (objs w) pre marker"
        using last_in_set [OF laws(1)] by (metis (no_types, lifting) case_prodD prod.collapse)
      have "listed (objs w') pre (Some ?l) \<subseteq> listed (objs w) pre marker - {?l}"
        using l by (auto simp: listed_def same split: option.splits)
      moreover have "finite (listed (objs w) pre marker)"
        by (rule finite_subset [OF _ less.prems]) (auto simp: listed_def)
      ultimately have "card (listed (objs w') pre (Some ?l)) < card (listed (objs w) pre marker)"
        using l by (metis card_Diff1_less card_mono finite_Diff le_less_trans)
      then show ?thesis
        using less.hyps [of w' "Some ?l"] less.prems page Inr True same by (simp add: s3_pages.simps [of c pre marker] throwOnError_def)
    qed
  qed
qed

end

section \<open>A bucket in memory\<close>

definition parse_range :: "string \<Rightarrow> nat \<times> nat" where
  "parse_range r =
     (let s = drop (length ''bytes='') r
      in (decimal_value (takeWhile is_digit s), decimal_value (drop 1 (dropWhile is_digit s))))"

lemma parse_range_rangeToString:
  assumes "0 \<le> lo" "lo \<le> hi"
  shows "parse_range (rangeToString lo hi) = (nat lo, nat hi)"
proof -
  have "\<not> is_digit (CHR ''-'')"
    by (simp add: is_digit_def)
  moreover have "\<forall>c \<in> set (decimal (nat lo)). is_digit c"
    using decimal_digits by blast
  ultimately show ?thesis
    using assms by (simp add: parse_range_def rangeToString_def Let_def takeWhile_append2 dropWhile_append2 decimal_value_decimal)
qed

type_synonym bucket = "(string \<times> string) list"

definition bucket_page :: "string \<Rightarrow> nat option \<Rightarrow> string option \<Rightarrow> bucket \<Rightarrow> s3_page" where
  "bucket_page pre mx marker w =
     (let ks = filter (\<lambda>k. take (length pre) k = pre \<and> CHR ''/'' \<notin> set (drop (length pre) k) \<and>
                  (case marker of None \<Rightarrow> True | Some m \<Rightarrow> m < k)) (sort (remdups (map fst w)));
          m = (case mx of None \<Rightarrow> 1000 | Some m \<Rightarrow> min m 1000);
          shown = take m ks
      in \<lparr>page_contents = map (\<lambda>k. (k, length (the (map_of w k)))) shown,
          page_truncated = (m < length ks),
          page_nextMarker = (if shown = [] then [] else last shown)\<rparr>)"

definition mem_client :: "bucket s3_client" where
  "mem_client =
     \<lparr>s3_GetObject = (\<lambda>k r w.
        (case map_of w k of
           None \<Rightarrow> Inl NO_SUCH_KEY
         | Some d \<Rightarrow> (case parse_range r of (lo, hi) \<Rightarrow>
             if length d \<le> lo then Inl OTHER_ERROR else Inr (take (hi + 1 - lo) (drop lo d))), w)),
      s3_PutObject = (\<lambda>k d w. (Inr (), (k, d) # w)),
      s3_DeleteObjects = (\<lambda>ks w. (Inr (), filter (\<lambda>kd. fst kd \<notin> set ks) w)),
      s3_ListObjects = (\<lambda>pre mx marker w. (Inr (bucket_page pre mx marker w), w))\<rparr>"

lemma map_of_filter_keys: "map_of (filter (\<lambda>kd. fst kd \<notin> S) w) = (\<lambda>k. if k \<in> S then None else map_of w k)"
  by (induction w) (auto simp: fun_eq_iff)

lemma bucket_page_laws:
  fixes w :: bucket and pre :: string and marker :: "string option"
  assumes "mx \<noteq> Some 0"
  defines "page \<equiv> bucket_page pre mx marker w"
  shows "sorted_wrt (<) (map fst (page_contents page)) \<and>
     (\<forall>(k, n) \<in> set (page_contents page). k \<in> listed (map_of w) pre marker \<and> map_of w k \<noteq> None \<and> n = length (the (map_of w k))) \<and>
     (\<forall>k \<in> listed (map_of w) pre marker. k \<in> fst ` set (page_contents page) \<or>
        (page_contents page \<noteq> [] \<and> page_truncated page \<and> fst (last (page_contents page)) < k)) \<and>
     (page_truncated page \<longrightarrow> page_contents page \<noteq> [] \<and> page_nextMarker page = fst (last (page_contents page)))"
proof -
  define ks where "ks = filter (\<lambda>k. take (length pre) k = pre \<and> CHR ''/'' \<notin> set (drop (length pre) k) \<and>
      (case marker of None \<Rightarrow> True | Some m \<Rightarrow> m < k)) (sort (remdups (map fst w)))"
  define m where "m = (case mx of None \<Rightarrow> 1000 | Some m \<Rightarrow> min m 1000)"
  have m: "0 < m"
    using assms(1) by (auto simp: m_def split: option.splits)
  have contents: "page_contents page = map (\<lambda>k. (k, length (the (map_of w k)))) (take m ks)"
    and truncated: "page_truncated page \<longleftrightarrow> m < length ks"
    and marker: "page_nextMarker page = (if take m ks = [] then [] else last (take m ks))"
    by (simp_all add: page_def bucket_page_def Let_def ks_def [symmetric] m_def [symmetric])
  have keys: "map fst (page_contents page) = take m ks"
    by (simp add: contents comp_def)
  have ordered: "sorted_wrt (<) ks"
    unfolding ks_def by (intro sorted_wrt_filter) (simp add: strict_sorted_iff)
  have "(\<exists>r. k = pre @ r \<and> CHR ''/'' \<notin> set r) \<longleftrightarrow> take (length pre) k = pre \<and> CHR ''/'' \<notin> set (drop (length pre) k)" for k
    by (metis append_eq_conv_conj)
  then have elems: "set ks = listed (map_of w) pre marker"
    by (auto simp: ks_def listed_def map_of_eq_None_iff)
  have later: "take m ks \<noteq> [] \<and> m < length ks \<and> last (take m ks) < k" if "k \<in> set ks" "k \<notin> set (take m ks)" for k
  proof -
    have "k \<in> set (drop m ks)"
      using that by (metis UnE append_take_drop_id set_append)
    moreover from this have "m < length ks"
      by (cases "m < length ks") simp_all
    moreover have "take m ks \<noteq> []"
      using m \<open>m < length ks\<close> by auto
    moreover have "\<forall>x \<in> set (take m ks). \<forall>y \<in> set (drop m ks). x < y"
      using ordered by (metis append_take_drop_id sorted_wrt_append)
    ultimately show ?thesis
      using last_in_set by blast
  qed
  have "sorted_wrt (<) (map fst (page_contents page))"
    unfolding keys using ordered by (rule sorted_wrt_take)
  moreover have "k \<in> listed (map_of w) pre marker \<and> map_of w k \<noteq> None \<and> n = length (the (map_of w k))"
    if "(k, n) \<in> set (page_contents page)" for k n
    using that elems by (auto simp: contents listed_def dest: in_set_takeD)
  moreover have "k \<in> fst ` set (page_contents page) \<or>
      (page_contents page \<noteq> [] \<and> page_truncated page \<and> fst (last (page_contents page)) < k)" if "k \<in> listed (map_of w) pre marker" for k
    using later [of k] that elems by (auto simp: contents truncated last_map image_image)
  moreover have "page_contents page \<noteq> [] \<and> page_nextMarker page = fst (last (page_contents page))" if "page_truncated page"
  proof -
    have "take m ks \<noteq> []"
      using that m by (auto simp: truncated)
    then show ?thesis
      by (simp add: contents marker last_map)
  qed
  ultimately show ?thesis
    by blast
qed

interpretation mem_bucket: s3_bucket mem_client map_of
proof
  fix pre mx marker w page w'
  assume mx: "mx \<noteq> Some (0 :: nat)" and "s3_ListObjects mem_client pre mx marker w = (Inr page, w')"
  then have page: "page = bucket_page pre mx marker w"
    by (auto simp: mem_client_def)
  show "sorted_wrt (<) (map fst (page_contents page)) \<and>
     (\<forall>(k, n) \<in> set (page_contents page). k \<in> listed (map_of w) pre marker \<and> map_of w k \<noteq> None \<and> n = length (the (map_of w k))) \<and>
     (\<forall>k \<in> listed (map_of w) pre marker. k \<in> fst ` set (page_contents page) \<or>
        (page_contents page \<noteq> [] \<and> page_truncated page \<and> fst (last (page_contents page)) < k)) \<and>
     (page_truncated page \<longrightarrow> page_contents page \<noteq> [] \<and> page_nextMarker page = fst (last (page_contents page)))"
    unfolding page by (rule bucket_page_laws [OF mx])
qed (auto simp: mem_client_def parse_range_rangeToString map_of_filter_keys bucket_page_def Let_def nat_add_distrib nat_diff_distrib
      Suc_diff_le getReturnCode_def s_errors_def ENOENT_def fun_eq_iff split: option.splits if_splits)

interpretation mem_blocks: s3_blocks mem_client map_of 4
  by unfold_locales (simp_all add: max_block_def)

section \<open>Properties\<close>



text \<open>The definitions that an example run on the bucket in memory unfolds.\<close>

lemmas bucket_eval =
  kv_ash_write_def kv_ash_read_def write_blocks.simps write_block_def read_blocks.simps getBlockId_def getBlockOffset_def getBlock_def
  getKey_def adjustPrefix_def decimal.simps digit_def char_of_def bit_0 pad_def MAX_OBJECT_ID_def MAX_OBJECT_ID_DIGITS_def
  lock_key_def unlock_key_def on_objects_def raise_def bindA_def returnA_def modifyA_def
  s3_ops_def s3_getObject_def s3_putObject_def throwOnError_def getReturnCode_def s_errors_def mem_client_def parse_range_def rangeToString_def
  is_digit_def decimal_value_def digit_value_def zero_byte_def

lemma bucket_example:
  "kv_ash_write (s3_ops mem_client) 4 ''/f'' ''abcdef'' 1 \<lparr>kva_store = [], m_locks = []\<rparr> =
     (Inr 6, \<lparr>kva_store = [(''f/999998'', ''def''), (''f/999999'', zero_byte # ''abc'')], m_locks = []\<rparr>)"
  by (simp add: bucket_eval)


context s3_blocks
begin

lemma s3_file_storage: "file_storage (kv_helper (s3_ops c) bs) (kv_content bs objs) (kv_ok bs objs) (Suc max_block * bs)"
  by (rule s3_store.kv_file.file_storage_axioms)

end

lemma bucket_example_ok: "kv_ok 4 map_of \<lparr>kva_store = [], m_locks = []\<rparr>" "kv_content 4 map_of \<lparr>kva_store = [], m_locks = []\<rparr> p = []"
  by (simp_all add: kv_ok_def objects_ok_def kv_content_def blocks_of_def flat_def blocks_size_def block_end_def split: sum.splits)






end
