(* ===== verification/OC_Connection.thy ===== *)
theory OC_Connection
  imports OC_FlatFile
begin

text \<open>
  Connections to the provider: \<open>helpers/src/communication/persistentConnection.cc\<close>, which keeps one
  connection up and frames the messages on it, \<open>connectionPool.cc\<close>, which hands messages to idle
  connections, and \<open>layers/retrier.h\<close>, which repeats failed sends.

  The socket library is the environment: which of the operations in progress succeeds or fails next,
  and with which data, is an input. Each connection has one thread, so that a completion handler is
  one step, unless it gets stuck: waiting for an idle connection blocks the thread that waits.
\<close>

section \<open>A connection\<close>

text \<open>
  The functions that are called back: the one for the result of the handshake, and the one that the
  retrying layer wraps around the callback of its caller, here a number, with the message and the
  retries left.
\<close>

datatype callback = Handshake_done | Retry string nat nat

text \<open>
  Operations in progress on the socket. Headers and bodies are read for the answer to the handshake
  (\<open>True\<close>) and for messages.
\<close>

datatype op = OpConnect | OpHandshake | OpHeader bool | OpData bool | OpSend

text \<open>What the thread of a connection does: it is free, or it waits within \<open>onError\<close> or within \<open>send\<close>.\<close>

datatype conn_thread = Running | In_error errno | In_send

text \<open>
  The fields of the class, then the armed timer, the sends posted to the thread, and the operations in
  progress with the connection id that their callbacks captured.
\<close>

record PersistentConnection =
  m_onHandshakeDone :: "callback option"
  m_callback :: "callback option"
  m_socket :: bool
  pc_connected :: bool
  m_connectionId :: "32 word"
  m_inHeader :: string
  m_inData :: string
  m_outHeader :: string
  m_outData :: string
  m_recreateTimer :: bool
  pc_posted :: "(string \<times> callback) list"
  pc_pending :: "(op \<times> 32 word) list"
  pc_thread :: conn_thread

text \<open>The functions around the handshake; the message that opens the handshake is the same each time.\<close>

record handshake =
  m_getHandshake :: "string option"
  m_onHandshakeResponse :: "(string \<Rightarrow> errno option) option"

text \<open>What a connection does to the world around it.\<close>

datatype conn_output = Called callback "errno option" | Ready | Received string | Wrote string

definition htonl :: "nat \<Rightarrow> string" where
  "htonl n = map char_of [n div 2 ^ 24 mod 256, n div 2 ^ 16 mod 256, n div 2 ^ 8 mod 256, n mod 256]"

definition ntohl :: "string \<Rightarrow> nat" where
  "ntohl h = foldl (\<lambda>n c. 256 * n + of_char c) 0 h"

text \<open>The constructor stores the function for the end of the handshake as the current callback.\<close>

definition PersistentConnection_new :: "callback option \<Rightarrow> PersistentConnection" where
  "PersistentConnection_new onHandshakeDone =
     \<lparr>m_onHandshakeDone = None, m_callback = onHandshakeDone, m_socket = False, pc_connected = False, m_connectionId = 0,
      m_inHeader = replicate 4 zero_byte, m_inData = [], m_outHeader = replicate 4 zero_byte, m_outData = [],
      m_recreateTimer = False, pc_posted = [], pc_pending = [], pc_thread = Running\<rparr>"

definition createCallback :: "op \<Rightarrow> PersistentConnection \<Rightarrow> PersistentConnection" where
  "createCallback op c = c\<lparr>pc_pending := pc_pending c @ [(op, m_connectionId c)]\<rparr>"

definition pc_connect :: "PersistentConnection \<Rightarrow> PersistentConnection" where
  "pc_connect c = createCallback OpConnect (c\<lparr>m_socket := True\<rparr>)"

definition prepareOutBuffer :: "string \<Rightarrow> PersistentConnection \<Rightarrow> PersistentConnection" where
  "prepareOutBuffer message c = c\<lparr>m_outHeader := htonl (length message), m_outData := message\<rparr>"

definition asyncRead :: "bool \<Rightarrow> PersistentConnection \<Rightarrow> PersistentConnection" where
  "asyncRead handshake c = (if m_socket c then createCallback (OpHeader handshake) c else c)"

definition onHeaderSuccess :: "bool \<Rightarrow> string \<Rightarrow> PersistentConnection \<Rightarrow> PersistentConnection" where
  "onHeaderSuccess handshake header c =
     (let c1 = c\<lparr>m_inHeader := header, m_inData := resize (ntohl header) (m_inData c)\<rparr>
      in if m_socket c then createCallback (OpData handshake) c1 else c1)"

definition readLoop :: "PersistentConnection \<Rightarrow> PersistentConnection" where
  "readLoop = asyncRead False"

definition pc_close :: "PersistentConnection \<Rightarrow> PersistentConnection" where
  "pc_close c =
     (if m_socket c then c\<lparr>m_connectionId := m_connectionId c + 1, pc_connected := False, m_socket := False\<rparr> else c)"

text \<open>\<open>notify\<close> in two parts: the callback, and what comes after it returned.\<close>

definition notify_callback :: "errno option \<Rightarrow> PersistentConnection \<Rightarrow> PersistentConnection \<times> conn_output list" where
  "notify_callback ec c = (case m_callback c of None \<Rightarrow> (c, []) | Some cb \<Rightarrow> (c\<lparr>m_callback := None\<rparr>, [Called cb ec]))"

definition notify_handshake :: "errno option \<Rightarrow> PersistentConnection \<Rightarrow> conn_output list" where
  "notify_handshake ec c =
     (case m_onHandshakeDone c of Some h \<Rightarrow> (if pc_connected c then [] else [Called h ec]) | None \<Rightarrow> [])"

definition pc_notify :: "errno option \<Rightarrow> PersistentConnection \<Rightarrow> PersistentConnection \<times> conn_output list" where
  "pc_notify ec c = (let (c1, outs) = notify_callback ec c in (c1, outs @ notify_handshake ec c1))"

definition pc_start :: "PersistentConnection \<Rightarrow> PersistentConnection \<times> conn_output list" where
  "pc_start c = (let (c1, outs) = pc_notify None c in (readLoop (c1\<lparr>pc_connected := True\<rparr>), outs @ [Ready]))"

definition onConnect :: "handshake \<Rightarrow> PersistentConnection \<Rightarrow> PersistentConnection \<times> conn_output list" where
  "onConnect hs c =
     (case m_getHandshake hs of
        None \<Rightarrow> pc_start c
      | Some message \<Rightarrow> (createCallback OpHandshake (prepareOutBuffer message c), []))"

definition onHandshakeSent :: "PersistentConnection \<Rightarrow> PersistentConnection" where
  "onHandshakeSent = asyncRead True"

definition onSent :: "PersistentConnection \<Rightarrow> PersistentConnection \<times> conn_output list" where
  "onSent c = (let (c1, outs) = pc_notify None c in (c1, outs @ [Ready]))"

text \<open>\<open>onError\<close> up to the callback, and from its return on.\<close>

definition onError_begin :: "errno \<Rightarrow> PersistentConnection \<Rightarrow> PersistentConnection \<times> conn_output list" where
  "onError_begin ec c = notify_callback (Some ec) (c\<lparr>m_recreateTimer := True\<rparr>)"

definition onError_finish :: "errno \<Rightarrow> PersistentConnection \<Rightarrow> PersistentConnection \<times> conn_output list" where
  "onError_finish ec c = (pc_close c, notify_handshake (Some ec) c)"

text \<open>
  A completed operation: what the buffers on the wire held when it completed, and the handler. The
  last component is the error with which \<open>onHandshakeReceived\<close> goes on to \<open>onError\<close>.
\<close>

definition onHandshakeReceived :: "handshake \<Rightarrow> PersistentConnection \<Rightarrow> (PersistentConnection \<times> conn_output list) \<times> errno option" where
  "onHandshakeReceived hs c =
     (case m_onHandshakeResponse hs of
        None \<Rightarrow> (pc_start c, None)
      | Some f \<Rightarrow>
          (case f (m_inData c) of
             None \<Rightarrow> (pc_start (c\<lparr>m_inData := []\<rparr>), None)
           | Some ec \<Rightarrow> ((c\<lparr>m_inData := []\<rparr>, []), Some ec)))"

definition onSuccess :: "handshake \<Rightarrow> op \<Rightarrow> string \<Rightarrow> PersistentConnection \<Rightarrow> (PersistentConnection \<times> conn_output list) \<times> errno option" where
  "onSuccess hs op data c =
     (case op of
        OpConnect \<Rightarrow> (onConnect hs c, None)
      | OpHandshake \<Rightarrow> ((onHandshakeSent c, [Wrote (m_outHeader c @ m_outData c)]), None)
      | OpHeader handshake \<Rightarrow> ((onHeaderSuccess handshake data c, []), None)
      | OpData True \<Rightarrow> onHandshakeReceived hs (c\<lparr>m_inData := data\<rparr>)
      | OpData False \<Rightarrow> ((readLoop (c\<lparr>m_inData := []\<rparr>), [Received data]), None)
      | OpSend \<Rightarrow> (let (c1, outs) = onSent c in ((c1, Wrote (m_outHeader c @ m_outData c) # outs), None)))"

text \<open>The number of bytes that an operation waits for.\<close>

definition expects :: "op \<Rightarrow> string \<Rightarrow> PersistentConnection \<Rightarrow> bool" where
  "expects op data c \<longleftrightarrow>
     (case op of OpHeader _ \<Rightarrow> length data = 4 | OpData _ \<Rightarrow> length data = length (m_inData c) | _ \<Rightarrow> True)"

section \<open>The pool and the retries\<close>

text \<open>
  A thread that waits in \<open>m_idleConnections.pop\<close> has the message and the callback that it wants to
  send; it is that of a caller from above or that of a connection. The remaining fields record what
  happened: calls of the callbacks of the layer above, results of handshakes, received messages and
  what was written on which connection.
\<close>

record ConnectionPool =
  cp_connected :: bool
  m_connections :: "PersistentConnection list"
  m_idleConnections :: "nat list"
  cp_waiting :: "(nat option \<times> string \<times> callback) list"
  cp_calls :: "(nat \<times> errno option) list"
  cp_handshakes :: "errno option list"
  cp_received :: "string list"
  cp_wire :: "(nat \<times> string) list"

definition on_conn :: "nat \<Rightarrow> (PersistentConnection \<Rightarrow> PersistentConnection) \<Rightarrow> ConnectionPool \<Rightarrow> ConnectionPool" where
  "on_conn i f s = s\<lparr>m_connections := (m_connections s)[i := f (m_connections s ! i)]\<rparr>"

definition pool_connect :: "nat \<Rightarrow> callback option \<Rightarrow> ConnectionPool" where
  "pool_connect connectionsNumber onHandshakeDone =
     \<lparr>cp_connected = True, m_connections = replicate connectionsNumber (pc_connect (PersistentConnection_new onHandshakeDone)),
      m_idleConnections = [], cp_waiting = [], cp_calls = [], cp_handshakes = [], cp_received = [], cp_wire = []\<rparr>"

text \<open>Sending through the connection that was popped posts to its thread.\<close>

definition conn_send :: "nat \<Rightarrow> string \<Rightarrow> callback \<Rightarrow> ConnectionPool \<Rightarrow> ConnectionPool" where
  "conn_send i message cb = on_conn i (\<lambda>c. c\<lparr>pc_posted := pc_posted c @ [(message, cb)]\<rparr>)"

text \<open>The first component tells whether the caller has to wait.\<close>

definition pool_send :: "nat option \<Rightarrow> string \<Rightarrow> callback \<Rightarrow> ConnectionPool \<Rightarrow> bool \<times> ConnectionPool" where
  "pool_send who message cb s =
     (if \<not> cp_connected s then (False, s)
      else
        case m_idleConnections s of
          [] \<Rightarrow> (True, s\<lparr>cp_waiting := cp_waiting s @ [(who, message, cb)]\<rparr>)
        | i # idle \<Rightarrow> (False, conn_send i message cb (s\<lparr>m_idleConnections := idle\<rparr>)))"

definition retrier_send :: "string \<Rightarrow> nat \<Rightarrow> nat \<Rightarrow> ConnectionPool \<Rightarrow> ConnectionPool" where
  "retrier_send message cb retries s = snd (pool_send None message (Retry message cb retries) s)"

definition run_callback :: "nat \<Rightarrow> callback \<Rightarrow> errno option \<Rightarrow> ConnectionPool \<Rightarrow> bool \<times> ConnectionPool" where
  "run_callback i callback ec s =
     (case callback of
        Handshake_done \<Rightarrow> (False, s\<lparr>cp_handshakes := cp_handshakes s @ [ec]\<rparr>)
      | Retry message cb retries \<Rightarrow>
          if ec \<noteq> None \<and> retries > 0 then pool_send (Some i) message (Retry message cb (retries - 1)) s
          else (False, s\<lparr>cp_calls := cp_calls s @ [(cb, ec)]\<rparr>))"

definition onConnectionReady :: "nat \<Rightarrow> ConnectionPool \<Rightarrow> ConnectionPool" where
  "onConnectionReady i s = s\<lparr>m_idleConnections := m_idleConnections s @ [i]\<rparr>"

fun emit_output :: "nat \<Rightarrow> conn_output \<Rightarrow> ConnectionPool \<Rightarrow> bool \<times> ConnectionPool" where
  "emit_output i (Called cb ec) s = run_callback i cb ec s"
| "emit_output i Ready s = (False, onConnectionReady i s)"
| "emit_output i (Received message) s = (False, s\<lparr>cp_received := cp_received s @ [message]\<rparr>)"
| "emit_output i (Wrote data) s = (False, s\<lparr>cp_wire := cp_wire s @ [(i, data)]\<rparr>)"

fun emit_outputs :: "nat \<Rightarrow> conn_output list \<Rightarrow> ConnectionPool \<Rightarrow> bool \<times> ConnectionPool" where
  "emit_outputs i [] s = (False, s)"
| "emit_outputs i (x # xs) s =
     (let (b, s1) = emit_output i x s; (b', s2) = emit_outputs i xs s1 in (b \<or> b', s2))"

text \<open>A handler that changes the connection and then calls out.\<close>

definition run_handler :: "nat \<Rightarrow> (PersistentConnection \<Rightarrow> PersistentConnection \<times> conn_output list) \<Rightarrow> ConnectionPool \<Rightarrow> bool \<times> ConnectionPool" where
  "run_handler i f s =
     (let (c, outs) = f (m_connections s ! i) in emit_outputs i outs (s\<lparr>m_connections := (m_connections s)[i := c]\<rparr>))"

definition finish_error :: "nat \<Rightarrow> errno \<Rightarrow> ConnectionPool \<Rightarrow> ConnectionPool" where
  "finish_error i ec s = on_conn i (\<lambda>c. c\<lparr>pc_thread := Running\<rparr>) (snd (run_handler i (onError_finish ec) s))"

definition onError :: "nat \<Rightarrow> errno \<Rightarrow> ConnectionPool \<Rightarrow> ConnectionPool" where
  "onError i ec s =
     (let (blocked, s1) = run_handler i (onError_begin ec) s
      in if blocked then on_conn i (\<lambda>c. c\<lparr>pc_thread := In_error ec\<rparr>) s1 else finish_error i ec s1)"

definition ENOTCONN :: errno where "ENOTCONN = 107"

text \<open>The task that \<open>send\<close> posted.\<close>

definition run_posted :: "nat \<Rightarrow> ConnectionPool \<Rightarrow> ConnectionPool" where
  "run_posted i s =
     (case pc_posted (m_connections s ! i) of
        [] \<Rightarrow> s
      | (message, cb) # posted \<Rightarrow>
          let s1 = on_conn i (\<lambda>c. c\<lparr>pc_posted := posted\<rparr>) s;
              c = m_connections s1 ! i
          in if \<not> pc_connected c \<or> \<not> m_socket c then
               (let (blocked, s2) = run_callback i cb (Some ENOTCONN) s1
                in if blocked then on_conn i (\<lambda>c. c\<lparr>pc_thread := In_send\<rparr>) s2 else s2)
             else on_conn i (\<lambda>c. createCallback OpSend (prepareOutBuffer message (c\<lparr>m_callback := Some cb\<rparr>))) s1)"

definition take_op :: "nat \<Rightarrow> nat \<Rightarrow> ConnectionPool \<Rightarrow> ConnectionPool" where
  "take_op i k = on_conn i (\<lambda>c. c\<lparr>pc_pending := take k (pc_pending c) @ drop (Suc k) (pc_pending c)\<rparr>)"

text \<open>Waiting threads are served in any order.\<close>

definition wake :: "nat \<Rightarrow> ConnectionPool \<Rightarrow> ConnectionPool" where
  "wake k s =
     (case m_idleConnections s of
        [] \<Rightarrow> s
      | i # idle \<Rightarrow>
          (case cp_waiting s ! k of (who, message, cb) \<Rightarrow>
             let s1 = conn_send i message cb (s\<lparr>m_idleConnections := idle, cp_waiting := take k (cp_waiting s) @ drop (Suc k) (cp_waiting s)\<rparr>)
             in case who of
                  None \<Rightarrow> s1
                | Some j \<Rightarrow>
                    (case pc_thread (m_connections s1 ! j) of
                       In_error ec \<Rightarrow> finish_error j ec s1
                     | _ \<Rightarrow> on_conn j (\<lambda>c. c\<lparr>pc_thread := Running\<rparr>) s1)))"

text \<open>
  Stopping destroys the connections, which joins their threads, before it wakes those that wait.
\<close>

definition pool_stop :: "(ConnectionPool, unit) act" where
  "pool_stop s =
     (let s1 = s\<lparr>cp_connected := False\<rparr>
      in if \<exists>c \<in> set (m_connections s). pc_thread c \<noteq> Running then (Inl Deadlock, s1)
         else (Inr (), s1\<lparr>m_connections := [], m_idleConnections := [], cp_waiting := []\<rparr>))"

section \<open>Runs\<close>

datatype pool_event =
    SendMsg string nat nat
  | Wake nat
  | Run_posted nat
  | Succeeds nat nat string
  | Fails nat nat errno
  | Timer nat

definition free_conn :: "nat \<Rightarrow> ConnectionPool \<Rightarrow> bool" where
  "free_conn i s \<longleftrightarrow> i < length (m_connections s) \<and> pc_thread (m_connections s ! i) = Running"

text \<open>One step of the pool; an event that cannot happen has no result. Completions of an earlier connection are ignored.\<close>

definition pool_step :: "handshake \<Rightarrow> pool_event \<Rightarrow> ConnectionPool \<Rightarrow> ConnectionPool option" where
  "pool_step hs ev s =
     (case ev of
        SendMsg message cb retries \<Rightarrow> Some (retrier_send message cb retries s)
      | Wake k \<Rightarrow> if k < length (cp_waiting s) \<and> m_idleConnections s \<noteq> [] then Some (wake k s) else None
      | Run_posted i \<Rightarrow> if free_conn i s \<and> pc_posted (m_connections s ! i) \<noteq> [] then Some (run_posted i s) else None
      | Succeeds i k data \<Rightarrow>
          if free_conn i s \<and> k < length (pc_pending (m_connections s ! i)) then
            (case pc_pending (m_connections s ! i) ! k of (op, cid) \<Rightarrow>
               if \<not> expects op data (m_connections s ! i) then None
               else
                 let s1 = take_op i k s
                 in if cid \<noteq> m_connectionId (m_connections s ! i) then Some s1
                    else
                      case onSuccess hs op data (m_connections s1 ! i) of (r, ec) \<Rightarrow>
                        let s2 = snd (run_handler i (\<lambda>_. r) s1)
                        in Some (case ec of None \<Rightarrow> s2 | Some e \<Rightarrow> onError i e s2))
          else None
      | Fails i k ec \<Rightarrow>
          if free_conn i s \<and> k < length (pc_pending (m_connections s ! i)) then
            let s1 = take_op i k s
            in Some (if snd (pc_pending (m_connections s ! i) ! k) = m_connectionId (m_connections s ! i) then onError i ec s1 else s1)
          else None
      | Timer i \<Rightarrow>
          if free_conn i s \<and> m_recreateTimer (m_connections s ! i)
          then Some (on_conn i (\<lambda>c. pc_connect (c\<lparr>m_recreateTimer := False\<rparr>)) s) else None)"

fun pool_run :: "handshake \<Rightarrow> pool_event list \<Rightarrow> ConnectionPool \<Rightarrow> ConnectionPool option" where
  "pool_run hs [] s = Some s"
| "pool_run hs (ev # evs) s = (case pool_step hs ev s of None \<Rightarrow> None | Some s' \<Rightarrow> pool_run hs evs s')"


section \<open>What happens to callbacks\<close>

definition cb_ids :: "callback \<Rightarrow> nat multiset" where
  "cb_ids cb = (case cb of Handshake_done \<Rightarrow> {#} | Retry _ k _ \<Rightarrow> {#k#})"

definition current_ids :: "PersistentConnection \<Rightarrow> nat multiset" where
  "current_ids c = (case m_callback c of None \<Rightarrow> {#} | Some cb \<Rightarrow> cb_ids cb)"

definition conn_held :: "PersistentConnection \<Rightarrow> nat multiset" where
  "conn_held c = current_ids c + sum_list (map (\<lambda>(m, cb). cb_ids cb) (pc_posted c))"

text \<open>The callbacks that are still held somewhere, and those that were called.\<close>

definition pending_callbacks :: "ConnectionPool \<Rightarrow> nat multiset" where
  "pending_callbacks s = sum_list (map conn_held (m_connections s)) + sum_list (map (\<lambda>(who, m, cb). cb_ids cb) (cp_waiting s))"

definition called_callbacks :: "ConnectionPool \<Rightarrow> nat multiset" where
  "called_callbacks s = mset (map fst (cp_calls s))"

definition accounted :: "ConnectionPool \<Rightarrow> nat multiset" where
  "accounted s = pending_callbacks s + called_callbacks s"

definition outs_ids :: "conn_output list \<Rightarrow> nat multiset" where
  "outs_ids outs = sum_list (map (\<lambda>x. case x of Called cb _ \<Rightarrow> cb_ids cb | _ \<Rightarrow> {#}) outs)"

definition pool_ok :: "ConnectionPool \<Rightarrow> bool" where
  "pool_ok s \<longleftrightarrow>
     cp_connected s \<and> (\<forall>i \<in> set (m_idleConnections s). i < length (m_connections s)) \<and>
     (\<forall>(who, m, cb) \<in> set (cp_waiting s). \<forall>j. who = Some j \<longrightarrow> j < length (m_connections s)) \<and>
     (\<forall>c \<in> set (m_connections s). m_onHandshakeDone c = None)"

lemma sum_list_update_ms:
  fixes f :: "'a \<Rightarrow> nat multiset"
  assumes "i < length xs"
  shows "sum_list (map f (xs[i := y])) + f (xs ! i) = sum_list (map f xs) + f y"
  using assms
proof (induction xs arbitrary: i)
  case (Cons x xs)
  show ?case
  proof (cases i)
    case (Suc j)
    then show ?thesis
      using Cons.IH [of j] Cons.prems by (simp add: ac_simps)
  qed (simp add: ac_simps)
qed simp

lemma sum_list_remove_ms:
  fixes f :: "'a \<Rightarrow> nat multiset"
  assumes "k < length xs"
  shows "sum_list (map f (take k xs @ drop (Suc k) xs)) + f (xs ! k) = sum_list (map f xs)"
proof -
  have "map f xs = map f (take k xs @ xs ! k # drop (Suc k) xs)"
    using assms by (simp add: id_take_nth_drop [symmetric])
  then show ?thesis
    by (simp add: ac_simps)
qed

lemma accounted_replace:
  assumes "i < length (m_connections s)"
  shows "accounted (s\<lparr>m_connections := (m_connections s)[i := c]\<rparr>) + conn_held (m_connections s ! i) = accounted s + conn_held c"
  using sum_list_update_ms [OF assms, of conn_held c]
  by (simp add: accounted_def pending_callbacks_def called_callbacks_def ac_simps)

lemma accounted_on_conn:
  assumes "i < length (m_connections s)"
  shows "accounted (on_conn i f s) + conn_held (m_connections s ! i) = accounted s + conn_held (f (m_connections s ! i))"
  using accounted_replace [OF assms] by (simp add: on_conn_def)

lemma on_conn_beyond: "\<not> i < length (m_connections s) \<Longrightarrow> on_conn i f s = s"
  by (simp add: on_conn_def list_update_beyond)

lemma accounted_on_conn_same:
  assumes "\<And>c. conn_held (f c) = conn_held c"
  shows "accounted (on_conn i f s) = accounted s"
proof (cases "i < length (m_connections s)")
  case True
  then show ?thesis
    using accounted_on_conn [OF True, of f] assms by simp
qed (simp add: on_conn_beyond)

lemma accounted_simps [simp]:
  "accounted (s\<lparr>m_idleConnections := idle\<rparr>) = accounted s"
  "accounted (s\<lparr>cp_received := r\<rparr>) = accounted s"
  "accounted (s\<lparr>cp_wire := w\<rparr>) = accounted s"
  "accounted (s\<lparr>cp_handshakes := h\<rparr>) = accounted s"
  "accounted (s\<lparr>cp_calls := cp_calls s @ [(k, ec)]\<rparr>) = accounted s + {#k#}"
  "accounted (s\<lparr>cp_waiting := cp_waiting s @ [(who, m, cb)]\<rparr>) = accounted s + cb_ids cb"
  by (simp_all add: accounted_def pending_callbacks_def called_callbacks_def)

lemma conn_held_simps [simp]:
  "conn_held (createCallback op c) = conn_held c"
  "conn_held (prepareOutBuffer m c) = conn_held c"
  "conn_held (c\<lparr>pc_thread := t\<rparr>) = conn_held c"
  "conn_held (c\<lparr>m_recreateTimer := b\<rparr>) = conn_held c"
  "conn_held (c\<lparr>m_socket := b\<rparr>) = conn_held c"
  "conn_held (c\<lparr>pc_connected := b\<rparr>) = conn_held c"
  "conn_held (c\<lparr>m_connectionId := i\<rparr>) = conn_held c"
  "conn_held (c\<lparr>m_inData := d\<rparr>) = conn_held c"
  "conn_held (c\<lparr>m_inHeader := d\<rparr>) = conn_held c"
  "conn_held (c\<lparr>pc_pending := ps\<rparr>) = conn_held c"
  "conn_held (c\<lparr>pc_posted := pc_posted c @ [(m, cb)]\<rparr>) = conn_held c + cb_ids cb"
  by (simp_all add: conn_held_def current_ids_def createCallback_def prepareOutBuffer_def)

lemma pool_ok_simps [simp]:
  "pool_ok (s\<lparr>cp_received := r\<rparr>) = pool_ok s"
  "pool_ok (s\<lparr>cp_wire := w\<rparr>) = pool_ok s"
  "pool_ok (s\<lparr>cp_handshakes := h\<rparr>) = pool_ok s"
  "pool_ok (s\<lparr>cp_calls := k\<rparr>) = pool_ok s"
  by (simp_all add: pool_ok_def)

lemma length_on_conn [simp]: "length (m_connections (on_conn i f s)) = length (m_connections s)"
  by (simp add: on_conn_def)

lemma pool_ok_on_conn:
  assumes "pool_ok s" "\<And>c. m_onHandshakeDone c = None \<Longrightarrow> m_onHandshakeDone (f c) = None"
  shows "pool_ok (on_conn i f s)"
proof (cases "i < length (m_connections s)")
  case True
  have "m_onHandshakeDone c = None" if "c \<in> set ((m_connections s)[i := f (m_connections s ! i)])" for c
    using set_update_subset_insert [of "m_connections s" i] that assms True unfolding pool_ok_def by (metis (no_types, lifting) insertE nth_mem subsetD)
  then show ?thesis
    using assms(1) by (simp add: pool_ok_def on_conn_def)
next
  case False
  then show ?thesis
    using assms(1) by (simp add: on_conn_beyond)
qed

text \<open>Sending and calling back account for the callback that they get.\<close>

lemma pool_ok_idle: "pool_ok s \<Longrightarrow> m_idleConnections s = i # idle \<Longrightarrow> i < length (m_connections s) \<and> pool_ok (s\<lparr>m_idleConnections := idle\<rparr>)"
  by (simp add: pool_ok_def)

lemma conn_send_accounted:
  assumes "pool_ok s" "i < length (m_connections s)"
  shows "accounted (conn_send i m cb s) = accounted s + cb_ids cb \<and> pool_ok (conn_send i m cb s)"
  using accounted_on_conn [OF assms(2), of "\<lambda>c. c\<lparr>pc_posted := pc_posted c @ [(m, cb)]\<rparr>"] pool_ok_on_conn [OF assms(1), of "\<lambda>c. c\<lparr>pc_posted := pc_posted c @ [(m, cb)]\<rparr>" i]
  unfolding conn_send_def by (simp add: ac_simps)

lemma pool_send_accounted:
  assumes "pool_ok s" "\<forall>j. who = Some j \<longrightarrow> j < length (m_connections s)"
  shows "accounted (snd (pool_send who m cb s)) = accounted s + cb_ids cb \<and> pool_ok (snd (pool_send who m cb s))"
proof (cases "m_idleConnections s")
  case Nil
  then show ?thesis
    using assms by (simp add: pool_send_def) (simp add: pool_ok_def)
next
  case (Cons i idle)
  note i = pool_ok_idle [OF assms(1) Cons]
  show ?thesis
    using conn_send_accounted [of "s\<lparr>m_idleConnections := idle\<rparr>" i m cb] i Cons assms(1) by (simp add: pool_send_def pool_ok_def)
qed

lemma run_callback_accounted:
  assumes "pool_ok s" "i < length (m_connections s)"
  shows "accounted (snd (run_callback i cb ec s)) = accounted s + cb_ids cb \<and> pool_ok (snd (run_callback i cb ec s))"
proof (cases cb)
  case (Retry m k r)
  then show ?thesis
    using pool_send_accounted [OF assms(1), of "Some i" m "Retry m k (r - 1)"] assms
    by (simp add: run_callback_def cb_ids_def)
qed (use assms in \<open>simp add: run_callback_def cb_ids_def\<close>)

lemma length_conns_send [simp]:
  "length (m_connections (conn_send i m cb s)) = length (m_connections s)"
  "length (m_connections (snd (pool_send who m cb s))) = length (m_connections s)"
  "length (m_connections (snd (run_callback i cb ec s))) = length (m_connections s)"
  by (simp_all add: conn_send_def pool_send_def run_callback_def split: list.split callback.split)

lemma emit_output_accounted:
  assumes "pool_ok s" "i < length (m_connections s)"
  shows "accounted (snd (emit_output i x s)) = accounted s + outs_ids [x] \<and> pool_ok (snd (emit_output i x s)) \<and>
    length (m_connections (snd (emit_output i x s))) = length (m_connections s)"
proof (cases x)
  case (Called cb ec)
  then show ?thesis
    using run_callback_accounted [OF assms] by (simp add: outs_ids_def)
qed (use assms in \<open>simp_all add: outs_ids_def onConnectionReady_def pool_ok_def\<close>)

lemma emit_outputs_accounted:
  assumes "pool_ok s" "i < length (m_connections s)"
  shows "accounted (snd (emit_outputs i outs s)) = accounted s + outs_ids outs \<and> pool_ok (snd (emit_outputs i outs s)) \<and>
    length (m_connections (snd (emit_outputs i outs s))) = length (m_connections s)"
  using assms
proof (induction outs arbitrary: s)
  case (Cons x outs)
  note x = emit_output_accounted [OF Cons.prems, of x]
  show ?case
    using Cons.IH [of "snd (emit_output i x s)"] x Cons.prems(2) by (simp add: case_prod_unfold Let_def outs_ids_def ac_simps)
qed (simp add: outs_ids_def)

text \<open>A handler is balanced when what it takes from the connection it hands out.\<close>

definition balanced :: "PersistentConnection \<Rightarrow> PersistentConnection \<times> conn_output list \<Rightarrow> bool" where
  "balanced c r \<longleftrightarrow> conn_held (fst r) + outs_ids (snd r) = conn_held c \<and> m_onHandshakeDone (fst r) = None"

lemma run_handler_accounted:
  assumes "pool_ok s" "i < length (m_connections s)" "balanced (m_connections s ! i) (f (m_connections s ! i))"
  shows "accounted (snd (run_handler i f s)) = accounted s \<and> pool_ok (snd (run_handler i f s)) \<and>
    length (m_connections (snd (run_handler i f s))) = length (m_connections s)"
proof -
  obtain c outs where f: "f (m_connections s ! i) = (c, outs)"
    by (cases "f (m_connections s ! i)")
  let ?s1 = "s\<lparr>m_connections := (m_connections s)[i := c]\<rparr>"
  have held: "conn_held c + outs_ids outs = conn_held (m_connections s ! i)" "m_onHandshakeDone c = None"
    using assms(3) by (simp_all add: balanced_def f)
  have "?s1 = on_conn i (\<lambda>_. c) s"
    by (simp add: on_conn_def)
  then have ok: "pool_ok ?s1"
    using pool_ok_on_conn [OF assms(1), of "\<lambda>_. c" i] held(2) by simp
  have "accounted ?s1 + (conn_held c + outs_ids outs) = accounted s + conn_held c"
    using accounted_replace [OF assms(2), of c] by (simp only: held(1))
  then have "accounted ?s1 + outs_ids outs = accounted s"
    by (simp add: ac_simps)
  then show ?thesis
    using emit_outputs_accounted [OF ok, of i outs] assms(2) by (simp add: run_handler_def f)
qed

lemma balanced_notify: "m_onHandshakeDone c = None \<Longrightarrow> balanced c (pc_notify ec c) \<and> balanced c (notify_callback ec c)"
  by (auto simp: balanced_def pc_notify_def notify_callback_def notify_handshake_def outs_ids_def conn_held_def current_ids_def split: option.split)

lemma keep_onHandshakeDone [simp]:
  "m_onHandshakeDone (createCallback op c) = m_onHandshakeDone c"
  "m_onHandshakeDone (prepareOutBuffer m c) = m_onHandshakeDone c"
  "m_onHandshakeDone (asyncRead b c) = m_onHandshakeDone c"
  "m_onHandshakeDone (onHeaderSuccess b d c) = m_onHandshakeDone c"
  "m_onHandshakeDone (pc_close c) = m_onHandshakeDone c"
  "m_onHandshakeDone (pc_connect c) = m_onHandshakeDone c"
  by (simp_all add: createCallback_def prepareOutBuffer_def asyncRead_def onHeaderSuccess_def pc_close_def pc_connect_def Let_def)

lemma keep_held [simp]:
  "conn_held (asyncRead b c) = conn_held c"
  "conn_held (onHeaderSuccess b d c) = conn_held c"
  "conn_held (pc_close c) = conn_held c"
  "conn_held (pc_connect c) = conn_held c"
  by (simp_all add: asyncRead_def onHeaderSuccess_def pc_close_def pc_connect_def Let_def)

lemma outs_ids_simps [simp]:
  "outs_ids [] = {#}" "outs_ids (Called cb ec # outs) = cb_ids cb + outs_ids outs" "outs_ids (Ready # outs) = outs_ids outs"
  "outs_ids (Received m # outs) = outs_ids outs" "outs_ids (Wrote d # outs) = outs_ids outs" "outs_ids (outs @ outs') = outs_ids outs + outs_ids outs'"
  by (simp_all add: outs_ids_def)

lemma balanced_start: "m_onHandshakeDone c = None \<Longrightarrow> balanced c (pc_start c)"
  using balanced_notify [of c None] by (auto simp: balanced_def pc_start_def readLoop_def split: prod.split)

lemma balanced_onSuccess:
  assumes "m_onHandshakeDone c = None"
  shows "balanced c (fst (onSuccess hs op d c))"
proof (cases op)
  case OpConnect
  then show ?thesis
    using balanced_start [OF assms] assms by (simp add: onSuccess_def onConnect_def balanced_def split: option.split)
next
  case (OpData b)
  have "balanced c (pc_start (c\<lparr>m_inData := x\<rparr>))" for x
    using balanced_start [of "c\<lparr>m_inData := x\<rparr>"] assms by (simp add: balanced_def)
  then show ?thesis
    using OpData assms by (cases b) (auto simp: onSuccess_def onHandshakeReceived_def readLoop_def balanced_def split: option.split)
next
  case OpSend
  then show ?thesis
    using balanced_notify [OF assms, of None] by (auto simp: onSuccess_def onSent_def balanced_def split: prod.split)
qed (use assms in \<open>simp_all add: onSuccess_def onHandshakeSent_def balanced_def\<close>)

lemma balanced_onError:
  assumes "m_onHandshakeDone c = None"
  shows "balanced c (onError_begin ec c)" "balanced c (onError_finish ec c)"
  using balanced_notify [of "c\<lparr>m_recreateTimer := True\<rparr>" "Some ec"] assms
  by (simp_all add: onError_begin_def onError_finish_def balanced_def notify_handshake_def)

text \<open>Steps that keep the account.\<close>

definition keeps_account :: "ConnectionPool \<Rightarrow> ConnectionPool \<Rightarrow> bool" where
  "keeps_account s s' \<longleftrightarrow> accounted s' = accounted s \<and> pool_ok s' \<and> length (m_connections s') = length (m_connections s)"

lemma pool_ok_conn: "pool_ok s \<Longrightarrow> i < length (m_connections s) \<Longrightarrow> m_onHandshakeDone (m_connections s ! i) = None"
  by (simp add: pool_ok_def)

lemma keeps_account_on_conn:
  assumes "pool_ok s" "\<And>c. conn_held (f c) = conn_held c" "\<And>c. m_onHandshakeDone (f c) = m_onHandshakeDone c"
  shows "keeps_account s (on_conn i f s)"
  using pool_ok_on_conn [OF assms(1)] accounted_on_conn_same [OF assms(2)] assms(3) by (simp add: keeps_account_def)

lemma keeps_account_trans: "keeps_account s s' \<Longrightarrow> keeps_account s' s'' \<Longrightarrow> keeps_account s s''"
  by (simp add: keeps_account_def)

lemma keeps_account_ok: "keeps_account s s' \<Longrightarrow> i < length (m_connections s) \<Longrightarrow> pool_ok s' \<and> i < length (m_connections s')"
  by (simp add: keeps_account_def)

lemma finish_error_account:
  assumes "pool_ok s" "i < length (m_connections s)"
  shows "keeps_account s (finish_error i ec s)"
proof -
  have closed: "keeps_account s (snd (run_handler i (onError_finish ec) s))"
    using run_handler_accounted [OF assms, of "onError_finish ec"] balanced_onError(2) [OF pool_ok_conn [OF assms]] by (simp add: keeps_account_def)
  have "keeps_account (snd (run_handler i (onError_finish ec) s)) (finish_error i ec s)"
    unfolding finish_error_def using keeps_account_ok [OF closed assms(2)] by (intro keeps_account_on_conn) simp_all
  with closed show ?thesis
    by (rule keeps_account_trans)
qed

lemma onError_account:
  assumes "pool_ok s" "i < length (m_connections s)"
  shows "keeps_account s (onError i ec s)"
proof -
  obtain b s1 where s1: "run_handler i (onError_begin ec) s = (b, s1)"
    by (cases "run_handler i (onError_begin ec) s")
  have first: "keeps_account s s1"
    using run_handler_accounted [OF assms, of "onError_begin ec"] balanced_onError(1) [OF pool_ok_conn [OF assms]] s1 by (simp add: keeps_account_def)
  note ok = keeps_account_ok [OF first assms(2)]
  have "keeps_account s1 (on_conn i (\<lambda>c. c\<lparr>pc_thread := In_error ec\<rparr>) s1)" "keeps_account s1 (finish_error i ec s1)"
    using ok finish_error_account by (auto intro: keeps_account_on_conn)
  then show ?thesis
    using first by (auto simp: onError_def s1 intro: keeps_account_trans)
qed


text \<open>The callback that a posted send replaces while it is still waiting for its own result.\<close>

definition replaced :: "pool_event \<Rightarrow> ConnectionPool \<Rightarrow> nat multiset" where
  "replaced ev s =
     (case ev of
        Run_posted i \<Rightarrow> (let c = m_connections s ! i in if pc_connected c \<and> m_socket c then current_ids c else {#})
      | _ \<Rightarrow> {#})"

definition sent_ids :: "pool_event \<Rightarrow> nat multiset" where
  "sent_ids ev = (case ev of SendMsg m k r \<Rightarrow> {#k#} | _ \<Rightarrow> {#})"

lemma ms_balance:
  fixes a b k :: "nat multiset"
  assumes "a + h = b + h'" "h' + cur = h + k" "b + k = d"
  shows "a + cur = d"
proof (rule multiset_eqI)
  fix x
  show "count (a + cur) x = count d x"
    using assms [THEN arg_cong, of "\<lambda>m. count m x"] by simp
qed

lemma run_posted_accounted:
  assumes ok: "pool_ok s" and i: "i < length (m_connections s)" and posted: "pc_posted (m_connections s ! i) \<noteq> []"
  shows "accounted (run_posted i s) + replaced (Run_posted i) s = accounted s \<and> pool_ok (run_posted i s)"
proof -
  obtain m cb rest where p: "pc_posted (m_connections s ! i) = (m, cb) # rest"
    using posted by (cases "pc_posted (m_connections s ! i)") auto
  let ?c = "m_connections s ! i" and ?f = "\<lambda>c. c\<lparr>pc_posted := rest\<rparr>"
  let ?s1 = "on_conn i ?f s"
  have c1: "m_connections ?s1 ! i = ?f ?c"
    using i by (simp add: on_conn_def)
  have ok1: "pool_ok ?s1" "i < length (m_connections ?s1)"
    using pool_ok_on_conn [OF ok, of ?f i] i by simp_all
  have held: "conn_held ?c = conn_held (?f ?c) + cb_ids cb"
    by (simp add: conn_held_def current_ids_def p)
  have acc1: "accounted ?s1 + cb_ids cb = accounted s"
    using accounted_on_conn [OF i, of ?f] by (simp add: held ac_simps)
  show ?thesis
  proof (cases "pc_connected ?c \<and> m_socket ?c")
    case True
    let ?g = "\<lambda>c. createCallback OpSend (prepareOutBuffer m (c\<lparr>m_callback := Some cb\<rparr>))"
    have kept: "conn_held (?g (?f ?c)) + current_ids ?c = conn_held (?f ?c) + cb_ids cb"
      by (simp add: conn_held_def current_ids_def createCallback_def prepareOutBuffer_def ac_simps)
    have "accounted (on_conn i ?g ?s1) + current_ids ?c = accounted s"
      by (rule ms_balance [OF accounted_on_conn [OF ok1(2), of ?g, unfolded c1] kept acc1])
    moreover have "pool_ok (on_conn i ?g ?s1)"
      by (rule pool_ok_on_conn [OF ok1(1)]) simp
    ultimately show ?thesis
      using True by (simp add: run_posted_def p replaced_def Let_def c1)
  next
    case False
    obtain b s2 where s2: "run_callback i cb (Some ENOTCONN) ?s1 = (b, s2)"
      by (cases "run_callback i cb (Some ENOTCONN) ?s1")
    have acc2: "accounted s2 = accounted s" "pool_ok s2"
      using run_callback_accounted [OF ok1, of cb "Some ENOTCONN"] acc1 s2 by simp_all
    have "keeps_account s2 (on_conn i (\<lambda>c. c\<lparr>pc_thread := In_send\<rparr>) s2)"
      by (rule keeps_account_on_conn [OF acc2(2)]) simp_all
    then show ?thesis
      using False acc2 s2 by (auto simp: run_posted_def p replaced_def Let_def c1 keeps_account_def)
  qed
qed

lemma wake_account:
  assumes ok: "pool_ok s" and k: "k < length (cp_waiting s)" and idle: "m_idleConnections s \<noteq> []"
  shows "keeps_account s (wake k s)"
proof -
  obtain i rest where i: "m_idleConnections s = i # rest"
    using idle by (cases "m_idleConnections s") auto
  obtain who m cb where w: "cp_waiting s ! k = (who, m, cb)"
    by (cases "cp_waiting s ! k")
  let ?s0 = "s\<lparr>m_idleConnections := rest, cp_waiting := take k (cp_waiting s) @ drop (Suc k) (cp_waiting s)\<rparr>"
  let ?s1 = "conn_send i m cb ?s0"
  have "accounted ?s0 + cb_ids cb = accounted s"
    using sum_list_remove_ms [OF k, of "\<lambda>(who, m, cb). cb_ids cb"] w
    by (simp add: accounted_def pending_callbacks_def called_callbacks_def ac_simps)
  moreover have ok0: "pool_ok ?s0" "i < length (m_connections ?s0)"
    using ok i by (auto simp: pool_ok_def dest!: in_set_takeD in_set_dropD)
  ultimately have sent: "keeps_account s ?s1"
    using conn_send_accounted [OF ok0, of m cb] by (simp add: keeps_account_def)
  have who: "j < length (m_connections s)" if "who = Some j" for j
    using ok nth_mem [OF k] w that by (auto simp: pool_ok_def)
  show ?thesis
  proof (cases who)
    case None
    then show ?thesis
      using sent by (simp add: wake_def i w Let_def)
  next
    case (Some j)
    note ok1 = keeps_account_ok [OF sent who [OF Some]]
    have "keeps_account ?s1 (finish_error j ec ?s1)" "keeps_account ?s1 (on_conn j (\<lambda>c. c\<lparr>pc_thread := Running\<rparr>) ?s1)" for ec
      using ok1 finish_error_account by (auto intro: keeps_account_on_conn)
    from this [THEN keeps_account_trans [OF sent]] show ?thesis
      by (auto simp: wake_def i w Some Let_def split: conn_thread.split)
  qed
qed

lemma succeeds_account:
  assumes ok: "pool_ok s" and i: "i < length (m_connections s)" and r: "onSuccess hs op d (m_connections s ! i) = (r, ec)"
  shows "keeps_account s (case ec of None \<Rightarrow> snd (run_handler i (\<lambda>_. r) s) | Some e \<Rightarrow> onError i e (snd (run_handler i (\<lambda>_. r) s)))"
proof -
  have ran: "keeps_account s (snd (run_handler i (\<lambda>_. r) s))"
    using run_handler_accounted [OF ok i, of "\<lambda>_. r"] balanced_onSuccess [OF pool_ok_conn [OF ok i], of hs op d] r
    by (simp add: keeps_account_def)
  show ?thesis
    using ran keeps_account_trans [OF ran onError_account] keeps_account_ok [OF ran i] by (simp split: option.split)
qed

lemma pool_step_accounted:
  assumes ok: "pool_ok s" and step: "pool_step hs ev s = Some s'"
  shows "accounted s' + replaced ev s = accounted s + sent_ids ev \<and> pool_ok s'"
proof (cases ev)
  case (SendMsg m k r)
  then show ?thesis
    using pool_send_accounted [OF ok, of None m "Retry m k r"] step
    by (auto simp: pool_step_def retrier_send_def replaced_def sent_ids_def cb_ids_def)
next
  case (Wake k)
  then show ?thesis
    using wake_account [OF ok, of k] step by (auto simp: pool_step_def replaced_def sent_ids_def keeps_account_def split: if_splits)
next
  case (Run_posted i)
  then show ?thesis
    using run_posted_accounted [OF ok, of i] step by (auto simp: pool_step_def free_conn_def sent_ids_def split: if_splits)
next
  case (Succeeds i k d)
  then have i: "i < length (m_connections s)"
    using step by (auto simp: pool_step_def free_conn_def split: if_splits)
  have taken: "keeps_account s (take_op i k s)"
    unfolding take_op_def by (rule keeps_account_on_conn [OF ok]) simp_all
  note ok1 = keeps_account_ok [OF taken i]
  have "keeps_account s s'"
    using step Succeeds taken keeps_account_trans [OF taken succeeds_account [of "take_op i k s" i hs _ d]] ok1
    by (auto simp: pool_step_def Let_def split: if_splits prod.splits)
  then show ?thesis
    using Succeeds by (simp add: keeps_account_def replaced_def sent_ids_def)
next
  case (Fails i k e)
  then have i: "i < length (m_connections s)"
    using step by (auto simp: pool_step_def free_conn_def split: if_splits)
  have taken: "keeps_account s (take_op i k s)"
    unfolding take_op_def by (rule keeps_account_on_conn [OF ok]) simp_all
  note ok1 = keeps_account_ok [OF taken i]
  have "keeps_account s s'"
    using step Fails taken keeps_account_trans [OF taken onError_account [of "take_op i k s" i e]] ok1
    by (auto simp: pool_step_def Let_def split: if_splits)
  then show ?thesis
    using Fails by (simp add: keeps_account_def replaced_def sent_ids_def)
next
  case (Timer i)
  have "keeps_account s (on_conn i (\<lambda>c. pc_connect (c\<lparr>m_recreateTimer := False\<rparr>)) s)"
    by (rule keeps_account_on_conn [OF ok]) simp_all
  then show ?thesis
    using Timer step by (auto simp: pool_step_def keeps_account_def replaced_def sent_ids_def split: if_splits)
qed


section \<open>Readiness\<close>

text \<open>
  A connection that is ready is announced once: it is idle, or a send was posted to it, or a message
  is on its way. The number of these must not exceed one.
\<close>

definition in_flight :: "PersistentConnection \<Rightarrow> nat" where
  "in_flight c = (if pc_connected c \<and> m_callback c \<noteq> None then 1 else 0)"

definition tokens :: "nat \<Rightarrow> ConnectionPool \<Rightarrow> nat" where
  "tokens i s = count_list (m_idleConnections s) i + length (pc_posted (m_connections s ! i)) + in_flight (m_connections s ! i)"

text \<open>The operations in progress on the present socket, counted by kind.\<close>

definition ncur :: "(op \<Rightarrow> bool) \<Rightarrow> PersistentConnection \<Rightarrow> nat" where
  "ncur P c = length (filter (\<lambda>(op, cid). cid = m_connectionId c \<and> P op) (pc_pending c))"

definition setup_op :: "op \<Rightarrow> bool" where
  "setup_op op \<longleftrightarrow> op = OpConnect \<or> op = OpHandshake \<or> op = OpHeader True \<or> op = OpData True"

definition phase_ok :: "PersistentConnection \<Rightarrow> bool" where
  "phase_ok c \<longleftrightarrow>
     (case pc_thread c of
        In_error ec \<Rightarrow> m_socket c \<and> m_callback c = None
      | _ \<Rightarrow>
          (\<not> m_socket c \<longrightarrow> ncur (\<lambda>_. True) c = 0 \<and> \<not> pc_connected c) \<and>
          (m_recreateTimer c \<longrightarrow> \<not> m_socket c) \<and>
          (pc_connected c \<longrightarrow> ncur setup_op c = 0) \<and> ncur setup_op c \<le> 1 \<and>
          (0 < ncur (\<lambda>op. \<not> setup_op op) c \<longrightarrow> pc_connected c) \<and>
          ncur ((=) OpSend) c = in_flight c)"

definition conn_inv :: "nat \<Rightarrow> PersistentConnection \<Rightarrow> bool" where
  "conn_inv n c \<longleftrightarrow>
     unat (m_connectionId c) \<le> n \<and> (\<forall>(op, cid) \<in> set (pc_pending c). cid \<le> m_connectionId c) \<and> phase_ok c"

definition ready_inv :: "nat \<Rightarrow> ConnectionPool \<Rightarrow> bool" where
  "ready_inv n s \<longleftrightarrow> (\<forall>j < length (m_connections s). conn_inv n (m_connections s ! j) \<and> tokens j s \<le> 1)"

lemma ncur_createCallback [simp]: "ncur P (createCallback op c) = ncur P c + (if P op then 1 else 0)"
  by (simp add: ncur_def createCallback_def)

lemma ncur_remove:
  assumes "k < length (pc_pending c)" "pc_pending c ! k = (op, cid)"
  shows "ncur P (c\<lparr>pc_pending := take k (pc_pending c) @ drop (Suc k) (pc_pending c)\<rparr>) +
    (if cid = m_connectionId c \<and> P op then 1 else 0) = ncur P c"
proof -
  have split: "pc_pending c = take k (pc_pending c) @ (op, cid) # drop (Suc k) (pc_pending c)"
    using id_take_nth_drop [OF assms(1)] assms(2) by simp
  show ?thesis
    unfolding ncur_def by (subst (3) split) simp
qed

lemma ncur_zero: "ncur (\<lambda>_. True) c = 0 \<Longrightarrow> ncur P c = 0"
  by (auto simp: ncur_def filter_empty_conv)

lemma ncur_simps [simp]:
  "ncur P (c\<lparr>m_callback := cb\<rparr>) = ncur P c" "ncur P (c\<lparr>pc_posted := ps\<rparr>) = ncur P c" "ncur P (c\<lparr>pc_connected := b\<rparr>) = ncur P c"
  "ncur P (c\<lparr>m_socket := b\<rparr>) = ncur P c" "ncur P (c\<lparr>m_recreateTimer := b\<rparr>) = ncur P c" "ncur P (c\<lparr>m_inData := d\<rparr>) = ncur P c"
  "ncur P (c\<lparr>m_inHeader := d\<rparr>) = ncur P c" "ncur P (c\<lparr>pc_thread := t\<rparr>) = ncur P c" "ncur P (prepareOutBuffer m c) = ncur P c"
  by (simp_all add: ncur_def prepareOutBuffer_def)

lemma in_flight_simps [simp]:
  "in_flight (createCallback op c) = in_flight c" "in_flight (prepareOutBuffer m c) = in_flight c"
  "in_flight (c\<lparr>pc_posted := ps\<rparr>) = in_flight c" "in_flight (c\<lparr>m_socket := b\<rparr>) = in_flight c"
  "in_flight (c\<lparr>m_recreateTimer := b\<rparr>) = in_flight c" "in_flight (c\<lparr>m_inData := d\<rparr>) = in_flight c"
  "in_flight (c\<lparr>m_inHeader := d\<rparr>) = in_flight c" "in_flight (c\<lparr>pc_thread := t\<rparr>) = in_flight c"
  "in_flight (c\<lparr>pc_pending := ps'\<rparr>) = in_flight c" "in_flight (c\<lparr>m_callback := None\<rparr>) = 0" "m_callback c = None \<Longrightarrow> in_flight c = 0"
  by (simp_all add: in_flight_def createCallback_def prepareOutBuffer_def)

text \<open>The invariant of a connection does not look at the posted sends.\<close>

lemma conn_inv_posted [simp]: "conn_inv n (c\<lparr>pc_posted := ps\<rparr>) = conn_inv n c"
  by (simp add: conn_inv_def phase_ok_def split: conn_thread.split)

lemma conn_inv_mono: "conn_inv n c \<Longrightarrow> n \<le> m \<Longrightarrow> conn_inv m c"
  by (simp add: conn_inv_def)

lemma conns_on_conn: "m_connections (on_conn i f s) ! j = (if j = i \<and> i < length (m_connections s) then f (m_connections s ! i) else m_connections s ! j)"
proof (cases "i < length (m_connections s)")
  case True
  then show ?thesis
    by (cases "j = i") (simp_all add: on_conn_def)
qed (simp add: on_conn_beyond)

text \<open>Predicates on a connection that do not look at its posted sends, whatever else happens around it.\<close>

definition posted_blind :: "(PersistentConnection \<Rightarrow> bool) \<Rightarrow> bool" where
  "posted_blind Q \<longleftrightarrow> (\<forall>c ps. Q (c\<lparr>pc_posted := ps\<rparr>) = Q c)"

lemma posted_blind_inv: "posted_blind (conn_inv n)"
  by (simp add: posted_blind_def)

text \<open>The invariant of the pool while connection \<open>i\<close> is inside a handler and satisfies \<open>Q\<close>.\<close>

definition ready_at :: "nat \<Rightarrow> (PersistentConnection \<Rightarrow> bool) \<Rightarrow> nat \<Rightarrow> ConnectionPool \<Rightarrow> bool" where
  "ready_at i Q n s \<longleftrightarrow>
     (\<forall>j < length (m_connections s). tokens j s \<le> 1 \<and> (if j = i then Q else conn_inv n) (m_connections s ! j))"

lemma ready_at_inv: "ready_inv n s \<longleftrightarrow> ready_at i (conn_inv n) n s"
  by (auto simp: ready_inv_def ready_at_def)

lemma ready_at_mono: "ready_at i Q n s \<Longrightarrow> n \<le> m \<Longrightarrow> ready_at i Q m s"
  using conn_inv_mono by (auto simp: ready_at_def split: if_splits)

lemma ready_at_weaken: "ready_at i Q n s \<Longrightarrow> (\<And>c. Q c \<Longrightarrow> Q' c) \<Longrightarrow> ready_at i Q' n s"
  by (auto simp: ready_at_def)

lemma ready_at_on_conn:
  assumes "ready_at i Q n s" "\<And>c. Q c \<Longrightarrow> Q' (f c)"
    and "\<And>c. length (pc_posted (f c)) + in_flight (f c) \<le> length (pc_posted c) + in_flight c"
  shows "ready_at i Q' n (on_conn i f s)"
proof -
  have "m_idleConnections (on_conn i f s) = m_idleConnections s"
    by (simp add: on_conn_def)
  then have "tokens j (on_conn i f s) \<le> tokens j s" for j
    using assms(3) [of "m_connections s ! i"] by (auto simp: tokens_def conns_on_conn)
  then show ?thesis
    using assms(1,2) unfolding ready_at_def by (auto simp: conns_on_conn intro: le_trans)
qed

lemma conn_send_ready:
  fixes m :: string and cb :: callback
  assumes "j < length (m_connections s)" "m_idleConnections s = i # idle" "posted_blind Q"
  defines "s' \<equiv> conn_send i m cb (s\<lparr>m_idleConnections := idle\<rparr>)"
  shows "tokens j s' \<le> tokens j s \<and> Q (m_connections s' ! j) = Q (m_connections s ! j)"
proof -
  have idle: "m_idleConnections s' = idle"
    by (simp add: s'_def conn_send_def on_conn_def)
  have conn: "m_connections s' ! j = (if j = i then (m_connections s ! j)\<lparr>pc_posted := pc_posted (m_connections s ! j) @ [(m, cb)]\<rparr> else m_connections s ! j)"
    using assms(1) by (auto simp: s'_def conn_send_def conns_on_conn)
  show ?thesis
    unfolding tokens_def idle conn using assms(2,3) by (simp add: count_list_append posted_blind_def)
qed

lemma pool_send_ready:
  assumes "j < length (m_connections s)" "posted_blind Q"
  shows "tokens j (snd (pool_send who m cb s)) \<le> tokens j s \<and> Q (m_connections (snd (pool_send who m cb s)) ! j) = Q (m_connections s ! j)"
  using conn_send_ready [OF assms(1) _ assms(2), where m = m and cb = cb] by (simp add: pool_send_def tokens_def split: list.split)

lemma run_callback_ready:
  assumes "j < length (m_connections s)" "posted_blind Q"
  shows "tokens j (snd (run_callback i cb ec s)) \<le> tokens j s \<and> Q (m_connections (snd (run_callback i cb ec s)) ! j) = Q (m_connections s ! j)"
  using pool_send_ready [OF assms] by (simp add: run_callback_def tokens_def split: callback.split)

lemma length_emit_output [simp]: "length (m_connections (snd (emit_output i x s))) = length (m_connections s)"
  by (cases x) (simp_all add: onConnectionReady_def)

lemma length_emit_outputs [simp]: "length (m_connections (snd (emit_outputs i outs s))) = length (m_connections s)"
  by (induction outs arbitrary: s) (simp_all add: case_prod_unfold Let_def)

lemma emit_outputs_ready:
  assumes "j < length (m_connections s)" and Q: "posted_blind Q"
  shows "tokens j (snd (emit_outputs i outs s)) \<le> tokens j s + (if j = i then count_list outs Ready else 0) \<and>
    Q (m_connections (snd (emit_outputs i outs s)) ! j) = Q (m_connections s ! j)"
  using assms(1)
proof (induction outs arbitrary: s)
  case (Cons x outs)
  have "tokens j (snd (emit_output i x s)) \<le> tokens j s + (if j = i \<and> x = Ready then 1 else 0) \<and>
      Q (m_connections (snd (emit_output i x s)) ! j) = Q (m_connections s ! j)"
    using run_callback_ready [OF Cons.prems Q, where i = i] by (cases x) (simp_all add: onConnectionReady_def tokens_def count_list_append)
  then show ?case
    using Cons.IH [of "snd (emit_output i x s)"] Cons.prems by (auto simp: case_prod_unfold Let_def split: if_splits)
qed simp

lemma length_run_handler [simp]: "length (m_connections (snd (run_handler i f s))) = length (m_connections s)"
  by (simp add: run_handler_def case_prod_unfold Let_def)

lemma run_handler_ready:
  assumes s: "ready_at i Q n s" and i: "i < length (m_connections s)" and f: "f (m_connections s ! i) = (c, outs)" and Q': "posted_blind Q'" "Q' c"
    and c: "count_list (m_idleConnections s) i + length (pc_posted c) + in_flight c + count_list outs Ready \<le> 1"
  shows "ready_at i Q' n (snd (run_handler i f s))"
proof -
  let ?s1 = "s\<lparr>m_connections := (m_connections s)[i := c]\<rparr>"
  have before: "(if j = i then Q' else conn_inv n) (m_connections ?s1 ! j)" "tokens j ?s1 + (if j = i then count_list outs Ready else 0) \<le> 1"
    if "j < length (m_connections s)" for j
    using s i Q'(2) c that by (auto simp: ready_at_def tokens_def nth_list_update)
  have s': "snd (run_handler i f s) = snd (emit_outputs i outs ?s1)"
    by (simp add: run_handler_def f)
  have blind: "posted_blind (if j = i then Q' else conn_inv n)" for j
    using Q'(1) posted_blind_inv by simp
  show ?thesis
    unfolding ready_at_def s'
  proof (intro allI impI)
    fix j
    assume "j < length (m_connections (snd (emit_outputs i outs ?s1)))"
    then have j: "j < length (m_connections s)"
      by simp
    with emit_outputs_ready [of j ?s1 _ i outs, OF _ blind [of j]] before [OF j]
    show "tokens j (snd (emit_outputs i outs ?s1)) \<le> 1 \<and> (if j = i then Q' else conn_inv n) (m_connections (snd (emit_outputs i outs ?s1)) ! j)"
      by (metis (no_types, lifting) ConnectionPool.select_convs(2) ConnectionPool.surjective ConnectionPool.update_convs(2) le_trans length_list_update)
  qed
qed

text \<open>Closing a connection after an error.\<close>

definition open_conn :: "nat \<Rightarrow> PersistentConnection \<Rightarrow> bool" where
  "open_conn n c \<longleftrightarrow> m_socket c \<and> unat (m_connectionId c) \<le> n \<and> (\<forall>(op, cid) \<in> set (pc_pending c). cid \<le> m_connectionId c)"

definition erring :: "nat \<Rightarrow> PersistentConnection \<Rightarrow> bool" where
  "erring n c \<longleftrightarrow> open_conn n c \<and> m_callback c = None"

lemma posted_blind_erring: "posted_blind (erring n)" "posted_blind (\<lambda>c. conn_inv n (c\<lparr>pc_thread := Running\<rparr>))"
  "posted_blind (\<lambda>c. conn_inv n c \<and> m_socket c)"
proof -
  have swap: "c\<lparr>pc_posted := ps, pc_thread := Running\<rparr> = c\<lparr>pc_thread := Running, pc_posted := ps\<rparr>" for c :: PersistentConnection and ps
    by simp
  show "posted_blind (\<lambda>c. conn_inv n (c\<lparr>pc_thread := Running\<rparr>))"
    unfolding posted_blind_def swap by simp
qed (simp_all add: posted_blind_def erring_def open_conn_def)

lemma closed_inv:
  assumes "erring n c" "Suc n < 2 ^ 32"
  shows "conn_inv (Suc n) ((pc_close c)\<lparr>pc_thread := Running\<rparr>)"
proof -
  let ?id = "m_connectionId c"
  have "unat (?id + 1) = unat ?id + 1"
    using assms by (simp add: erring_def open_conn_def unat_word_ariths)
  then have up: "unat (?id + 1) \<le> Suc n" "?id < ?id + 1"
    using assms(1) by (simp_all add: erring_def open_conn_def word_less_nat_alt)
  have old: "cid < ?id + 1" if "(op, cid) \<in> set (pc_pending c)" for op cid
    using assms(1) that up(2) by (fastforce simp: erring_def open_conn_def)
  have "ncur P ((pc_close c)\<lparr>pc_thread := Running\<rparr>) = 0" for P
    using old assms(1) by (fastforce simp: ncur_def pc_close_def erring_def open_conn_def filter_empty_conv)
  then show ?thesis
    using assms(1) up(1) old by (auto simp: conn_inv_def phase_ok_def pc_close_def erring_def open_conn_def order.strict_iff_order)
qed

lemma finish_error_ready:
  assumes "ready_at i (erring n) n s" "i < length (m_connections s)" "Suc n < 2 ^ 32" "pool_ok s"
  shows "ready_inv (Suc n) (finish_error i ec s)"
proof -
  let ?c = "m_connections s ! i"
  have c: "erring n ?c" "tokens i s \<le> 1"
    using assms(1,2) by (auto simp: ready_at_def)
  have small: "pc_posted (pc_close ?c) = pc_posted ?c" "in_flight (pc_close ?c) = 0"
    using c(1) by (simp_all add: pc_close_def erring_def open_conn_def in_flight_def)
  have closing: "onError_finish ec ?c = (pc_close ?c, [])"
    using pool_ok_conn [OF assms(4,2)] by (simp add: onError_finish_def notify_handshake_def)
  have "ready_at i (\<lambda>c. conn_inv (Suc n) (c\<lparr>pc_thread := Running\<rparr>)) (Suc n) (snd (run_handler i (onError_finish ec) s))"
    by (rule run_handler_ready [where f = "onError_finish ec" and c = "pc_close ?c" and outs = "[]" and Q = "erring n"])
      (use c small closing assms(2) ready_at_mono [OF assms(1), of "Suc n"] posted_blind_erring(2) closed_inv [OF c(1) assms(3)] in \<open>simp_all add: tokens_def\<close>)
  then show ?thesis
    unfolding finish_error_def ready_at_inv [of _ _ i] by (rule ready_at_on_conn) simp_all
qed

lemma onError_ready:
  assumes "ready_at i (open_conn n) n s" "i < length (m_connections s)" "Suc n < 2 ^ 32" "pool_ok s"
  shows "ready_inv (Suc n) (onError i ec s)"
proof -
  let ?c = "m_connections s ! i"
  obtain c outs where c: "onError_begin ec ?c = (c, outs)"
    by (cases "onError_begin ec ?c")
  obtain b s1 where s1: "run_handler i (onError_begin ec) s = (b, s1)"
    by (cases "run_handler i (onError_begin ec) s")
  have inv: "open_conn n ?c" "tokens i s \<le> 1"
    using assms(1,2) by (auto simp: ready_at_def)
  have fields: "erring n c" "pc_posted c = pc_posted ?c" "count_list outs Ready = 0"
    using c inv by (auto simp: onError_begin_def notify_callback_def erring_def open_conn_def conn_inv_def split: option.splits)
  have "ready_at i (erring n) n (snd (run_handler i (onError_begin ec) s))"
    by (rule run_handler_ready [where f = "onError_begin ec" and c = c and outs = outs, OF assms(1,2) c])
      (use fields inv(2) posted_blind_erring(1) in \<open>simp_all add: tokens_def erring_def open_conn_def\<close>)
  then have began: "ready_at i (erring n) n s1" "length (m_connections s1) = length (m_connections s)"
    using s1 length_run_handler [of i "onError_begin ec" s] by simp_all
  have ok1: "pool_ok s1"
    using run_handler_accounted [OF assms(4,2), of "onError_begin ec"] balanced_onError(1) [OF pool_ok_conn [OF assms(4,2)]] s1 by simp
  have "ready_at i (conn_inv n) n (on_conn i (\<lambda>c. c\<lparr>pc_thread := In_error ec\<rparr>) s1)"
    by (rule ready_at_on_conn [OF began(1)]) (simp_all add: erring_def open_conn_def conn_inv_def phase_ok_def)
  then have "ready_inv (Suc n) (on_conn i (\<lambda>c. c\<lparr>pc_thread := In_error ec\<rparr>) s1)"
    using conn_inv_mono unfolding ready_at_inv [of _ _ i, symmetric] ready_inv_def by (metis le_SucI order_refl)
  then show ?thesis
    using finish_error_ready [OF began(1) _ assms(3) ok1] began(2) assms(2) by (simp add: onError_def s1)
qed

text \<open>The operations whose success makes a connection ready.\<close>

definition starting :: "handshake \<Rightarrow> op \<Rightarrow> string \<Rightarrow> bool" where
  "starting hs op d \<longleftrightarrow>
     op = OpConnect \<and> m_getHandshake hs = None \<or>
     op = OpData True \<and> (case m_onHandshakeResponse hs of None \<Rightarrow> True | Some f \<Rightarrow> f d = None)"

lemma pc_start_inv:
  assumes "unat (m_connectionId c) \<le> n" "\<forall>(op, cid) \<in> set (pc_pending c). cid \<le> m_connectionId c" "m_socket c" "\<not> m_recreateTimer c"
    "ncur setup_op c = 0" "ncur ((=) OpSend) c = 0" "pc_thread c = Running" "m_onHandshakeDone c = None" "pc_start c = (c', outs)"
  shows "conn_inv n c' \<and> m_socket c' \<and> pc_posted c' = pc_posted c \<and> m_callback c' = None \<and> count_list outs Ready = 1"
  using assms by (auto simp: pc_start_def pc_notify_def notify_callback_def notify_handshake_def readLoop_def asyncRead_def
      conn_inv_def phase_ok_def createCallback_def ncur_def setup_op_def in_flight_def split: option.splits prod.splits)


definition without_op :: "nat \<Rightarrow> PersistentConnection \<Rightarrow> PersistentConnection" where
  "without_op k c = c\<lparr>pc_pending := take k (pc_pending c) @ drop (Suc k) (pc_pending c)\<rparr>"

lemma without_op_simps [simp]:
  "m_socket (without_op k c) = m_socket c" "pc_connected (without_op k c) = pc_connected c" "m_connectionId (without_op k c) = m_connectionId c"
  "m_recreateTimer (without_op k c) = m_recreateTimer c" "pc_thread (without_op k c) = pc_thread c" "m_callback (without_op k c) = m_callback c"
  "pc_posted (without_op k c) = pc_posted c" "m_onHandshakeDone (without_op k c) = m_onHandshakeDone c" "in_flight (without_op k c) = in_flight c"
  "m_inData (without_op k c) = m_inData c"
  by (simp_all add: without_op_def)

lemma without_op_pending: "x \<in> set (pc_pending (without_op k c)) \<Longrightarrow> x \<in> set (pc_pending c)"
  by (auto simp: without_op_def dest: in_set_takeD in_set_dropD)

lemma ncur_without_op:
  assumes "k < length (pc_pending c)" "pc_pending c ! k = (op, cid)"
  shows "ncur P (without_op k c) + (if cid = m_connectionId c \<and> P op then 1 else 0) = ncur P c"
  using ncur_remove [OF assms] by (simp add: without_op_def)

lemma running_phase:
  assumes "conn_inv n c" "pc_thread c = Running"
  shows "\<not> m_socket c \<longrightarrow> ncur (\<lambda>_. True) c = 0 \<and> \<not> pc_connected c" "m_recreateTimer c \<longrightarrow> \<not> m_socket c"
    "pc_connected c \<longrightarrow> ncur setup_op c = 0" "ncur setup_op c \<le> 1" "0 < ncur (\<lambda>op. \<not> setup_op op) c \<longrightarrow> pc_connected c"
    "ncur ((=) OpSend) c = in_flight c" "unat (m_connectionId c) \<le> n" "\<forall>(op, cid) \<in> set (pc_pending c). cid \<le> m_connectionId c"
  using assms by (simp_all add: conn_inv_def phase_ok_def)

lemma running_phaseI:
  assumes "\<not> m_socket c \<longrightarrow> ncur (\<lambda>_. True) c = 0 \<and> \<not> pc_connected c" "m_recreateTimer c \<longrightarrow> \<not> m_socket c"
    "pc_connected c \<longrightarrow> ncur setup_op c = 0" "ncur setup_op c \<le> 1" "0 < ncur (\<lambda>op. \<not> setup_op op) c \<longrightarrow> pc_connected c"
    "ncur ((=) OpSend) c = in_flight c" "unat (m_connectionId c) \<le> n" "\<forall>(op, cid) \<in> set (pc_pending c). cid \<le> m_connectionId c"
    "pc_thread c = Running"
  shows "conn_inv n c"
  using assms by (simp add: conn_inv_def phase_ok_def)

lemma createCallback_simps [simp]:
  "m_socket (createCallback op c) = m_socket c" "pc_connected (createCallback op c) = pc_connected c" "m_connectionId (createCallback op c) = m_connectionId c"
  "m_recreateTimer (createCallback op c) = m_recreateTimer c" "pc_thread (createCallback op c) = pc_thread c" "m_callback (createCallback op c) = m_callback c"
  "pc_posted (createCallback op c) = pc_posted c" "pc_pending (createCallback op c) = pc_pending c @ [(op, m_connectionId c)]"
  by (simp_all add: createCallback_def)

lemma stale_removed_inv:
  assumes "conn_inv n c" "pc_thread c = Running" "k < length (pc_pending c)" "pc_pending c ! k = (op, cid)" "cid \<noteq> m_connectionId c"
  shows "conn_inv n (without_op k c)"
proof -
  have same: "ncur P (without_op k c) = ncur P c" for P
    using ncur_without_op [OF assms(3,4), of P] assms(5) by simp
  show ?thesis
    using running_phase [OF assms(1,2)] assms(2) without_op_pending [of _ k c] by (intro running_phaseI) (auto simp: same)
qed

text \<open>What a successful operation leaves behind: first the facts on the connection without that operation.\<close>

definition op_done :: "nat \<Rightarrow> nat \<Rightarrow> op \<Rightarrow> PersistentConnection \<Rightarrow> bool" where
  "op_done n k op c \<longleftrightarrow>
     conn_inv n c \<and> pc_thread c = Running \<and> m_onHandshakeDone c = None \<and> k < length (pc_pending c) \<and> pc_pending c ! k = (op, m_connectionId c)"

lemma ncur_send: "ncur ((=) OpSend) c \<le> ncur (\<lambda>op. \<not> setup_op op) c"
proof -
  have "filter (\<lambda>(op, cid). cid = m_connectionId c \<and> OpSend = op) (pc_pending c) =
      filter (\<lambda>(op, cid). cid = m_connectionId c \<and> OpSend = op) (filter (\<lambda>(op, cid). cid = m_connectionId c \<and> \<not> setup_op op) (pc_pending c))"
    by (auto simp: setup_op_def intro!: filter_cong)
  then show ?thesis
    unfolding ncur_def by (metis length_filter_le)
qed

lemma op_done_facts:
  assumes "op_done n k op c"
  shows "m_socket c" "\<not> m_recreateTimer c" "\<forall>(op, cid) \<in> set (pc_pending (without_op k c)). cid \<le> m_connectionId c"
    "pc_thread c = Running" "m_onHandshakeDone c = None" "unat (m_connectionId c) \<le> n"
    "ncur ((=) OpSend) (without_op k c) + (if op = OpSend then 1 else 0) = in_flight c"
    "ncur setup_op (without_op k c) = 0" "pc_connected c \<longleftrightarrow> \<not> setup_op op" "setup_op op \<Longrightarrow> ncur (\<lambda>op. \<not> setup_op op) (without_op k c) = 0"
    "setup_op op \<Longrightarrow> in_flight c = 0"
proof -
  have inv: "conn_inv n c" "pc_thread c = Running" "m_onHandshakeDone c = None" and k: "k < length (pc_pending c)" "pc_pending c ! k = (op, m_connectionId c)"
    using assms by (simp_all add: op_done_def)
  note ph = running_phase [OF inv(1,2)] and less = ncur_without_op [OF k]
  show "m_socket c"
    using ph(1) less [of "\<lambda>_. True"] by (cases "m_socket c") auto
  with ph(2) show "\<not> m_recreateTimer c"
    by simp
  show "\<forall>(op, cid) \<in> set (pc_pending (without_op k c)). cid \<le> m_connectionId c"
    using ph(8) without_op_pending by blast
  show "ncur ((=) OpSend) (without_op k c) + (if op = OpSend then 1 else 0) = in_flight c"
    using less [of "(=) OpSend"] ph(6) by auto
  show up: "pc_connected c \<longleftrightarrow> \<not> setup_op op"
    using less [of setup_op] less [of "\<lambda>op. \<not> setup_op op"] ph(3,5) by auto
  show "ncur setup_op (without_op k c) = 0"
    using less [of setup_op] ph(3,4) up by (auto split: if_splits)
  show "ncur (\<lambda>op. \<not> setup_op op) (without_op k c) = 0" "in_flight c = 0" if "setup_op op"
    using less [of "\<lambda>op. \<not> setup_op op"] ph(5,6) ncur_send [of c] up that by auto
  show "pc_thread c = Running" "m_onHandshakeDone c = None" "unat (m_connectionId c) \<le> n"
    using inv ph(7) by simp_all
qed

text \<open>Then the ways in which a handler goes on: it makes the connection ready, it starts the next operation, or it fails.\<close>

definition goes_on :: "nat \<Rightarrow> nat \<Rightarrow> PersistentConnection \<Rightarrow> PersistentConnection \<Rightarrow> conn_output list \<Rightarrow> bool" where
  "goes_on n most c c' outs \<longleftrightarrow>
     conn_inv n c' \<and> m_socket c' \<and> pc_posted c' = pc_posted c \<and> in_flight c' + count_list outs Ready \<le> most"

lemma goes_on_start:
  assumes "op_done n k op c" "setup_op op" "pc_start (without_op k c\<lparr>m_inData := x\<rparr>) = (c', outs)"
  shows "goes_on n 1 c c' outs"
  using pc_start_inv [OF _ _ _ _ _ _ _ _ assms(3), of n] op_done_facts [OF assms(1)] assms(2) by (auto simp: goes_on_def setup_op_def)

lemma goes_on_same:
  assumes "op_done n k op c" "op \<noteq> OpSend" "c' = without_op k c\<lparr>m_inData := x\<rparr>" "outs = []"
  shows "goes_on n (in_flight c) c c' outs"
  using op_done_facts [OF assms(1)] assms(2-) by (auto simp: goes_on_def intro!: running_phaseI)

text \<open>A connection apart from its buffers.\<close>

definition core :: "PersistentConnection \<Rightarrow> PersistentConnection" where
  "core c = c\<lparr>m_outHeader := [], m_outData := [], m_inHeader := [], m_inData := []\<rparr>"

lemma core_fields:
  assumes "core c = core c'"
  shows "m_socket c = m_socket c'" "pc_connected c = pc_connected c'" "m_connectionId c = m_connectionId c'" "m_recreateTimer c = m_recreateTimer c'"
    "pc_thread c = pc_thread c'" "pc_posted c = pc_posted c'" "pc_pending c = pc_pending c'" "in_flight c = in_flight c'" "ncur P c = ncur P c'"
  using assms [THEN arg_cong, of m_socket] assms [THEN arg_cong, of pc_connected] assms [THEN arg_cong, of m_connectionId]
    assms [THEN arg_cong, of m_recreateTimer] assms [THEN arg_cong, of pc_thread] assms [THEN arg_cong, of pc_posted]
    assms [THEN arg_cong, of pc_pending] assms [THEN arg_cong, of m_callback]
  by (simp_all add: core_def ncur_def in_flight_def)

lemma goes_on_next:
  assumes fin: "op_done n k op c" and same: "setup_op op' = setup_op op" "op \<noteq> OpSend" "op' \<noteq> OpSend" and outs: "count_list outs Ready = 0"
    and c': "c' = createCallback op' c2" "core c2 = core (without_op k c)"
  shows "goes_on n (in_flight c) c c' outs"
  unfolding c'(1) goes_on_def using core_fields [OF c'(2)] op_done_facts [OF fin] same outs by (auto intro!: running_phaseI)

lemma onSuccess_setup:
  assumes fin: "op_done n k op c" and su: "setup_op op" and r: "onSuccess hs op d (without_op k c) = ((c', outs), ec)"
  shows "goes_on n (if starting hs op d then 1 else in_flight c) c c' outs"
proof -
  let ?c1 = "without_op k c"
  note facts = op_done_facts [OF fin]
  have id: "?c1\<lparr>m_inData := m_inData c\<rparr> = ?c1"
    by (simp add: without_op_def)
  consider "op = OpConnect" | "op = OpHandshake" | "op = OpHeader True" | "op = OpData True"
    using su by (auto simp: setup_op_def)
  then show ?thesis
  proof cases
    case 1
    show ?thesis
    proof (cases "m_getHandshake hs")
      case None
      then show ?thesis
        using goes_on_start [OF fin su, of "m_inData c"] r 1 id by (simp add: onSuccess_def onConnect_def starting_def)
    next
      case (Some m)
      then show ?thesis
        using goes_on_next [OF fin, of OpHandshake outs c' "prepareOutBuffer m ?c1"] r 1
        by (simp add: onSuccess_def onConnect_def starting_def setup_op_def prepareOutBuffer_def core_def)
    qed
  next
    case 2
    then show ?thesis
      using goes_on_next [OF fin, of "OpHeader True" outs c' ?c1] r facts(1)
      by (auto simp: onSuccess_def onHandshakeSent_def asyncRead_def starting_def setup_op_def)
  next
    case 3
    then show ?thesis
      using goes_on_next [OF fin, of "OpData True" outs c' "?c1\<lparr>m_inHeader := d, m_inData := resize (ntohl d) (m_inData c)\<rparr>"] r facts(1)
      by (auto simp: onSuccess_def onHeaderSuccess_def Let_def starting_def setup_op_def core_def)
  next
    case 4
    show ?thesis
    proof (cases "starting hs op d")
      case True
      obtain x where "pc_start (?c1\<lparr>m_inData := x\<rparr>) = (c', outs)"
        using r 4 True by (auto simp: onSuccess_def onHandshakeReceived_def starting_def split: option.splits)
      then show ?thesis
        using goes_on_start [OF fin su] True by simp
    next
      case False
      then show ?thesis
        using goes_on_same [OF fin, of c' "[]" outs] r 4
        by (auto simp: onSuccess_def onHandshakeReceived_def starting_def split: option.splits)
    qed
  qed
qed

lemma onSuccess_message:
  assumes fin: "op_done n k op c" and su: "\<not> setup_op op" and r: "onSuccess hs op d (without_op k c) = ((c', outs), ec)"
  shows "goes_on n (in_flight c) c c' outs"
proof -
  let ?c1 = "without_op k c"
  note facts = op_done_facts [OF fin]
  consider "op = OpSend" | "op = OpHeader False" | "op = OpData False"
    using su by (cases op) (auto simp: setup_op_def)
  then show ?thesis
  proof cases
    case 1
    obtain cb where cb: "m_callback c = Some cb" "in_flight c = 1"
      using facts(7) 1 by (cases "m_callback c") (auto simp: in_flight_def split: if_splits)
    have r': "c' = ?c1\<lparr>m_callback := None\<rparr>" "count_list outs Ready = 1"
      using r 1 facts(5) by (auto simp: onSuccess_def onSent_def pc_notify_def notify_callback_def notify_handshake_def cb)
    then show ?thesis
      using facts 1 cb(2) by (auto simp: goes_on_def setup_op_def intro!: running_phaseI)
  next
    case 2
    then show ?thesis
      using goes_on_next [OF fin, of "OpData False" outs c' "?c1\<lparr>m_inHeader := d, m_inData := resize (ntohl d) (m_inData c)\<rparr>"] r facts(1)
      by (auto simp: onSuccess_def onHeaderSuccess_def Let_def setup_op_def core_def)
  next
    case 3
    then show ?thesis
      using goes_on_next [OF fin, of "OpHeader False" outs c' "?c1\<lparr>m_inData := []\<rparr>"] r facts(1)
      by (auto simp: onSuccess_def readLoop_def asyncRead_def setup_op_def core_def)
  qed
qed


text \<open>
  A run is calm when no connection becomes ready again while its last readiness is still unused:
  it is neither in the queue of idle connections nor has it a posted send.
\<close>

definition calm :: "handshake \<Rightarrow> pool_event \<Rightarrow> ConnectionPool \<Rightarrow> bool" where
  "calm hs ev s =
     (case ev of
        Succeeds i k d \<Rightarrow>
          (let c = m_connections s ! i
           in snd (pc_pending c ! k) = m_connectionId c \<and> starting hs (fst (pc_pending c ! k)) d \<longrightarrow>
              i \<notin> set (m_idleConnections s) \<and> pc_posted c = [])
      | _ \<Rightarrow> True)"

fun calm_run :: "handshake \<Rightarrow> pool_event list \<Rightarrow> ConnectionPool \<Rightarrow> bool" where
  "calm_run hs [] s = True"
| "calm_run hs (ev # evs) s = (calm hs ev s \<and> (case pool_step hs ev s of None \<Rightarrow> True | Some s' \<Rightarrow> calm_run hs evs s'))"

lemma ready_inv_mono: "ready_inv n s \<Longrightarrow> n \<le> m \<Longrightarrow> ready_inv m s"
  using conn_inv_mono by (auto simp: ready_inv_def)

lemma pool_send_inv: "ready_inv n s \<Longrightarrow> ready_inv n (snd (pool_send who m cb s))"
  using pool_send_ready [OF _ posted_blind_inv [of n]] unfolding ready_inv_def by (metis le_trans length_conns_send(2))

lemma run_callback_inv: "ready_inv n s \<Longrightarrow> ready_inv n (snd (run_callback i cb ec s))"
  using run_callback_ready [OF _ posted_blind_inv [of n]] unfolding ready_inv_def by (metis le_trans length_conns_send(3))

lemma tokens_on_conn:
  "tokens j (on_conn i f s) =
     (if j = i \<and> i < length (m_connections s)
      then count_list (m_idleConnections s) i + length (pc_posted (f (m_connections s ! i))) + in_flight (f (m_connections s ! i)) else tokens j s)"
proof -
  have "m_idleConnections (on_conn i f s) = m_idleConnections s"
    by (simp add: on_conn_def)
  then show ?thesis
    by (simp add: tokens_def conns_on_conn)
qed

text \<open>Setting the thread of a connection that is not inside \<open>onError\<close>.\<close>

lemma thread_inv:
  assumes "ready_inv n s" "\<forall>ec. pc_thread (m_connections s ! i) \<noteq> In_error ec" "\<forall>ec. t \<noteq> In_error ec"
  shows "ready_inv n (on_conn i (\<lambda>c. c\<lparr>pc_thread := t\<rparr>) s)"
proof -
  have "ready_at i (\<lambda>c. conn_inv n c \<and> (\<forall>ec. pc_thread c \<noteq> In_error ec)) n s"
    using assms(1,2) by (auto simp: ready_inv_def ready_at_def)
  then show ?thesis
    unfolding ready_at_inv [of n _ i]
    by (rule ready_at_on_conn) (use assms(3) in \<open>auto simp: conn_inv_def phase_ok_def split: conn_thread.splits\<close>)
qed

lemma run_posted_inv:
  assumes inv: "ready_inv n s" and free: "free_conn i s" and posted: "pc_posted (m_connections s ! i) \<noteq> []"
  shows "ready_inv n (run_posted i s) \<and> replaced (Run_posted i) s = {#}"
proof -
  let ?c = "m_connections s ! i"
  obtain m cb rest where p: "pc_posted ?c = (m, cb) # rest"
    using posted by (cases "pc_posted ?c") auto
  have i: "i < length (m_connections s)" "pc_thread ?c = Running" and c: "conn_inv n ?c" "tokens i s \<le> 1"
    using free inv by (auto simp: free_conn_def ready_inv_def)
  let ?s1 = "on_conn i (\<lambda>c. c\<lparr>pc_posted := rest\<rparr>) s"
  have c1: "m_connections ?s1 ! i = ?c\<lparr>pc_posted := rest\<rparr>" "m_idleConnections ?s1 = m_idleConnections s"
    using i by (simp_all add: conns_on_conn on_conn_def)
  have tokens1: "tokens j ?s1 \<le> tokens j s" for j
    using p by (simp add: tokens_def conns_on_conn c1(2))
  have inv1: "ready_inv n ?s1"
    using inv tokens1 unfolding ready_inv_def by (auto simp: conns_on_conn intro: le_trans)
  show ?thesis
  proof (cases "pc_connected ?c \<and> m_socket ?c")
    case True
    have idle: "count_list (m_idleConnections s) i = 0" "rest = []" "in_flight ?c = 0"
      using c(2) p by (simp_all add: tokens_def)
    then have none: "m_callback ?c = None"
      using True by (auto simp: in_flight_def split: if_splits)
    let ?g = "\<lambda>c. createCallback OpSend (prepareOutBuffer m (c\<lparr>m_callback := Some cb\<rparr>))"
    have g: "conn_inv n (?g (?c\<lparr>pc_posted := rest\<rparr>))"
      using running_phase [OF c(1) i(2)] True idle(3) i(2)
      by (intro running_phaseI) (auto simp: setup_op_def prepareOutBuffer_def in_flight_def createCallback_def ncur_def)
    have "ready_inv n (on_conn i ?g ?s1)"
      unfolding ready_inv_def
    proof (intro allI impI)
      fix j
      assume "j < length (m_connections (on_conn i ?g ?s1))"
      then have old: "conn_inv n (m_connections ?s1 ! j)" "tokens j ?s1 \<le> 1"
        using inv1 by (simp_all add: ready_inv_def)
      have "in_flight (?g (?c\<lparr>pc_posted := rest\<rparr>)) \<le> 1" "pc_posted (?g (?c\<lparr>pc_posted := rest\<rparr>)) = []"
        using idle(2) by (simp_all add: in_flight_def prepareOutBuffer_def)
      then show "conn_inv n (m_connections (on_conn i ?g ?s1) ! j) \<and> tokens j (on_conn i ?g ?s1) \<le> 1"
        using old g i idle(1) c1 by (cases "j = i") (simp_all add: tokens_on_conn [of _ i ?g] conns_on_conn [of i ?g])
    qed
    then show ?thesis
      using True none by (simp add: run_posted_def p Let_def c1 replaced_def current_ids_def)
  next
    case False
    obtain b s2 where s2: "run_callback i cb (Some ENOTCONN) ?s1 = (b, s2)"
      by (cases "run_callback i cb (Some ENOTCONN) ?s1")
    have inv2: "ready_inv n s2"
      using run_callback_inv [OF inv1, of i cb "Some ENOTCONN"] s2 by simp
    have "posted_blind (\<lambda>c. \<forall>ec. pc_thread c \<noteq> In_error ec)"
      by (simp add: posted_blind_def)
    then have "\<forall>ec. pc_thread (m_connections s2 ! i) \<noteq> In_error ec"
      using run_callback_ready [of i ?s1 "\<lambda>c. \<forall>ec. pc_thread c \<noteq> In_error ec" i cb "Some ENOTCONN"] i s2 c1(1) by simp
    then have "ready_inv n (on_conn i (\<lambda>c. c\<lparr>pc_thread := In_send\<rparr>) s2)"
      by (intro thread_inv [OF inv2]) simp_all
    then show ?thesis
      using False inv2 s2 by (auto simp: run_posted_def p Let_def c1 replaced_def)
  qed
qed


lemma wake_inv:
  assumes inv: "ready_inv n s" and ok: "pool_ok s" and k: "k < length (cp_waiting s)" and idle: "m_idleConnections s \<noteq> []" and n: "Suc n < 2 ^ 32"
  shows "ready_inv (Suc n) (wake k s)"
proof -
  obtain i rest where i: "m_idleConnections s = i # rest"
    using idle by (cases "m_idleConnections s") auto
  obtain who m cb where w: "cp_waiting s ! k = (who, m, cb)"
    by (cases "cp_waiting s ! k")
  let ?ws = "take k (cp_waiting s) @ drop (Suc k) (cp_waiting s)"
  let ?s1 = "conn_send i m cb (s\<lparr>m_idleConnections := rest, cp_waiting := ?ws\<rparr>)"
  have "tokens j ?s1 = tokens j (conn_send i m cb (s\<lparr>m_idleConnections := rest\<rparr>))"
    "m_connections ?s1 = m_connections (conn_send i m cb (s\<lparr>m_idleConnections := rest\<rparr>))" for j
    by (simp_all add: tokens_def conn_send_def on_conn_def)
  then have inv1: "ready_inv n ?s1"
    using conn_send_ready [OF _ i posted_blind_inv [of n], where m = m and cb = cb] inv
    unfolding ready_inv_def by (metis (no_types, lifting) ConnectionPool.select_convs(2) ConnectionPool.surjective ConnectionPool.update_convs(3) le_trans length_conns_send(1))
  have ok0: "pool_ok (s\<lparr>m_idleConnections := rest, cp_waiting := ?ws\<rparr>)" "i < length (m_connections s)"
    using ok i by (auto simp: pool_ok_def dest!: in_set_takeD in_set_dropD)
  then have ok1: "pool_ok ?s1"
    using conn_send_accounted [OF ok0(1), of i m cb] by simp
  have woken: "ready_inv (Suc n) (case pc_thread (m_connections ?s1 ! j) of In_error ec \<Rightarrow> finish_error j ec ?s1 | _ \<Rightarrow> on_conn j (\<lambda>c. c\<lparr>pc_thread := Running\<rparr>) ?s1)"
    if j: "j < length (m_connections s)" for j
  proof (cases "\<exists>ec. pc_thread (m_connections ?s1 ! j) = In_error ec")
    case True
    then obtain ec where ec: "pc_thread (m_connections ?s1 ! j) = In_error ec" ..
    then have "ready_at j (erring n) n ?s1"
      using inv1 j unfolding ready_at_inv [of n _ j] ready_at_def by (auto simp: conn_inv_def phase_ok_def erring_def open_conn_def)
    then show ?thesis
      using finish_error_ready [OF _ _ n ok1] j ec by simp
  next
    case False
    then have "ready_inv n (on_conn j (\<lambda>c. c\<lparr>pc_thread := Running\<rparr>) ?s1)"
      by (intro thread_inv [OF inv1]) simp_all
    then show ?thesis
      using False ready_inv_mono [of n _ "Suc n"] by (auto split: conn_thread.split)
  qed
  have "j < length (m_connections s)" if "who = Some j" for j
    using ok nth_mem [OF k] w that by (auto simp: pool_ok_def)
  with woken show ?thesis
    using ready_inv_mono [OF inv1, of "Suc n"] by (cases who) (simp_all add: wake_def i w Let_def)
qed

lemma take_op_conn: "i < length (m_connections s) \<Longrightarrow> m_connections (take_op i k s) ! i = without_op k (m_connections s ! i)"
  by (simp add: take_op_def conns_on_conn without_op_def)

lemma idle_on_conn [simp]: "m_idleConnections (on_conn i f s) = m_idleConnections s"
  by (simp add: on_conn_def)

lemma take_op_at:
  assumes "ready_inv n s" "i < length (m_connections s)" "Q (without_op k (m_connections s ! i))"
  shows "ready_at i Q n (take_op i k s)"
  unfolding ready_at_def
proof (intro allI impI)
  fix j
  assume "j < length (m_connections (take_op i k s))"
  then have "j < length (m_connections s)"
    by (simp add: take_op_def)
  then show "tokens j (take_op i k s) \<le> 1 \<and> (if j = i then Q else conn_inv n) (m_connections (take_op i k s) ! j)"
    using assms take_op_conn [OF assms(2), of k]
    by (auto simp: ready_inv_def take_op_def tokens_on_conn conns_on_conn tokens_def)
qed

lemma succeeds_inv:
  assumes inv: "ready_inv n s" and ok: "pool_ok s" and free: "free_conn i s" and n: "Suc n < 2 ^ 32"
    and k: "k < length (pc_pending (m_connections s ! i))" "pc_pending (m_connections s ! i) ! k = (op, m_connectionId (m_connections s ! i))"
    and calm: "starting hs op d \<Longrightarrow> i \<notin> set (m_idleConnections s) \<and> pc_posted (m_connections s ! i) = []"
    and r: "onSuccess hs op d (m_connections (take_op i k s) ! i) = (r, ec)"
  shows "ready_inv (Suc n) (case ec of None \<Rightarrow> snd (run_handler i (\<lambda>_. r) (take_op i k s)) | Some e \<Rightarrow> onError i e (snd (run_handler i (\<lambda>_. r) (take_op i k s))))"
proof -
  let ?c = "m_connections s ! i" and ?s1 = "take_op i k s"
  have i: "i < length (m_connections s)" and c: "conn_inv n ?c" "tokens i s \<le> 1"
    using free inv by (auto simp: free_conn_def ready_inv_def)
  have fin: "op_done n k op ?c"
    using c(1) free k pool_ok_conn [OF ok i] by (simp add: op_done_def free_conn_def)
  obtain c' outs where r': "r = (c', outs)"
    by (cases r)
  have r1: "onSuccess hs op d (without_op k ?c) = ((c', outs), ec)"
    using r by (simp add: r' take_op_conn [OF i])
  have on: "goes_on n (if starting hs op d then 1 else in_flight ?c) ?c c' outs"
  proof (cases "setup_op op")
    case False
    then have "\<not> starting hs op d"
      by (auto simp: setup_op_def starting_def)
    then show ?thesis
      using onSuccess_message [OF fin False r1] by simp
  qed (rule onSuccess_setup [OF fin _ r1])
  have room: "count_list (m_idleConnections ?s1) i + length (pc_posted c') + in_flight c' + count_list outs Ready \<le> 1"
    using on c(2) calm by (auto simp: goes_on_def tokens_def take_op_def on_conn_def count_list_0_iff split: if_splits)
  have ok1: "pool_ok ?s1" "i < length (m_connections ?s1)"
    using pool_ok_on_conn [OF ok, of "\<lambda>c. c\<lparr>pc_pending := take k (pc_pending c) @ drop (Suc k) (pc_pending c)\<rparr>" i] i by (simp_all add: take_op_def)
  let ?s2 = "snd (run_handler i (\<lambda>_. r) ?s1)"
  have ran: "ready_at i (\<lambda>c. conn_inv n c \<and> m_socket c) n ?s2"
    by (rule run_handler_ready [where Q = "\<lambda>_. True" and c = c' and outs = outs, OF take_op_at [OF inv i]])
      (use ok1 on room posted_blind_erring(3) in \<open>simp_all add: r' goes_on_def\<close>)
  have ok2: "pool_ok ?s2"
    using run_handler_accounted [OF ok1, of "\<lambda>_. r"] balanced_onSuccess [of "m_connections ?s1 ! i" hs op d] r pool_ok_conn [OF ok1] by simp
  have "ready_inv n ?s2"
    unfolding ready_at_inv [of n _ i] by (rule ready_at_weaken [OF ran]) simp
  then show ?thesis
    using onError_ready [OF ready_at_weaken [OF ran] _ n ok2] ok1(2) ready_inv_mono [of n ?s2 "Suc n"] by (auto simp: open_conn_def conn_inv_def split: option.split)
qed

lemma fails_inv:
  assumes inv: "ready_inv n s" and ok: "pool_ok s" and free: "free_conn i s" and n: "Suc n < 2 ^ 32"
    and k: "k < length (pc_pending (m_connections s ! i))" "pc_pending (m_connections s ! i) ! k = (op, m_connectionId (m_connections s ! i))"
  shows "ready_inv (Suc n) (onError i ec (take_op i k s))"
proof -
  have i: "i < length (m_connections s)"
    using free by (simp add: free_conn_def)
  let ?c = "m_connections s ! i"
  have fin: "op_done n k op ?c"
    using inv free k pool_ok_conn [OF ok i] by (simp add: op_done_def free_conn_def ready_inv_def)
  have "open_conn n (without_op k ?c)"
    using op_done_facts [OF fin] by (simp add: open_conn_def)
  moreover have "pool_ok (take_op i k s)"
    unfolding take_op_def by (rule pool_ok_on_conn [OF ok]) simp
  ultimately show ?thesis
    using onError_ready [OF take_op_at [OF inv i] _ n] i by (simp add: take_op_def)
qed

lemma stale_inv:
  assumes inv: "ready_inv n s" and free: "free_conn i s" and k: "k < length (pc_pending (m_connections s ! i))"
    and op: "pc_pending (m_connections s ! i) ! k = (op, cid)" "cid \<noteq> m_connectionId (m_connections s ! i)"
  shows "ready_inv n (take_op i k s)"
proof -
  have "conn_inv n (without_op k (m_connections s ! i))"
    using stale_removed_inv [OF _ _ k op, of n] inv free by (simp add: ready_inv_def free_conn_def)
  then show ?thesis
    unfolding ready_at_inv [of n "take_op i k s" i] using take_op_at [OF inv] free by (simp add: free_conn_def)
qed

lemma timer_inv:
  assumes inv: "ready_inv n s" and i: "free_conn i s" "m_recreateTimer (m_connections s ! i)"
  shows "ready_inv n (on_conn i (\<lambda>c. pc_connect (c\<lparr>m_recreateTimer := False\<rparr>)) s)"
proof -
  let ?f = "\<lambda>c. pc_connect (c\<lparr>m_recreateTimer := False\<rparr>)" and ?Q = "\<lambda>c. conn_inv n c \<and> pc_thread c = Running \<and> m_recreateTimer c"
  have "ready_at i ?Q n s"
    using inv i by (auto simp: ready_inv_def ready_at_def free_conn_def)
  then have "ready_at i (conn_inv n) n (on_conn i ?f s)"
  proof (rule ready_at_on_conn)
    fix c
    assume "?Q c"
    then have "conn_inv n c" "pc_thread c = Running" "\<not> m_socket c"
      using running_phase(2) [of n c] by auto
    then show "conn_inv n (?f c)"
      using running_phase [of n c] ncur_zero [of c] by (intro running_phaseI) (auto simp: pc_connect_def setup_op_def)
  qed (simp add: pc_connect_def)
  then show ?thesis
    unfolding ready_at_inv [of n "on_conn i ?f s" i] .
qed

lemma pool_step_inv:
  assumes inv: "ready_inv n s" and ok: "pool_ok s" and n: "Suc n < 2 ^ 32" and calm: "calm hs ev s" and step: "pool_step hs ev s = Some s'"
  shows "ready_inv (Suc n) s' \<and> replaced ev s = {#}"
proof (cases ev)
  case (SendMsg m k r)
  then show ?thesis
    using step pool_send_inv [OF inv] ready_inv_mono [of n _ "Suc n"] by (auto simp: pool_step_def retrier_send_def replaced_def)
next
  case (Wake k)
  then show ?thesis
    using step wake_inv [OF inv ok _ _ n, of k] by (auto simp: pool_step_def replaced_def split: if_splits)
next
  case (Run_posted i)
  then show ?thesis
    using step run_posted_inv [OF inv, of i] ready_inv_mono [of n _ "Suc n"] by (auto simp: pool_step_def split: if_splits)
next
  case (Succeeds i k d)
  obtain op cid where op: "pc_pending (m_connections s ! i) ! k = (op, cid)"
    by (cases "pc_pending (m_connections s ! i) ! k")
  have free: "free_conn i s" and k: "k < length (pc_pending (m_connections s ! i))"
    using step Succeeds by (auto simp: pool_step_def split: if_splits)
  show ?thesis
  proof (cases "cid = m_connectionId (m_connections s ! i)")
    case True
    obtain r ec where r: "onSuccess hs op d (m_connections (take_op i k s) ! i) = (r, ec)"
      by (cases "onSuccess hs op d (m_connections (take_op i k s) ! i)")
    have "starting hs op d \<Longrightarrow> i \<notin> set (m_idleConnections s) \<and> pc_posted (m_connections s ! i) = []"
      using calm Succeeds op True by (simp add: calm_def Let_def)
    from succeeds_inv [OF inv ok free n k _ this r] show ?thesis
      using step Succeeds op True r by (auto simp: pool_step_def replaced_def Let_def split: if_splits)
  next
    case False
    then show ?thesis
      using step Succeeds op stale_inv [OF inv free k op False] ready_inv_mono [of n "take_op i k s" "Suc n"] by (auto simp: pool_step_def replaced_def Let_def split: if_splits)
  qed
next
  case (Fails i k ec)
  obtain op cid where op: "pc_pending (m_connections s ! i) ! k = (op, cid)"
    by (cases "pc_pending (m_connections s ! i) ! k")
  have free: "free_conn i s" and k: "k < length (pc_pending (m_connections s ! i))"
    using step Fails by (auto simp: pool_step_def split: if_splits)
  show ?thesis
  proof (cases "cid = m_connectionId (m_connections s ! i)")
    case True
    from fails_inv [OF inv ok free n k, of op ec] show ?thesis
      using step Fails op True by (auto simp: pool_step_def replaced_def Let_def split: if_splits)
  next
    case False
    then show ?thesis
      using step Fails op stale_inv [OF inv free k op False] ready_inv_mono [of n "take_op i k s" "Suc n"] by (auto simp: pool_step_def replaced_def Let_def split: if_splits)
  qed
next
  case (Timer i)
  then show ?thesis
    using step timer_inv [OF inv, of i] ready_inv_mono [of n s' "Suc n"] by (auto simp: pool_step_def replaced_def split: if_splits)
qed

text \<open>Runs.\<close>

definition all_sent :: "pool_event list \<Rightarrow> nat multiset" where
  "all_sent evs = sum_list (map sent_ids evs)"

lemma pool_run_accounted:
  assumes "pool_ok s" "pool_run hs evs s = Some s'"
  shows "pool_ok s' \<and> accounted s' \<subseteq># accounted s + all_sent evs"
  using assms
proof (induction evs arbitrary: s)
  case (Cons ev evs)
  then obtain s1 where s1: "pool_step hs ev s = Some s1" "pool_run hs evs s1 = Some s'"
    by (auto split: option.splits)
  note step = pool_step_accounted [OF Cons.prems(1) s1(1)]
  then have "accounted s1 \<subseteq># accounted s + sent_ids ev"
    by (metis mset_subset_eq_add_left)
  then have "accounted s1 + all_sent evs \<subseteq># accounted s + all_sent (ev # evs)"
    by (metis (no_types, lifting) add.assoc all_sent_def list.simps(9) subset_mset.add_le_cancel_right sum_list.Cons)
  then show ?case
    using Cons.IH [OF _ s1(2)] step subset_mset.order_trans by blast
qed (simp add: all_sent_def)

lemma pool_run_calm:
  assumes "ready_inv n s" "pool_ok s" "n + length evs < 2 ^ 32" "calm_run hs evs s" "pool_run hs evs s = Some s'"
  shows "accounted s' = accounted s + all_sent evs"
  using assms
proof (induction evs arbitrary: s n)
  case (Cons ev evs)
  then obtain s1 where s1: "pool_step hs ev s = Some s1" "pool_run hs evs s1 = Some s'" "calm hs ev s" "calm_run hs evs s1"
    by (auto split: option.splits)
  have "ready_inv (Suc n) s1" "replaced ev s = {#}"
    using pool_step_inv [OF Cons.prems(1,2) _ s1(3,1)] Cons.prems(3) by simp_all
  then show ?case
    using Cons.IH [of "Suc n" s1] pool_step_accounted [OF Cons.prems(2) s1(1)] s1 Cons.prems(3) by (simp add: all_sent_def ac_simps)
qed (simp add: all_sent_def)

lemma pool_connect_ok:
  assumes "h = None \<or> h = Some Handshake_done"
  shows "pool_ok (pool_connect n h)" "accounted (pool_connect n h) = {#}" "ready_inv 0 (pool_connect n h)"
proof -
  let ?c = "pc_connect (PersistentConnection_new h)"
  have held: "conn_held (PersistentConnection_new h) = {#}"
    using assms by (auto simp: conn_held_def current_ids_def cb_ids_def PersistentConnection_new_def)
  have "sum_list (map conn_held (replicate n ?c)) = {#}"
    by (induction n) (simp_all add: held)
  then show "accounted (pool_connect n h) = {#}"
    by (simp add: accounted_def pending_callbacks_def called_callbacks_def pool_connect_def)
  show "pool_ok (pool_connect n h)"
    by (auto simp: pool_ok_def pool_connect_def pc_connect_def PersistentConnection_new_def)
  have "conn_inv 0 ?c"
    by (rule running_phaseI) (simp_all add: pc_connect_def PersistentConnection_new_def createCallback_def ncur_def setup_op_def in_flight_def)
  then show "ready_inv 0 (pool_connect n h)"
    by (simp add: ready_inv_def pool_connect_def tokens_def) (simp add: pc_connect_def PersistentConnection_new_def createCallback_def in_flight_def)
qed

section \<open>Properties\<close>

text \<open>
  C6. Callbacks of sends are never called twice, whatever fails and however often a send is retried:
  those called and those still held are among those passed to \<open>send\<close>. And none is lost, as long as no
  connection becomes ready again while an earlier announcement of its readiness is still unused: each is
  either called exactly once or still on its way.
\<close>

theorem send_callbacks_conserved:
  assumes "h = None \<or> h = Some Handshake_done" "pool_run hs evs (pool_connect n h) = Some s"
  shows "called_callbacks s + pending_callbacks s \<subseteq># all_sent evs \<and>
    (calm_run hs evs (pool_connect n h) \<and> length evs < 2 ^ 32 \<longrightarrow> called_callbacks s + pending_callbacks s = all_sent evs)"
proof -
  note init = pool_connect_ok [OF assms(1), of n]
  show ?thesis
    using pool_run_accounted [OF init(1) assms(2)] pool_run_calm [OF init(3,1) _ _ assms(2)] init(2)
    by (simp add: accounted_def ac_simps)
qed

text \<open>A pool of one connection without handshake, and the definitions that its runs unfold.\<close>

definition no_handshake :: handshake where
  "no_handshake = \<lparr>m_getHandshake = None, m_onHandshakeResponse = None\<rparr>"

lemmas pool_eval =
  pool_step_def no_handshake_def free_conn_def expects_def pool_connect_def PersistentConnection_new_def pc_connect_def createCallback_def take_op_def on_conn_def
  onSuccess_def onConnect_def pc_start_def pc_notify_def notify_callback_def notify_handshake_def readLoop_def asyncRead_def run_handler_def onConnectionReady_def
  onSent_def retrier_send_def pool_send_def conn_send_def run_posted_def prepareOutBuffer_def run_callback_def onError_def onError_begin_def onError_finish_def
  finish_error_def pc_close_def Let_def

theorem send_callbacks_conserved_witness:
  "\<exists>s. pool_run no_handshake [Succeeds 0 0 [], SendMsg ''m'' 7 2, Run_posted 0, Succeeds 0 1 []] (pool_connect 1 None) = Some s \<and>
     called_callbacks s + pending_callbacks s = {#7#} \<and> cp_calls s = [(7, None)]"
proof -
  let ?evs = "[Succeeds 0 0 [], SendMsg ''m'' 7 2, Run_posted 0, Succeeds 0 1 []]"
  obtain s where s: "pool_run no_handshake ?evs (pool_connect 1 None) = Some s" "cp_calls s = [(7, None)]"
    by (simp add: pool_eval)
  have "calm_run no_handshake ?evs (pool_connect 1 None)"
    by (simp add: pool_eval calm_def starting_def)
  then show ?thesis
    using send_callbacks_conserved [OF _ s(1)] s by (simp add: all_sent_def sent_ids_def)
qed


text \<open>
  C37. A connection that fails while idle loses a callback. When it is up again it is announced a
  second time; two messages then go to it at once, the second replaces the callback of the first, and the
  callback of the first is never called, with success or error, whatever happens afterwards.
\<close>

theorem idle_failure_loses_callback:
  assumes "pool_ok s" "m_idleConnections s = i # i # idle" "pc_thread (m_connections s ! i) = Running"
    "pc_connected (m_connections s ! i)" "m_socket (m_connections s ! i)" "pc_posted (m_connections s ! i) = []"
    "a \<notin># accounted s" "a \<noteq> b"
  shows "\<exists>s'. pool_run hs [SendMsg m a r, SendMsg m' b r', Run_posted i, Run_posted i] s = Some s' \<and>
    (\<forall>evs s''. a \<notin># all_sent evs \<and> pool_run hs evs s' = Some s'' \<longrightarrow> a \<notin># called_callbacks s'' + pending_callbacks s'')"
proof -
  let ?c = "m_connections s ! i"
  have i: "i < length (m_connections s)" and up: "cp_connected s"
    using assms(1,2) by (simp_all add: pool_ok_def)
  let ?s1 = "s\<lparr>m_connections := (m_connections s)[i := ?c\<lparr>pc_posted := [(m, Retry m a r)]\<rparr>], m_idleConnections := i # idle\<rparr>"
  have step1: "pool_step hs (SendMsg m a r) s = Some ?s1"
    using assms(2,6) up by (simp add: pool_step_def retrier_send_def pool_send_def conn_send_def on_conn_def)
  let ?s2 = "s\<lparr>m_connections := (m_connections s)[i := ?c\<lparr>pc_posted := [(m, Retry m a r), (m', Retry m' b r')]\<rparr>], m_idleConnections := idle\<rparr>"
  have step2: "pool_step hs (SendMsg m' b r') ?s1 = Some ?s2"
    using up i by (simp add: pool_step_def retrier_send_def pool_send_def conn_send_def on_conn_def)
  obtain s3 where step3: "pool_step hs (Run_posted i) ?s2 = Some s3"
    and s3: "length (m_connections s3) = length (m_connections s)" "pc_thread (m_connections s3 ! i) = Running" "pc_posted (m_connections s3 ! i) \<noteq> []"
      "pc_connected (m_connections s3 ! i)" "m_socket (m_connections s3 ! i)" "m_callback (m_connections s3 ! i) = Some (Retry m a r)"
    using i assms(3-5) by (simp add: pool_step_def free_conn_def run_posted_def on_conn_def prepareOutBuffer_def createCallback_def)
  have step4: "pool_step hs (Run_posted i) s3 = Some (run_posted i s3)"
    using s3 i by (simp add: pool_step_def free_conn_def)
  have replaced: "replaced (Run_posted i) s3 = {#a#}"
    using s3 by (simp add: replaced_def current_ids_def cb_ids_def Let_def)
  note acc1 = pool_step_accounted [OF assms(1) step1]
  note acc2 = pool_step_accounted [OF conjunct2 [OF acc1] step2]
  note acc3 = pool_step_accounted [OF conjunct2 [OF acc2] step3]
  note acc4 = pool_step_accounted [OF conjunct2 [OF acc3] step4]
  have "count (accounted (run_posted i s3)) a = 0"
    using acc1 acc2 acc3 acc4 [THEN conjunct1, unfolded replaced, THEN arg_cong, of "\<lambda>M. count M a"] assms(7,8)
    by (auto simp: replaced_def sent_ids_def not_in_iff dest!: arg_cong [of _ _ "\<lambda>M. count M a"])
  then have "a \<notin># called_callbacks s'' + pending_callbacks s''" if "a \<notin># all_sent evs" "pool_run hs evs (run_posted i s3) = Some s''" for evs s''
    using pool_run_accounted [OF conjunct2 [OF acc4] that(2)] that(1) unfolding accounted_def
    by (metis (no_types, lifting) add.commute mset_subset_eqD not_in_iff union_iff)
  then show ?thesis
    using step1 step2 step3 step4 by auto
qed

theorem idle_failure_loses_callback_witness:
  "\<exists>s s'. pool_run no_handshake [Succeeds 0 0 [], Fails 0 0 104, Timer 0, Succeeds 0 0 []] (pool_connect 1 None) = Some s \<and>
     pool_run no_handshake [SendMsg ''x'' 1 2, SendMsg ''y'' 2 2, Run_posted 0, Run_posted 0] s = Some s' \<and>
     (\<forall>evs s''. 1 \<notin># all_sent evs \<and> pool_run no_handshake evs s' = Some s'' \<longrightarrow> 1 \<notin># called_callbacks s'' + pending_callbacks s'')"
proof -
  let ?evs = "[Succeeds 0 0 [], Fails 0 0 104, Timer 0, Succeeds 0 0 []]"
  obtain s where s: "pool_run no_handshake ?evs (pool_connect 1 None) = Some s" "m_idleConnections s = [0, 0]" "pc_thread (m_connections s ! 0) = Running"
    "pc_connected (m_connections s ! 0)" "m_socket (m_connections s ! 0)" "pc_posted (m_connections s ! 0) = []"
    by (simp add: pool_eval)
  have ok: "pool_ok s" "accounted s \<subseteq># {#}"
    using pool_run_accounted [OF pool_connect_ok(1) s(1)] pool_connect_ok(2) [of None 1] by (simp_all add: all_sent_def sent_ids_def)
  have "\<exists>s'. pool_run no_handshake [SendMsg ''x'' 1 2, SendMsg ''y'' 2 2, Run_posted 0, Run_posted 0] s = Some s' \<and>
      (\<forall>evs s''. 1 \<notin># all_sent evs \<and> pool_run no_handshake evs s' = Some s'' \<longrightarrow> 1 \<notin># called_callbacks s'' + pending_callbacks s'')"
    by (rule idle_failure_loses_callback [OF ok(1) s(2-)]) (use ok(2) in simp_all)
  then show ?thesis
    using s(1) by blast
qed

text \<open>A pool in which every connection waits for an idle one.\<close>

definition stuck :: "ConnectionPool \<Rightarrow> bool" where
  "stuck s \<longleftrightarrow> cp_connected s \<and> m_idleConnections s = [] \<and> (\<forall>i < length (m_connections s). pc_thread (m_connections s ! i) \<noteq> Running)"

definition same_record :: "ConnectionPool \<Rightarrow> ConnectionPool \<Rightarrow> bool" where
  "same_record s s' \<longleftrightarrow>
     cp_calls s' = cp_calls s \<and> cp_wire s' = cp_wire s \<and> cp_received s' = cp_received s \<and> length (m_connections s') = length (m_connections s)"

lemma stuck_step:
  assumes "stuck s" "pool_step hs ev s = Some s'"
  shows "stuck s' \<and> same_record s s'"
  using assms by (cases ev) (auto simp: stuck_def same_record_def pool_step_def free_conn_def retrier_send_def pool_send_def split: if_splits)

lemma stuck_run: "stuck s \<Longrightarrow> pool_run hs evs s = Some s' \<Longrightarrow> stuck s' \<and> same_record s s'"
proof (induction evs arbitrary: s)
  case (Cons ev evs)
  then obtain s1 where "pool_step hs ev s = Some s1" "pool_run hs evs s1 = Some s'"
    by (auto split: option.splits)
  then show ?case
    using stuck_step [OF Cons.prems(1)] Cons.IH [of s1] by (auto simp: same_record_def)
qed (simp add: same_record_def)

text \<open>A connection that is sending a message with retries left.\<close>

definition sending :: "nat \<Rightarrow> PersistentConnection \<Rightarrow> bool" where
  "sending k c \<longleftrightarrow>
     pc_thread c = Running \<and> k < length (pc_pending c) \<and> snd (pc_pending c ! k) = m_connectionId c \<and>
     (case m_callback c of Some (Retry m cb r) \<Rightarrow> 0 < r | _ \<Rightarrow> False)"

lemma failed_send_waits:
  assumes "cp_connected s" "m_idleConnections s = []" "i < length (m_connections s)" "sending k (m_connections s ! i)"
  shows "\<exists>s'. pool_step hs (Fails i k ec) s = Some s' \<and> cp_connected s' \<and> m_idleConnections s' = [] \<and> same_record s s' \<and>
    pc_thread (m_connections s' ! i) \<noteq> Running \<and> (\<forall>j. j \<noteq> i \<longrightarrow> m_connections s' ! j = m_connections s ! j)"
proof -
  obtain m cb r where c: "m_callback (m_connections s ! i) = Some (Retry m cb r)" "0 < r"
    using assms(4) by (auto simp: sending_def split: option.splits callback.splits)
  then show ?thesis
    using assms by (simp add: sending_def pool_step_def free_conn_def onError_def run_handler_def onError_begin_def notify_callback_def take_op_def
        on_conn_def run_callback_def pool_send_def Let_def same_record_def)
qed

lemma failed_sends_wait:
  assumes "cp_connected s" "m_idleConnections s = []" "\<forall>i < length (m_connections s). sending (k i) (m_connections s ! i)" "n \<le> length (m_connections s)"
  shows "\<exists>s'. pool_run hs (map (\<lambda>i. Fails i (k i) (ec i)) [0..<n]) s = Some s' \<and> cp_connected s' \<and> m_idleConnections s' = [] \<and> same_record s s' \<and>
    (\<forall>i < n. pc_thread (m_connections s' ! i) \<noteq> Running) \<and> (\<forall>i. n \<le> i \<longrightarrow> m_connections s' ! i = m_connections s ! i)"
  using assms(4)
proof (induction n)
  case 0
  then show ?case
    using assms(1,2) by (simp add: same_record_def)
next
  case (Suc n)
  then obtain s1 where s1: "pool_run hs (map (\<lambda>i. Fails i (k i) (ec i)) [0..<n]) s = Some s1" "cp_connected s1" "m_idleConnections s1 = []" "same_record s s1"
      "\<forall>i < n. pc_thread (m_connections s1 ! i) \<noteq> Running" "\<forall>i. n \<le> i \<longrightarrow> m_connections s1 ! i = m_connections s ! i"
    by auto
  then have "n < length (m_connections s1)" "sending (k n) (m_connections s1 ! n)"
    using Suc.prems assms(3) by (simp_all add: same_record_def)
  from failed_send_waits [OF s1(2,3) this, of hs "ec n"] obtain s2 where s2: "pool_step hs (Fails n (k n) (ec n)) s1 = Some s2" "cp_connected s2"
      "m_idleConnections s2 = []" "same_record s1 s2" "pc_thread (m_connections s2 ! n) \<noteq> Running" "\<forall>j. j \<noteq> n \<longrightarrow> m_connections s2 ! j = m_connections s1 ! j"
    by blast
  have "pool_run hs (evs @ [ev]) s = (case pool_run hs evs s of None \<Rightarrow> None | Some s' \<Rightarrow> pool_step hs ev s')" for evs ev
    by (induction evs arbitrary: s) (auto split: option.split)
  then have "pool_run hs (map (\<lambda>i. Fails i (k i) (ec i)) [0..<Suc n]) s = Some s2"
    using s1(1) s2(1) by simp
  then show ?case
    using s1 s2 by (intro exI [of _ s2]) (auto simp: same_record_def less_Suc_eq)
qed

text \<open>
  C36. When all connections fail while they send messages that have retries left and none is idle,
  the pool stops for good. Each retry waits for an idle connection on the only thread that could make
  its own connection ready again; whatever happens afterwards, no message is sent or received, no callback
  is called, and \<open>stop\<close> waits forever for these threads.
\<close>

theorem failed_sends_block_pool:
  assumes "cp_connected s" "m_idleConnections s = []" "m_connections s \<noteq> []" "\<forall>i < length (m_connections s). sending (k i) (m_connections s ! i)"
  shows "\<exists>s'. pool_run hs (map (\<lambda>i. Fails i (k i) (ec i)) [0..<length (m_connections s)]) s = Some s' \<and>
    (\<forall>evs s''. pool_run hs evs s' = Some s'' \<longrightarrow>
       cp_calls s'' = cp_calls s \<and> cp_wire s'' = cp_wire s \<and> cp_received s'' = cp_received s \<and> fst (pool_stop s'') = Inl Deadlock)"
proof -
  obtain s' where s': "pool_run hs (map (\<lambda>i. Fails i (k i) (ec i)) [0..<length (m_connections s)]) s = Some s'" "cp_connected s'" "m_idleConnections s' = []"
      "same_record s s'" "\<forall>i < length (m_connections s). pc_thread (m_connections s' ! i) \<noteq> Running"
    using failed_sends_wait [OF assms(1,2,4) order_refl] by blast
  then have "stuck s'"
    by (simp add: stuck_def same_record_def)
  have "cp_calls s'' = cp_calls s \<and> cp_wire s'' = cp_wire s \<and> cp_received s'' = cp_received s \<and> fst (pool_stop s'') = Inl Deadlock"
    if "pool_run hs evs s' = Some s''" for evs s''
  proof -
    have last: "stuck s''" "same_record s' s''"
      using stuck_run [OF \<open>stuck s'\<close> that] by simp_all
    then have "0 < length (m_connections s'')"
      using s'(4) assms(3) by (simp add: same_record_def)
    then have "\<exists>c \<in> set (m_connections s''). pc_thread c \<noteq> Running"
      using last(1) nth_mem unfolding stuck_def by blast
    then show ?thesis
      using last(2) s'(4) by (simp add: pool_stop_def Let_def same_record_def)
  qed
  then show ?thesis
    using s'(1) by blast
qed

theorem failed_sends_block_pool_witness:
  "\<exists>s s'. pool_run no_handshake [Succeeds 0 0 [], SendMsg ''m'' 7 2, Run_posted 0] (pool_connect 1 None) = Some s \<and>
     pool_run no_handshake [Fails 0 1 104] s = Some s' \<and>
     (\<forall>evs s''. pool_run no_handshake evs s' = Some s'' \<longrightarrow> cp_calls s'' = [] \<and> cp_wire s'' = [] \<and> cp_received s'' = [] \<and> fst (pool_stop s'') = Inl Deadlock)"
proof -
  obtain s where s: "pool_run no_handshake [Succeeds 0 0 [], SendMsg ''m'' 7 2, Run_posted 0] (pool_connect 1 None) = Some s"
    "cp_connected s" "m_idleConnections s = []" "length (m_connections s) = 1" "sending 1 (m_connections s ! 0)" "cp_calls s = []" "cp_wire s = []" "cp_received s = []"
    by (simp add: pool_eval sending_def)
  have "\<forall>i < length (m_connections s). sending 1 (m_connections s ! i)" "m_connections s \<noteq> []"
    using s(4,5) by auto
  then show ?thesis
    using failed_sends_block_pool [of s "\<lambda>_. 1" no_handshake "\<lambda>_. 104"] s by auto
qed


section \<open>Frames\<close>

lemma ntohl_htonl:
  assumes "n < 2 ^ 32"
  shows "ntohl (htonl n) = n"
proof -
  have up: "n div 2 ^ 16 = n div 2 ^ 8 div 256" "n div 2 ^ 24 = n div 2 ^ 16 div 256" "n div 2 ^ 8 = n div 256"
    by (simp_all add: div_mult2_eq [symmetric])
  have "n div 2 ^ 24 < 256"
    using assms by (simp add: less_mult_imp_div_less)
  then have "256 * (n div 2 ^ 24 mod 256) + n div 2 ^ 16 mod 256 = n div 2 ^ 16"
    by (simp only: up(2) mod_less mult_div_mod_eq)
  moreover have "256 * (n div 2 ^ 16) + n div 2 ^ 8 mod 256 = n div 2 ^ 8" "256 * (n div 2 ^ 8) + n mod 256 = n"
    by (simp_all only: up(1,3) mult_div_mod_eq)
  moreover have "ntohl (htonl n) = 256 * (256 * (256 * (n div 2 ^ 24 mod 256) + n div 2 ^ 16 mod 256) + n div 2 ^ 8 mod 256) + n mod 256"
    unfolding ntohl_def htonl_def by (simp del: power_numeral)
  ultimately show ?thesis
    by (simp only:)
qed

lemma htonl_mod: "htonl n = htonl (n mod 2 ^ 32)"
proof -
  have byte: "n div 2 ^ k mod 256 = n mod 2 ^ 32 div 2 ^ k mod 256" if "8 + k \<le> 32" for k
  proof -
    have "take_bit 8 (drop_bit k n) = take_bit 8 (drop_bit k (take_bit 32 n))"
      using that by (simp add: take_bit_drop_bit min_def)
    then show ?thesis
      by (simp add: take_bit_eq_mod drop_bit_eq_div)
  qed
  show ?thesis
    unfolding htonl_def using byte [of 24] byte [of 16] byte [of 8] byte [of 0] by (simp only: power_0 div_by_1)
qed

text \<open>The reads by which a message arrives on the connection: as many bytes as it put on the wire.\<close>

definition frame_reads :: "nat \<Rightarrow> nat \<Rightarrow> string \<Rightarrow> pool_event list" where
  "frame_reads i k m =
     (let c = prepareOutBuffer m (PersistentConnection_new None) in [Succeeds i k (m_outHeader c), Succeeds i k (m_outData c)])"

text \<open>A connection that waits for the header of a message, after other operations.\<close>

definition reading :: "(op \<times> 32 word) list \<Rightarrow> PersistentConnection \<Rightarrow> bool" where
  "reading ops c \<longleftrightarrow> pc_thread c = Running \<and> m_socket c \<and> pc_pending c = ops @ [(OpHeader False, m_connectionId c)]"

lemma frame_received:
  assumes "i < length (m_connections s)" "reading ops (m_connections s ! i)" "length m < 2 ^ 32"
  shows "\<exists>s'. pool_run hs (frame_reads i (length ops) m) s = Some s' \<and> cp_received s' = cp_received s @ [m] \<and>
    i < length (m_connections s') \<and> reading ops (m_connections s' ! i)"
proof -
  have "length (htonl (length m)) = 4"
    by (simp add: htonl_def)
  moreover have "length (resize (length m) d) = length m" for d
    by (simp add: resize_def)
  ultimately show ?thesis
    using assms by (simp add: frame_reads_def reading_def prepareOutBuffer_def pool_step_def free_conn_def expects_def take_op_def on_conn_def onSuccess_def
        onHeaderSuccess_def createCallback_def readLoop_def asyncRead_def run_handler_def ntohl_htonl nth_append Let_def)
qed

text \<open>
  C32. Messages survive the framing: a connection that reads what another one put on the wire for a
  sequence of messages below 4 GB receives these messages in this order and waits for the next header. A
  longer message has the header of a shorter one.
\<close>

theorem frames_roundtrip:
  assumes "i < length (m_connections s)" "reading ops (m_connections s ! i)" "\<forall>m \<in> set ms. length m < 2 ^ 32"
  shows "(\<exists>s'. pool_run hs (concat (map (frame_reads i (length ops)) ms)) s = Some s' \<and> cp_received s' = cp_received s @ ms \<and>
      reading ops (m_connections s' ! i)) \<and>
    (2 ^ 32 \<le> length m \<longrightarrow> m_outHeader (prepareOutBuffer m c) = m_outHeader (prepareOutBuffer (take (length m mod 2 ^ 32) m) c))"
proof (intro conjI impI)
  have append: "pool_run hs (evs @ evs') s = (case pool_run hs evs s of None \<Rightarrow> None | Some s' \<Rightarrow> pool_run hs evs' s')" for evs evs' s
    by (induction evs arbitrary: s) (auto split: option.split)
  show "\<exists>s'. pool_run hs (concat (map (frame_reads i (length ops)) ms)) s = Some s' \<and> cp_received s' = cp_received s @ ms \<and> reading ops (m_connections s' ! i)"
    using assms
  proof (induction ms arbitrary: s)
    case (Cons m ms)
    then obtain s1 where s1: "pool_run hs (frame_reads i (length ops) m) s = Some s1" "cp_received s1 = cp_received s @ [m]"
        "i < length (m_connections s1)" "reading ops (m_connections s1 ! i)"
      using frame_received [OF Cons.prems(1,2), of m hs] by auto
    then show ?case
      using Cons.IH [OF s1(3,4)] Cons.prems(3) by (auto simp: append)
  qed simp
next
  assume "2 ^ 32 \<le> length m"
  have "length m mod 2 ^ 32 \<le> length m"
    by (rule mod_less_eq_dividend)
  then have "min (length m) (length m mod 2 ^ 32) = length m mod 2 ^ 32"
    by (rule min_absorb2)
  then show "m_outHeader (prepareOutBuffer m c) = m_outHeader (prepareOutBuffer (take (length m mod 2 ^ 32) m) c)"
    using htonl_mod [of "length m"] by (simp only: prepareOutBuffer_def length_take) simp
qed

theorem frames_roundtrip_witness:
  "\<exists>s s'. pool_run no_handshake [Succeeds 0 0 []] (pool_connect 1 None) = Some s \<and>
     pool_run no_handshake (concat (map (frame_reads 0 0) [''hello'', [], ''x''])) s = Some s' \<and> cp_received s' = [''hello'', [], ''x'']"
proof -
  obtain s where s: "pool_run no_handshake [Succeeds 0 0 []] (pool_connect 1 None) = Some s" "length (m_connections s) = 1"
    "reading [] (m_connections s ! 0)" "cp_received s = []"
    by (simp add: pool_eval reading_def)
  have "0 < length (m_connections s)" "\<forall>m \<in> set [''hello'', [], ''x'']. length m < 2 ^ 32"
    using s(2) by simp_all
  from frames_roundtrip [OF this(1) s(3) this(2), of no_handshake] show ?thesis
    using s(1,4) by auto
qed

end
