(* ===== verification/OC_Inbox.thy ===== *)
theory OC_Inbox
  imports OC_Messages OC_ObjectKeys
begin

text \<open>
  Requests and their replies (\<open>helpers/src/communication/layers/inbox.h\<close>, \<open>replier.h\<close>): each request
  gets a message id, and the message from the provider that carries this id goes to the callback of the
  request. Other parts of the client subscribe for messages by a predicate. Callbacks are numbers.
\<close>

section \<open>Model\<close>

record 'p SubscriptionData =
  sd_predicate :: "'p ServerMessage \<Rightarrow> bool \<Rightarrow> bool"
  sd_callback :: "nat option"

definition SubscriptionData_default :: "'p SubscriptionData" where
  "SubscriptionData_default = \<lparr>sd_predicate = (\<lambda>_ _. False), sd_callback = None\<rparr>"

text \<open>
  The fields of the class, then what was passed to the layer below and which callbacks were called:
  those of requests with an error or the reply, those of subscriptions with a message.
\<close>

record 'p Inbox =
  m_callbacks :: "(string \<times> nat) list"
  m_seed :: uint64
  m_nextMsgId :: "16 word"
  ib_subscriptions :: "'p SubscriptionData list"
  m_unusedSubscriptions :: "nat list"
  ib_sent :: "'p ClientMessage list"
  ib_replies :: "(nat \<times> (errno + 'p ServerMessage)) list"
  ib_pushed :: "(nat option \<times> 'p ServerMessage) list"

definition Inbox_init :: "uint64 \<Rightarrow> 'p Inbox" where
  "Inbox_init seed =
     \<lparr>m_callbacks = [], m_seed = seed, m_nextMsgId = 0, ib_subscriptions = [], m_unusedSubscriptions = [],
      ib_sent = [], ib_replies = [], ib_pushed = []\<rparr>"

definition next_message_id :: "'p Inbox \<Rightarrow> string" where
  "next_message_id s = decimal (unat (m_seed s + ucast (m_nextMsgId s)))"

definition communicate :: "'p ClientMessage \<Rightarrow> nat \<Rightarrow> 'p Inbox \<Rightarrow> 'p Inbox" where
  "communicate message callback s =
     (let messageId = next_message_id s
      in s\<lparr>m_nextMsgId := m_nextMsgId s + 1,
           m_callbacks := (messageId, callback) # al_erase messageId (m_callbacks s),
           ib_sent := ib_sent s @ [message\<lparr>message_id := messageId\<rparr>]\<rparr>)"

definition sendCallback :: "string \<Rightarrow> errno option \<Rightarrow> 'p Inbox \<Rightarrow> 'p Inbox" where
  "sendCallback messageId ec s =
     (case ec of
        None \<Rightarrow> s
      | Some e \<Rightarrow>
          (case map_of (m_callbacks s) messageId of
             None \<Rightarrow> s
           | Some cb \<Rightarrow> s\<lparr>m_callbacks := al_erase messageId (m_callbacks s), ib_replies := ib_replies s @ [(cb, Inl e)]\<rparr>))"

text \<open>A subscription is cancelled by its position.\<close>

definition inbox_subscribe :: "'p SubscriptionData \<Rightarrow> 'p Inbox \<Rightarrow> nat \<times> 'p Inbox" where
  "inbox_subscribe data s =
     (case m_unusedSubscriptions s of
        it # unused \<Rightarrow> (it, s\<lparr>ib_subscriptions := (ib_subscriptions s)[it := data], m_unusedSubscriptions := unused\<rparr>)
      | [] \<Rightarrow> (length (ib_subscriptions s), s\<lparr>ib_subscriptions := ib_subscriptions s @ [data]\<rparr>))"

definition inbox_unsubscribe :: "nat \<Rightarrow> 'p Inbox \<Rightarrow> 'p Inbox" where
  "inbox_unsubscribe it s =
     s\<lparr>ib_subscriptions := (ib_subscriptions s)[it := SubscriptionData_default], m_unusedSubscriptions := m_unusedSubscriptions s @ [it]\<rparr>"

definition onMessage :: "'p ServerMessage \<Rightarrow> 'p Inbox \<Rightarrow> 'p Inbox" where
  "onMessage message s =
     (let found = map_of (m_callbacks s) (message_id message);
          handled = (found \<noteq> None);
          s1 = s\<lparr>ib_pushed := ib_pushed s @
                 map (\<lambda>sub. (sd_callback sub, message)) (filter (\<lambda>sub. sd_predicate sub message handled) (ib_subscriptions s))\<rparr>
      in case found of
           None \<Rightarrow> s1
         | Some cb \<Rightarrow> s1\<lparr>m_callbacks := al_erase (message_id message) (m_callbacks s), ib_replies := ib_replies s @ [(cb, Inr message)]\<rparr>)"

definition inbox_reply :: "'p ServerMessage \<Rightarrow> 'p ClientMessage \<Rightarrow> 'p Inbox \<Rightarrow> 'p Inbox" where
  "inbox_reply replyTo msg s = s\<lparr>ib_sent := ib_sent s @ [msg\<lparr>message_id := message_id replyTo\<rparr>]\<rparr>"

section \<open>Runs\<close>

datatype 'p inbox_event =
    Communicate "'p ClientMessage" nat
  | SendDone string "errno option"
  | Arrives "'p ServerMessage"
  | Subscribe "'p SubscriptionData"
  | Unsubscribe nat
  | Reply "'p ServerMessage" "'p ClientMessage"

fun inbox_step :: "'p inbox_event \<Rightarrow> 'p Inbox \<Rightarrow> 'p Inbox" where
  "inbox_step (Communicate m cb) s = communicate m cb s"
| "inbox_step (SendDone i ec) s = sendCallback i ec s"
| "inbox_step (Arrives m) s = onMessage m s"
| "inbox_step (Subscribe d) s = snd (inbox_subscribe d s)"
| "inbox_step (Unsubscribe it) s = inbox_unsubscribe it s"
| "inbox_step (Reply to m) s = inbox_reply to m s"

definition inbox_run :: "'p inbox_event list \<Rightarrow> 'p Inbox \<Rightarrow> 'p Inbox" where
  "inbox_run evs s = fold inbox_step evs s"

text \<open>The callbacks of the requests of a run, in order, and the id of the request with a given number.\<close>

definition requests :: "'p inbox_event list \<Rightarrow> nat list" where
  "requests evs = concat (map (\<lambda>ev. case ev of Communicate _ cb \<Rightarrow> [cb] | _ \<Rightarrow> []) evs)"

definition request_id :: "uint64 \<Rightarrow> nat \<Rightarrow> string" where
  "request_id seed k = decimal (unat (seed + ucast (of_nat k :: 16 word)))"

text \<open>No request takes an id that an unanswered one still has.\<close>

fun fresh_run :: "'p inbox_event list \<Rightarrow> 'p Inbox \<Rightarrow> bool" where
  "fresh_run [] s = True"
| "fresh_run (ev # evs) s =
     ((case ev of Communicate _ _ \<Rightarrow> map_of (m_callbacks s) (next_message_id s) = None | _ \<Rightarrow> True) \<and> fresh_run evs (inbox_step ev s))"

section \<open>Requests and replies\<close>

definition outstanding :: "'p Inbox \<Rightarrow> nat multiset" where
  "outstanding s = mset (map snd (m_callbacks s))"

definition answered :: "'p Inbox \<Rightarrow> nat multiset" where
  "answered s = mset (map fst (ib_replies s))"

lemma al_erase_absent: "map_of xs k = None \<Longrightarrow> al_erase k xs = xs"
  by (induction xs) (auto split: if_splits)

lemma al_erase_present:
  "distinct (map fst xs) \<Longrightarrow> map_of xs k = Some v \<Longrightarrow> mset (map snd xs) = add_mset v (mset (map snd (al_erase k xs)))"
proof (induction xs)
  case (Cons x xs)
  obtain k' v' where x: "x = (k', v')"
    by (cases x)
  show ?case
  proof (cases "k = k'")
    case True
    then have "map_of xs k = None"
      using Cons.prems(1) by (simp add: x map_of_eq_None_iff)
    then show ?thesis
      using Cons.prems(2) True by (simp add: x al_erase_absent)
  qed (use Cons x in simp)
qed simp

lemma al_erase_subset: "x \<in> set (al_erase k xs) \<Longrightarrow> x \<in> set xs"
  by (induction xs) (auto split: if_splits)

lemma al_erase_keys:
  "distinct (map fst xs) \<Longrightarrow> distinct (map fst (al_erase k xs))"
  "k \<notin> fst ` set (al_erase k xs)"
proof -
  show "distinct (map fst xs) \<Longrightarrow> distinct (map fst (al_erase k xs))"
    by (induction xs) (auto dest!: al_erase_subset simp: rev_image_eqI)
  show "k \<notin> fst ` set (al_erase k xs)"
    using map_of_al_erase [of k xs] by (simp add: map_of_eq_None_iff [symmetric])
qed

text \<open>The inbox after requests with the callbacks \<open>rs\<close>.\<close>

definition inbox_inv :: "uint64 \<Rightarrow> nat list \<Rightarrow> 'p Inbox \<Rightarrow> bool" where
  "inbox_inv seed rs s \<longleftrightarrow>
     m_seed s = seed \<and> m_nextMsgId s = of_nat (length rs) \<and> distinct (map fst (m_callbacks s)) \<and>
     (\<forall>(i, cb) \<in> set (m_callbacks s). \<exists>k < length rs. rs ! k = cb \<and> i = request_id seed k) \<and>
     (\<forall>(cb, r) \<in> set (ib_replies s). \<exists>k < length rs. rs ! k = cb \<and> (\<forall>m. r = Inr m \<longrightarrow> message_id m = request_id seed k))"

lemma inbox_inv_more: "(\<exists>k < length rs. rs ! k = cb \<and> P k) \<Longrightarrow> \<exists>k < length (rs @ [x]). (rs @ [x]) ! k = cb \<and> P k"
  by (metis length_append_singleton less_SucI nth_append)

lemma communicate_inv:
  assumes "inbox_inv seed rs s"
  shows "inbox_inv seed (rs @ [cb]) (communicate m cb s)"
proof -
  let ?i = "next_message_id s" and ?rs = "rs @ [cb]"
  have inv: "m_seed s = seed" "m_nextMsgId s = of_nat (length rs)" "distinct (map fst (m_callbacks s))"
    "\<And>i c. (i, c) \<in> set (m_callbacks s) \<Longrightarrow> \<exists>k < length rs. rs ! k = c \<and> i = request_id seed k"
    "\<And>c r. (c, r) \<in> set (ib_replies s) \<Longrightarrow> \<exists>k < length rs. rs ! k = c \<and> (\<forall>m. r = Inr m \<longrightarrow> message_id m = request_id seed k)"
    using assms by (auto simp: inbox_inv_def)
  have i: "?i = request_id seed (length rs)"
    by (simp add: next_message_id_def request_id_def inv(1,2))
  have "distinct (map fst ((?i, cb) # al_erase ?i (m_callbacks s)))"
    using al_erase_keys [where k = ?i and xs = "m_callbacks s"] inv(3) by auto
  moreover have "\<exists>k < length ?rs. ?rs ! k = c \<and> j = request_id seed k" if "(j, c) \<in> set ((?i, cb) # al_erase ?i (m_callbacks s))" for j c
  proof (cases "(j, c) = (?i, cb)")
    case True
    then show ?thesis
      by (intro exI [of _ "length rs"]) (simp add: i)
  next
    case False
    then show ?thesis
      using that inv(4) [THEN inbox_inv_more] al_erase_subset [of "(j, c)"] by auto
  qed
  moreover have "\<exists>k < length ?rs. ?rs ! k = c \<and> (\<forall>m. r = Inr m \<longrightarrow> message_id m = request_id seed k)" if "(c, r) \<in> set (ib_replies s)" for c r
    using inv(5) [OF that] by (rule inbox_inv_more)
  moreover have "(of_nat (length rs) + 1 :: 16 word) = of_nat (length ?rs)"
    by simp
  ultimately show ?thesis
    unfolding inbox_inv_def communicate_def Let_def using inv(1,2) by (auto simp del: set_simps length_append)
qed

lemma answer_inv:
  assumes "inbox_inv seed rs s" "map_of (m_callbacks s) i = Some cb" "\<forall>m. r = Inr m \<longrightarrow> message_id m = i"
  shows "inbox_inv seed rs (s\<lparr>m_callbacks := al_erase i (m_callbacks s), ib_replies := ib_replies s @ [(cb, r)]\<rparr>)"
proof -
  obtain k where "k < length rs" "rs ! k = cb" "i = request_id seed k"
    using assms(1) map_of_SomeD [OF assms(2)] by (auto simp: inbox_inv_def)
  then show ?thesis
    using assms(1,3) al_erase_keys(1) [of "m_callbacks s" i] al_erase_subset [of _ i "m_callbacks s"] unfolding inbox_inv_def by auto
qed

definition step_requests :: "'p inbox_event \<Rightarrow> nat list" where
  "step_requests ev = (case ev of Communicate _ cb \<Rightarrow> [cb] | _ \<Rightarrow> [])"

lemma inbox_step_inv: "inbox_inv seed rs s \<Longrightarrow> inbox_inv seed (rs @ step_requests ev) (inbox_step ev s)"
proof (cases ev)
  case (Communicate m cb)
  assume "inbox_inv seed rs s"
  then show ?thesis
    using Communicate by (simp add: step_requests_def communicate_inv)
next
  case (SendDone i ec)
  assume "inbox_inv seed rs s"
  then show ?thesis
    using SendDone answer_inv [of seed rs s i _ "Inl _"] by (auto simp: sendCallback_def step_requests_def split: option.split)
next
  case (Arrives m)
  assume inv: "inbox_inv seed rs s"
  have "inbox_inv seed rs (s\<lparr>ib_pushed := p\<rparr>)" for p
    using inv by (simp add: inbox_inv_def)
  from this [THEN answer_inv] this show ?thesis
    using Arrives by (auto simp: onMessage_def step_requests_def Let_def split: option.split)
qed (auto simp: step_requests_def inbox_subscribe_def inbox_unsubscribe_def inbox_reply_def inbox_inv_def split: list.split)

text \<open>Each step accounts for the callbacks, except for one that a new request with the same id replaces.\<close>

lemma inbox_step_account:
  assumes "inbox_inv seed rs s"
  shows "outstanding (inbox_step ev s) + answered (inbox_step ev s) \<subseteq># outstanding s + answered s + mset (step_requests ev) \<and>
    ((case ev of Communicate _ _ \<Rightarrow> map_of (m_callbacks s) (next_message_id s) = None | _ \<Rightarrow> True) \<longrightarrow>
     outstanding (inbox_step ev s) + answered (inbox_step ev s) = outstanding s + answered s + mset (step_requests ev))"
proof -
  have dist: "distinct (map fst (m_callbacks s))"
    using assms by (simp add: inbox_inv_def)
  note present = al_erase_present [OF dist]
  show ?thesis
  proof (cases ev)
    case (Communicate m cb)
    let ?i = "next_message_id s"
    show ?thesis
    proof (cases "map_of (m_callbacks s) ?i")
      case None
      then show ?thesis
        using Communicate by (simp add: communicate_def Let_def outstanding_def answered_def step_requests_def al_erase_absent)
    next
      case (Some old)
      then show ?thesis
        using Communicate present [OF Some] by (simp add: communicate_def Let_def outstanding_def answered_def step_requests_def)
    qed
  next
    case (SendDone i ec)
    then show ?thesis
      using present by (auto simp: sendCallback_def outstanding_def answered_def step_requests_def split: option.split)
  next
    case (Arrives m)
    then show ?thesis
      using present by (auto simp: onMessage_def outstanding_def answered_def step_requests_def Let_def split: option.split)
  qed (simp_all add: inbox_subscribe_def inbox_unsubscribe_def inbox_reply_def outstanding_def answered_def step_requests_def split: list.split)
qed

lemma requests_Nil: "requests [] = []"
  by (simp add: requests_def)

lemma requests_Cons: "requests (ev # evs) = step_requests ev @ requests evs"
  by (simp add: requests_def step_requests_def)

lemma inbox_run_facts:
  assumes "inbox_inv seed rs s"
  shows "inbox_inv seed (rs @ requests evs) (inbox_run evs s) \<and>
    outstanding (inbox_run evs s) + answered (inbox_run evs s) \<subseteq># outstanding s + answered s + mset (requests evs) \<and>
    (fresh_run evs s \<longrightarrow> outstanding (inbox_run evs s) + answered (inbox_run evs s) = outstanding s + answered s + mset (requests evs))"
  using assms
proof (induction evs arbitrary: rs s)
  case Nil
  then show ?case
    by (simp add: inbox_run_def requests_def)
next
  case (Cons ev evs)
  let ?s1 = "inbox_step ev s"
  note step = inbox_step_account [OF Cons.prems, of ev] and IH = Cons.IH [OF inbox_step_inv [OF Cons.prems, of ev]]
  have run: "inbox_run (ev # evs) s = inbox_run evs ?s1"
    by (simp add: inbox_run_def)
  have "outstanding (inbox_run evs ?s1) + answered (inbox_run evs ?s1) \<subseteq># outstanding s + answered s + mset (step_requests ev) + mset (requests evs)"
    using conjunct1 [OF conjunct2 [OF IH]] conjunct1 [OF step] by (meson subset_mset.add_right_mono subset_mset.order_trans)
  then show ?case
    using IH step unfolding run requests_Cons by (simp add: ac_simps)
qed

text \<open>The ids of two requests are the same just if their numbers are the same up to the wrap-around of the counter.\<close>

lemma request_id_eq_iff: "request_id seed j = request_id seed k \<longleftrightarrow> j mod 65536 = k mod 65536"
proof -
  have unat: "unat (ucast (of_nat n :: 16 word) :: uint64) = n mod 65536" for n
    by (simp add: unsigned_ucast_eq unsigned_of_nat take_bit_eq_mod)
  have "request_id seed j = request_id seed k \<longleftrightarrow> unat (seed + ucast (of_nat j :: 16 word)) = unat (seed + ucast (of_nat k :: 16 word))"
    unfolding request_id_def by (metis decimal_value_decimal)
  also have "\<dots> \<longleftrightarrow> (ucast (of_nat j :: 16 word) :: uint64) = ucast (of_nat k :: 16 word)"
    by (simp only: word_unat_eq_iff [symmetric] add_left_cancel)
  also have "\<dots> \<longleftrightarrow> j mod 65536 = k mod 65536"
    by (simp only: word_unat_eq_iff unat)
  finally show ?thesis .
qed

lemma near_numbers_differ:
  fixes n d :: nat
  assumes "0 < d" "d < 65536"
  shows "(n + d) mod 65536 \<noteq> n mod 65536"
proof
  assume "(n + d) mod 65536 = n mod 65536"
  then have "65536 dvd (n + d) - n"
    by (metis mod_eq_dvd_iff_nat le_add1)
  then show False
    using assms by (auto dest: dvd_imp_le)
qed

lemma few_requests_fresh:
  "inbox_inv seed rs s \<Longrightarrow> length rs + length (requests evs) \<le> 65536 \<Longrightarrow> fresh_run evs s"
proof (induction evs arbitrary: rs s)
  case (Cons ev evs)
  have "fresh_run evs (inbox_step ev s)"
    using Cons.prems by (intro Cons.IH [OF inbox_step_inv]) (auto simp: requests_Cons)
  moreover have "map_of (m_callbacks s) (next_message_id s) = None" if "ev = Communicate m cb" for m cb
  proof (rule ccontr)
    assume "map_of (m_callbacks s) (next_message_id s) \<noteq> None"
    then obtain c where "(next_message_id s, c) \<in> set (m_callbacks s)"
      by (auto dest: map_of_SomeD)
    then obtain k where "k < length rs" "next_message_id s = request_id seed k"
      using Cons.prems(1) by (auto simp: inbox_inv_def)
    moreover have "next_message_id s = request_id seed (length rs)"
      using Cons.prems(1) by (simp add: next_message_id_def request_id_def inbox_inv_def)
    moreover have "length rs < 65536"
      using Cons.prems(2) that by (simp add: requests_Cons step_requests_def)
    ultimately show False
      by (simp add: request_id_eq_iff)
  qed
  ultimately show ?case
    by (simp split: inbox_event.split)
qed simp

lemma inbox_inv_size:
  assumes "inbox_inv seed rs s"
  shows "length (m_callbacks s) \<le> 65536"
proof -
  have "fst ` set (m_callbacks s) \<subseteq> request_id seed ` {..<65536}"
  proof
    fix i
    assume "i \<in> fst ` set (m_callbacks s)"
    then obtain k where "i = request_id seed k"
      using assms by (auto simp: inbox_inv_def)
    then have "i = request_id seed (k mod 65536)"
      by (simp add: request_id_eq_iff)
    then show "i \<in> request_id seed ` {..<65536}"
      by simp
  qed
  then have "card (fst ` set (m_callbacks s)) \<le> card (request_id seed ` {..<65536::nat})"
    by (intro card_mono) auto
  also have "\<dots> \<le> 65536"
    using card_image_le [of "{..<65536::nat}" "request_id seed"] by simp
  finally show ?thesis
    using assms distinct_card [of "map fst (m_callbacks s)"] by (simp add: inbox_inv_def)
qed

lemma Inbox_init_inv: "inbox_inv seed [] (Inbox_init seed)"
  by (simp add: inbox_inv_def Inbox_init_def)

lemma Inbox_init_account [simp]: "outstanding (Inbox_init seed) = {#}" "answered (Inbox_init seed) = {#}"
  by (simp_all add: outstanding_def answered_def Inbox_init_def)

text \<open>Nothing that happens to other requests takes the callback of a request away.\<close>

fun undisturbed :: "string \<Rightarrow> 'p inbox_event \<Rightarrow> bool" where
  "undisturbed i (SendDone j (Some e)) \<longleftrightarrow> j \<noteq> i"
| "undisturbed i (Arrives m) \<longleftrightarrow> message_id m \<noteq> i"
| "undisturbed i ev \<longleftrightarrow> True"

lemma undisturbed_step:
  assumes "map_of (m_callbacks s) i = Some cb" "undisturbed i ev" "step_requests ev = [] \<or> next_message_id s \<noteq> i"
  shows "map_of (m_callbacks (inbox_step ev s)) i = Some cb"
  using assms
  by (cases "(i, ev)" rule: undisturbed.cases)
    (auto simp: step_requests_def communicate_def sendCallback_def onMessage_def inbox_subscribe_def inbox_unsubscribe_def
      inbox_reply_def map_of_al_erase Let_def split: option.split list.split)

lemma undisturbed_run:
  assumes "map_of (m_callbacks s) (request_id seed n) = Some cb" "inbox_inv seed rs s" "list_all (undisturbed (request_id seed n)) evs"
    "n < length rs" "length rs + length (requests evs) \<le> n + 65536"
  shows "map_of (m_callbacks (inbox_run evs s)) (request_id seed n) = Some cb"
  using assms
proof (induction evs arbitrary: rs s)
  case Nil
  then show ?case
    by (simp add: inbox_run_def)
next
  case (Cons ev evs)
  have id: "next_message_id s = request_id seed (length rs)"
    using Cons.prems(2) by (simp add: next_message_id_def request_id_def inbox_inv_def)
  have "step_requests ev = [] \<or> next_message_id s \<noteq> request_id seed n"
    using near_numbers_differ [of "length rs - n" n] Cons.prems(4,5)
    by (cases "step_requests ev") (simp_all add: id request_id_eq_iff requests_Cons)
  then have "map_of (m_callbacks (inbox_step ev s)) (request_id seed n) = Some cb"
    using Cons.prems(1,3) by (intro undisturbed_step) simp_all
  then have "map_of (m_callbacks (inbox_run evs (inbox_step ev s))) (request_id seed n) = Some cb"
    using Cons.prems by (intro Cons.IH [OF _ inbox_step_inv]) (auto simp: requests_Cons)
  then show ?case
    by (simp add: inbox_run_def)
qed

section \<open>Subscriptions\<close>

text \<open>Free positions are in range, listed once, and hold the predicate that is never true.\<close>

definition slots_inv :: "'p Inbox \<Rightarrow> bool" where
  "slots_inv s \<longleftrightarrow> distinct (m_unusedSubscriptions s) \<and>
     (\<forall>it \<in> set (m_unusedSubscriptions s). it < length (ib_subscriptions s) \<and> ib_subscriptions s ! it = SubscriptionData_default)"

lemma inbox_subscribe_slot:
  assumes "slots_inv s" "inbox_subscribe data s = (it, s')"
  shows "slots_inv s'" "it < length (ib_subscriptions s')" "ib_subscriptions s' ! it = data" "it \<notin> set (m_unusedSubscriptions s')"
    "\<And>j. j < length (ib_subscriptions s) \<Longrightarrow> j \<notin> set (m_unusedSubscriptions s) \<Longrightarrow> j \<noteq> it \<and> ib_subscriptions s' ! j = ib_subscriptions s ! j"
  using assms by (auto simp: slots_inv_def inbox_subscribe_def nth_append nth_list_update split: list.splits)

lemma inbox_unsubscribe_slot:
  "slots_inv s \<Longrightarrow> it < length (ib_subscriptions s) \<Longrightarrow> it \<notin> set (m_unusedSubscriptions s) \<Longrightarrow> slots_inv (inbox_unsubscribe it s)"
  by (auto simp: slots_inv_def inbox_unsubscribe_def nth_list_update)

section \<open>Properties\<close>

text \<open>C8. In every run of the inbox the callback of a request is called at most once, with an error or with a message
  that carries the id of this request, and at most 65536 requests wait. No callback is lost as long as no request takes the
  id of one that waits, which holds in particular for the first 65536 requests.\<close>

theorem requests_answered_once:
  fixes evs :: "'p inbox_event list" and seed :: uint64
  shows "let s = inbox_run evs (Inbox_init seed); rs = requests evs in
    outstanding s + answered s \<subseteq># mset rs \<and>
    (\<forall>(cb, r) \<in> set (ib_replies s). \<exists>k < length rs. rs ! k = cb \<and> (\<forall>m. r = Inr m \<longrightarrow> message_id m = request_id seed k)) \<and>
    length (m_callbacks s) \<le> 65536 \<and>
    (fresh_run evs (Inbox_init seed) \<longrightarrow> outstanding s + answered s = mset rs) \<and>
    (length rs \<le> 65536 \<longrightarrow> fresh_run evs (Inbox_init seed))"
proof -
  have inv: "inbox_inv seed [] (Inbox_init seed :: 'p Inbox)"
    by (rule Inbox_init_inv)
  note facts = inbox_run_facts [OF inv, of evs]
  moreover have "length (requests evs) \<le> 65536 \<longrightarrow> fresh_run evs (Inbox_init seed)"
    using few_requests_fresh [OF inv, of evs] by simp
  moreover note inbox_inv_size [OF conjunct1 [OF facts]]
  ultimately show ?thesis
    by (simp add: Let_def inbox_inv_def)
qed

definition inbox_example :: "nat inbox_event list" where
  "inbox_example =
     [Communicate (plain_message (Other_body 1)) 7, Communicate (plain_message (Other_body 2)) 8,
      Arrives ((plain_message (Other_body 3))\<lparr>message_id := request_id 100 1\<rparr>),
      SendDone (request_id 100 0) (Some 5)]"

lemma inbox_example_requests: "requests inbox_example = [7, 8]"
  by (simp add: inbox_example_def requests_def)

lemma inbox_example_replies:
  "ib_replies (inbox_run inbox_example (Inbox_init 100)) =
     [(8, Inr ((plain_message (Other_body 3))\<lparr>message_id := request_id 100 1\<rparr>)), (7, Inl 5)]"
proof -
  have "request_id 100 0 \<noteq> request_id 100 1"
    by (simp add: request_id_eq_iff)
  moreover have "decimal (unat (100 :: uint64)) = request_id 100 0" "decimal (unat (101 :: uint64)) = request_id 100 1"
    by (simp_all add: request_id_def)
  ultimately show ?thesis
    by (simp add: inbox_example_def inbox_run_def Inbox_init_def communicate_def next_message_id_def onMessage_def sendCallback_def Let_def)
qed

theorem requests_answered_once_witness:
  "length (requests inbox_example) \<le> 65536 \<and>
   outstanding (inbox_run inbox_example (Inbox_init 100)) + answered (inbox_run inbox_example (Inbox_init 100)) = {#7, 8#} \<and>
   map fst (ib_replies (inbox_run inbox_example (Inbox_init 100))) = [8, 7]"
  using requests_answered_once [of inbox_example 100] by (simp add: Let_def inbox_example_requests inbox_example_replies)

text \<open>C7. A request is sent with its own id, and the message that carries this id reaches the callback of the request,
  whatever happens in between: other requests, fewer than 65536 of them, their replies and failures, and subscriptions.
  The callback is then forgotten, so that a second reply does not reach it.\<close>

theorem reply_reaches_request:
  fixes before evs :: "'p inbox_event list"
  assumes "list_all (undisturbed (request_id seed (length (requests before)))) evs" "length (requests evs) < 65536"
    and "message_id reply = request_id seed (length (requests before))"
  shows "let s = inbox_run before (Inbox_init seed); s1 = communicate m cb s; s2 = inbox_run evs s1; s3 = onMessage reply s2 in
    ib_sent s1 = ib_sent s @ [m\<lparr>message_id := message_id reply\<rparr>] \<and>
    ib_replies s3 = ib_replies s2 @ [(cb, Inr reply)] \<and>
    ib_replies (onMessage reply s3) = ib_replies s3"
proof -
  define s where "s = (inbox_run before (Inbox_init seed) :: 'p Inbox)"
  define s2 where "s2 = inbox_run evs (communicate m cb s)"
  let ?rs = "requests before" and ?i = "request_id seed (length (requests before))"
  have inv: "inbox_inv seed ?rs s"
    using inbox_run_facts [OF Inbox_init_inv, of seed before] by (simp add: s_def)
  then have id: "next_message_id s = ?i"
    by (simp add: next_message_id_def request_id_def inbox_inv_def)
  then have "map_of (m_callbacks (communicate m cb s)) ?i = Some cb"
    by (simp add: communicate_def Let_def)
  then have "map_of (m_callbacks s2) ?i = Some cb"
    unfolding s2_def using communicate_inv [OF inv, of cb m] assms(1,2) by (intro undisturbed_run [where rs = "?rs @ [cb]"]) simp_all
  then show ?thesis
    unfolding Let_def s_def [symmetric] s2_def [symmetric]
    using id assms(3) by (simp add: communicate_def onMessage_def map_of_al_erase Let_def)
qed

theorem reply_reaches_request_witness:
  "let m = plain_message (Other_body (0 :: nat)); reply = m\<lparr>message_id := request_id 100 2\<rparr>;
       s2 = inbox_run [Communicate m 4, SendDone (request_id 100 2) None] (communicate m 3 (inbox_run inbox_example (Inbox_init 100)))
   in ib_replies (onMessage reply s2) = ib_replies s2 @ [(3, Inr reply)]"
  using reply_reaches_request [of 100 inbox_example "[Communicate (plain_message (Other_body 0)) 4, SendDone (request_id 100 2) None]"
      "(plain_message (Other_body 0))\<lparr>message_id := request_id 100 2\<rparr>" "plain_message (Other_body 0)" 3]
  by (simp add: Let_def inbox_example_requests requests_Nil requests_Cons step_requests_def numeral_2_eq_2)

end
